(* ===== verification/Nla_Prelude.thy ===== *)
theory Nla_Prelude
  imports Main "HOL-Library.Word" "HOL-Library.Char_ord" "HOL-Library.Signed_Division"
begin

text \<open>
  Shared vocabulary of the development: what C does that HOL does not.
  \<^item> \<open>fault\<close> lists the ways a C statement of the module stops being a computation (a null
    pointer is followed, an array is written past its end, a division by zero, a cast of a
    floating point number that does not fit, a spin lock that is never released, a loop that
    does not end within the given fuel, a block that is not in use is freed, a variadic
    argument is missing or of another type); an operation that can fault returns \<open>fault + 'a\<close>.
  \<^item> \<open>wrap32\<close> and \<open>wrap64\<close> are the two's complement reductions of \<open>int\<close> and \<open>ngx_int_t\<close>
    (the latter is \<open>intptr_t\<close>, 64 bits on the platform of the build).
  \<^item> \<open>c_str\<close> reads a NUL terminated string, \<open>sprintf_d\<close> and \<open>sprintf_06d\<close> are the \<open>%d\<close> and
    \<open>%06d\<close> conversions, \<open>is_digit\<close>, \<open>is_alpha_lc\<close> and \<open>char_or_0x20\<close> the byte tests that the
    parsers of the server repeat.
  \<^item> \<open>run_steps\<close> is the shape of every \<open>for (p = b->pos; p < b->last; p++) switch (state)\<close>
    loop of the server, and the locale \<open>resumable\<close> is the contract of such a loop: cutting
    the input at any byte and calling again with the saved state gives the same result.
  The collections \<open>c_arith\<close> and \<open>c_bytes\<close> carry the arithmetic and the byte facts.
\<close>

named_theorems c_arith \<open>ranges and reductions of C integers\<close>
named_theorems c_bytes \<open>facts on single bytes\<close>

section \<open>Faults\<close>

datatype fault =
    NullDeref
  | BufferOverflow
  | DivisionByZero
  | CastOverflow
  | Blocked
  | OutOfFuel
  | BadFree
  | BadArgument

type_synonym 'a c_result = "fault + 'a"

definition bindr :: "'a c_result \<Rightarrow> ('a \<Rightarrow> 'b c_result) \<Rightarrow> 'b c_result" where
  "bindr m f = (case m of Inl e \<Rightarrow> Inl e | Inr x \<Rightarrow> f x)"

lemma bindr_simps [simp]:
  "bindr (Inl e) f = Inl e"
  "bindr (Inr x) f = f x"
  by (simp_all add: bindr_def)

lemma bindr_Inr_iff:
  "bindr m f = Inr y \<longleftrightarrow> (\<exists>x. m = Inr x \<and> f x = Inr y)"
  by (auto simp: bindr_def split: sum.splits)

definition deref :: "('a \<Rightarrow> 'b option) \<Rightarrow> 'a option \<Rightarrow> 'b c_result" where
  "deref h p = (case p of None \<Rightarrow> Inl NullDeref
     | Some a \<Rightarrow> (case h a of None \<Rightarrow> Inl NullDeref | Some v \<Rightarrow> Inr v))"

lemma deref_simps [simp]:
  "deref h None = Inl NullDeref"
  "h a = None \<Longrightarrow> deref h (Some a) = Inl NullDeref"
  "h a = Some v \<Longrightarrow> deref h (Some a) = Inr v"
  by (simp_all add: deref_def)

lemma deref_Inr_iff: "deref h p = Inr v \<longleftrightarrow> (\<exists>a. p = Some a \<and> h a = Some v)"
  by (auto simp: deref_def split: option.splits)

section \<open>C integers\<close>

definition wrap32 :: "int \<Rightarrow> int" where
  "wrap32 x = (x + 2147483648) mod 4294967296 - 2147483648"

definition wrap64 :: "int \<Rightarrow> int" where
  "wrap64 x = (x + 9223372036854775808) mod 18446744073709551616 - 9223372036854775808"

definition is_int32 :: "int \<Rightarrow> bool" where
  "is_int32 x \<longleftrightarrow> -2147483648 \<le> x \<and> x \<le> 2147483647"

definition is_int64 :: "int \<Rightarrow> bool" where
  "is_int64 x \<longleftrightarrow> -9223372036854775808 \<le> x \<and> x \<le> 9223372036854775807"

lemma wrap32_id [c_arith]: "is_int32 x \<Longrightarrow> wrap32 x = x"
  by (simp add: wrap32_def is_int32_def)

lemma wrap64_id [c_arith]: "is_int64 x \<Longrightarrow> wrap64 x = x"
  by (simp add: wrap64_def is_int64_def)

lemma wrap32_range [simp, c_arith]: "is_int32 (wrap32 x)"
proof -
  have "0 \<le> (x + 2147483648) mod 4294967296" "(x + 2147483648) mod 4294967296 < 4294967296"
    by simp_all
  then show ?thesis by (simp add: wrap32_def is_int32_def)
qed

lemma wrap64_range [simp, c_arith]: "is_int64 (wrap64 x)"
proof -
  have "0 \<le> (x + 9223372036854775808) mod 18446744073709551616"
    "(x + 9223372036854775808) mod 18446744073709551616 < 18446744073709551616"
    by simp_all
  then show ?thesis by (simp add: wrap64_def is_int64_def)
qed

text \<open>Half of a sum, truncated towards zero as C does, stays between the summands.\<close>

lemma sdiv2_between:
  fixes a b :: int
  assumes "a \<le> b"
  shows "a \<le> (a + b) sdiv 2" "(a + b) sdiv 2 \<le> b"
  using assms by (auto simp: signed_divide_int_def sgn_if)

lemma sdiv2_abs_le:
  fixes a :: int
  shows "\<bar>a sdiv 2\<bar> \<le> \<bar>a\<bar>"
  by (auto simp: signed_divide_int_def abs_mult sgn_if)

section \<open>Bytes and strings\<close>

abbreviation NUL :: char where "NUL \<equiv> CHR 0x00"
abbreviation CR :: char where "CR \<equiv> CHR 0x0D"
abbreviation LF :: char where "LF \<equiv> CHR 0x0A"

definition c_str :: "string \<Rightarrow> string" where
  "c_str s = takeWhile (\<lambda>c. c \<noteq> NUL) s"

lemma c_str_id: "NUL \<notin> set s \<Longrightarrow> c_str s = s"
  by (auto simp: c_str_def takeWhile_eq_all_conv)

lemma c_str_length: "length (c_str s) \<le> length s"
  by (simp add: c_str_def length_takeWhile_le)

lemma c_str_no_NUL [simp]: "NUL \<notin> set (c_str s)"
  by (auto simp: c_str_def dest: set_takeWhileD)

definition is_digit :: "char \<Rightarrow> bool" where
  "is_digit ch \<longleftrightarrow> CHR ''0'' \<le> ch \<and> ch \<le> CHR ''9''"

definition digit_val :: "char \<Rightarrow> int" where
  "digit_val ch = of_char ch - 48"

text \<open>The idiom \<open>c = (u_char) (ch | 0x20)\<close> of the parsers.\<close>

definition char_or_0x20 :: "char \<Rightarrow> char" where
  "char_or_0x20 ch = (case ch of Char b0 b1 b2 b3 b4 b5 b6 b7 \<Rightarrow> Char b0 b1 b2 b3 b4 True b6 b7)"

definition is_alpha_lc :: "char \<Rightarrow> bool" where
  "is_alpha_lc ch \<longleftrightarrow> CHR ''a'' \<le> char_or_0x20 ch \<and> char_or_0x20 ch \<le> CHR ''z''"

definition is_hex_lc :: "char \<Rightarrow> bool" where
  "is_hex_lc ch \<longleftrightarrow> CHR ''a'' \<le> char_or_0x20 ch \<and> char_or_0x20 ch \<le> CHR ''f''"

definition hex_lc_val :: "char \<Rightarrow> int" where
  "hex_lc_val ch = of_char (char_or_0x20 ch) - 97 + 10"

lemma char_or_0x20_of_char [c_bytes]:
  "of_char (char_or_0x20 ch) = (or (of_char ch) 32 :: int)"
  by (cases ch) (simp add: char_or_0x20_def of_char_def horner_sum_simps)

lemma digit_val_range [c_bytes]: "is_digit ch \<Longrightarrow> 0 \<le> digit_val ch \<and> digit_val ch \<le> 9"
proof -
  assume "is_digit ch"
  then have "48 \<le> (of_char ch :: nat)" "(of_char ch :: nat) \<le> 57"
    by (simp_all add: is_digit_def less_eq_char_def)
  moreover have "(of_char ch :: int) = int (of_char ch)" by (simp add: of_nat_of_char)
  ultimately show ?thesis unfolding digit_val_def by linarith
qed


section \<open>Decimal conversions of sprintf\<close>

definition digit_char :: "nat \<Rightarrow> char" where
  "digit_char d = char_of (48 + d)"

fun nat_dec :: "nat \<Rightarrow> string" where
  "nat_dec n = (if n < 10 then [digit_char n] else nat_dec (n div 10) @ [digit_char (n mod 10)])"

declare nat_dec.simps [simp del]

definition pad0 :: "nat \<Rightarrow> string \<Rightarrow> string" where
  "pad0 w s = replicate (w - length s) CHR ''0'' @ s"

definition sprintf_d :: "int \<Rightarrow> string" where
  "sprintf_d x = (if x < 0 then CHR ''-'' # nat_dec (nat (- x)) else nat_dec (nat x))"

definition sprintf_06d :: "int \<Rightarrow> string" where
  "sprintf_06d x =
     (if x < 0 then CHR ''-'' # pad0 5 (nat_dec (nat (- x))) else pad0 6 (nat_dec (nat x)))"

lemma of_char_digit_char [c_bytes]: "d < 10 \<Longrightarrow> of_char (digit_char d) = 48 + d"
  by (simp add: digit_char_def)

lemma digit_char_is_digit [c_bytes]: "d < 10 \<Longrightarrow> is_digit (digit_char d)"
  by (simp add: is_digit_def less_eq_char_def of_char_digit_char)

lemma digit_val_digit_char [c_bytes]: "d < 10 \<Longrightarrow> digit_val (digit_char d) = int d"
proof -
  assume "d < 10"
  then have "int (of_char (digit_char d)) = 48 + int d" by (simp add: of_char_digit_char)
  then show ?thesis by (simp add: digit_val_def of_nat_of_char)
qed

lemma nat_dec_digits: "c \<in> set (nat_dec n) \<Longrightarrow> is_digit c"
proof (induction n rule: nat_dec.induct)
  case (1 n)
  then show ?case
    by (cases "n < 10") (auto simp: nat_dec.simps [of n] digit_char_is_digit)
qed

lemma nat_dec_nonempty [simp]: "nat_dec n \<noteq> []"
  by (subst nat_dec.simps) simp

lemma nat_dec_length: "n < 10 ^ k \<Longrightarrow> 0 < k \<Longrightarrow> length (nat_dec n) \<le> k"
proof (induction n arbitrary: k rule: nat_dec.induct)
  case (1 n)
  show ?case
  proof (cases "n < 10")
    case True
    with "1.prems" show ?thesis by (simp add: nat_dec.simps [of n])
  next
    case False
    with "1.prems" obtain j where "k = Suc j" by (cases k) auto
    with "1.prems" False have j: "k = Suc j" "0 < j" by (cases j; simp)+
    with "1.prems" have "n div 10 < 10 ^ j" by auto
    with "1.IH" False j(2) have "length (nat_dec (n div 10)) \<le> j" by blast
    with False j(1) show ?thesis by (simp add: nat_dec.simps [of n])
  qed
qed

lemma pad0_length: "length (pad0 w s) = max w (length s)"
  by (simp add: pad0_def)

lemma sprintf_d_length_32: "is_int32 x \<Longrightarrow> length (sprintf_d x) \<le> 11"
proof -
  assume x: "is_int32 x"
  then have "nat (- x) < 10 ^ 10" "nat x < 10 ^ 10" by (auto simp: is_int32_def)
  then have "length (nat_dec (nat (- x))) \<le> 10" "length (nat_dec (nat x)) \<le> 10"
    by (auto intro: nat_dec_length)
  then show ?thesis by (simp add: sprintf_d_def)
qed

lemma sprintf_d_length_64: "is_int64 x \<Longrightarrow> length (sprintf_d x) \<le> 20"
proof -
  assume x: "is_int64 x"
  then have "nat (- x) < 10 ^ 19" "nat x < 10 ^ 19" by (auto simp: is_int64_def)
  then have "length (nat_dec (nat (- x))) \<le> 19" "length (nat_dec (nat x)) \<le> 19"
    by (auto intro: nat_dec_length)
  then show ?thesis by (simp add: sprintf_d_def)
qed

lemma sprintf_d_no_NUL [simp]: "NUL \<notin> set (sprintf_d x)"
  by (auto simp: sprintf_d_def is_digit_def dest!: nat_dec_digits)

section \<open>Byte loops\<close>

text \<open>
  One turn of a parser loop either goes on with the next byte or leaves the loop with a
  result. \<open>run_steps\<close> returns the index where the loop stopped, the state and, when the loop
  was left, the result; running off the end of the buffer (\<open>NGX_AGAIN\<close>) gives \<open>None\<close>.
\<close>

datatype ('s, 'r) ctl = Next 's | Stop 'r 's

function run_steps ::
    "(string \<Rightarrow> nat \<Rightarrow> 's \<Rightarrow> ('s, 'r) ctl) \<Rightarrow> string \<Rightarrow> nat \<Rightarrow> 's \<Rightarrow> nat \<times> 's \<times> 'r option" where
  "run_steps step b p s =
     (if p < length b then
        (case step b p s of Next s' \<Rightarrow> run_steps step b (Suc p) s' | Stop r s' \<Rightarrow> (p, s', Some r))
      else (p, s, None))"
  by pat_completeness auto
termination
  by (relation "measure (\<lambda>(step, b, p, s). length b - p)") auto

declare run_steps.simps [simp del]

lemma run_steps_Next:
  "p < length b \<Longrightarrow> step b p s = Next s' \<Longrightarrow> run_steps step b p s = run_steps step b (Suc p) s'"
  by (subst run_steps.simps) simp

lemma run_steps_Stop:
  "p < length b \<Longrightarrow> step b p s = Stop r s' \<Longrightarrow> run_steps step b p s = (p, s', Some r)"
  by (subst run_steps.simps) simp

lemma run_steps_end: "length b \<le> p \<Longrightarrow> run_steps step b p s = (p, s, None)"
  by (subst run_steps.simps) simp

lemmas run_steps_intros = run_steps_Next run_steps_Stop run_steps_end

lemma run_steps_AGAIN_pos:
  "p \<le> length b \<Longrightarrow> run_steps step b p s = (q, s', None) \<Longrightarrow> q = length b"
proof (induction step b p s rule: run_steps.induct)
  case (1 step b p s)
  then show ?case
    by (cases "p < length b"; cases "step b p s") (auto simp: run_steps.simps [of step b p s])
qed

lemma run_steps_stop_pos:
  "run_steps step b p s = (q, s', Some r) \<Longrightarrow> p \<le> q \<and> q < length b"
proof (induction step b p s rule: run_steps.induct)
  case (1 step b p s)
  then show ?case
    by (cases "p < length b"; cases "step b p s")
       (auto simp: run_steps.simps [of step b p s] dest: Suc_leD)
qed

lemma run_steps_stop_step:
  "run_steps step b p s = (q, s', Some r) \<Longrightarrow> \<exists>s0. step b q s0 = Stop r s'"
proof (induction step b p s rule: run_steps.induct)
  case (1 step b p s)
  then show ?case
    by (cases "p < length b"; cases "step b p s") (auto simp: run_steps.simps [of step b p s])
qed

locale resumable =
  fixes step :: "string \<Rightarrow> nat \<Rightarrow> 's \<Rightarrow> ('s, 'r) ctl"
  assumes step_prefix: "p < length b \<Longrightarrow> step (b @ c) p s = step b p s"
begin

text \<open>Bytes that arrive later do not change what was done with the bytes before them.\<close>

lemma run_stop_stable:
  "run_steps step b p s = (q, s', Some r) \<Longrightarrow> run_steps step (b @ c) p s = (q, s', Some r)"
proof (induction "length b - p" arbitrary: p s)
  case 0
  then show ?case by (simp add: run_steps_end)
next
  case (Suc n)
  then have p: "p < length b" by simp
  then have prefix: "step (b @ c) p s = step b p s" by (rule step_prefix)
  show ?case
  proof (cases "step b p s")
    case (Next s1)
    with Suc p have "run_steps step (b @ c) (Suc p) s1 = (q, s', Some r)"
      by (intro Suc.hyps) (simp_all add: run_steps_Next)
    with Next prefix p show ?thesis by (simp add: run_steps_Next)
  next
    case (Stop r1 s1)
    with Suc.prems prefix p show ?thesis by (simp add: run_steps_Stop)
  qed
qed

lemma run_again_resume:
  "p \<le> length b \<Longrightarrow> run_steps step b p s = (q, s', None) \<Longrightarrow>
     run_steps step (b @ c) p s = run_steps step (b @ c) (length b) s'"
proof (induction "length b - p" arbitrary: p s)
  case 0
  then show ?case by (simp add: run_steps_end)
next
  case (Suc n)
  then have p: "p < length b" by simp
  then have prefix: "step (b @ c) p s = step b p s" by (rule step_prefix)
  show ?case
  proof (cases "step b p s")
    case (Next s1)
    with Suc p have "run_steps step (b @ c) (Suc p) s1 = run_steps step (b @ c) (length b) s'"
      by (intro Suc.hyps) (simp_all add: run_steps_Next)
    with Next prefix p show ?thesis by (simp add: run_steps_Next)
  next
    case (Stop r1 s1)
    with Suc.prems p show ?thesis by (simp add: run_steps_Stop)
  qed
qed

text \<open>The two facts together: the result does not depend on how the input was cut.\<close>

lemma run_split:
  assumes "p \<le> length b"
  shows "run_steps step (b @ c) p s =
    (case run_steps step b p s of
       (q, s', Some r) \<Rightarrow> (q, s', Some r)
     | (q, s', None) \<Rightarrow> run_steps step (b @ c) q s')"
proof (cases "run_steps step b p s")
  case (fields q s' res)
  show ?thesis
  proof (cases res)
    case None
    with fields assms have "q = length b" by (auto dest: run_steps_AGAIN_pos)
    with None fields run_again_resume [OF assms] show ?thesis by simp
  next
    case (Some r)
    with fields show ?thesis by (simp add: run_stop_stable)
  qed
qed

end

end
