(* ===== verification/Nla_Geo.thy ===== *)
theory Nla_Geo
  imports Complex_Main Nla_Prelude
begin

text \<open>
  The geometry of \<^verbatim>\<open>src/src/ngx_http_lookaround_map.c\<close> and the data types of
  \<^verbatim>\<open>ngx_http_lookaround_map.h\<close>: locations and rectangles in fixed point degrees
  (\<open>NLADeg\<close>, a 32 bit \<open>int\<close> holding millionths of a degree), the containment and
  intersection tests, the centre that splits a rectangle in four, the search rectangle of a
  radius, and the JSON text of an item. C's \<open>int\<close> is \<open>int\<close> with \<open>wrap32\<close> where the code adds.

  Floating point: every double operation is the exact real operation followed by the
  parameter \<open>rnd\<close> (rounding), and \<open>cos\<close> and \<open>hypot\<close> of libm are parameters; a cast to
  \<open>NLADeg\<close> that does not fit, and a division by a zero \<open>dr\<close> (an infinity or a NaN that is then
  cast), are the fault \<open>CastOverflow\<close>.

  The locale \<open>region\<close> is the contract of containment and intersection that the search in the
  quad tree relies on, and \<open>region_split\<close> adds the contract of the four way split; both are
  interpreted on the definitions below (\<open>rect\<close>, \<open>quad\<close>).
\<close>

section \<open>Data\<close>

record nla_2dloc =
  lat :: int
  lon :: int

record nla_rect =
  lt :: nla_2dloc
  rb :: nla_2dloc

record nla_data_item =
  ach_id :: string
  i_status :: int
  i_type :: int
  loc :: nla_2dloc
  last_update_time :: int

abbreviation (input) NLA_MAX_LON :: int where "NLA_MAX_LON \<equiv> 180000000"
abbreviation (input) NLA_MIN_LON :: int where "NLA_MIN_LON \<equiv> - 180000000"
abbreviation (input) NLA_MAX_LAT :: int where "NLA_MAX_LAT \<equiv> 90000000"
abbreviation (input) NLA_MIN_LAT :: int where "NLA_MIN_LAT \<equiv> - 90000000"
abbreviation (input) NLA_DEG_FIXPOINT_BASE :: int where "NLA_DEG_FIXPOINT_BASE \<equiv> 1000000"
abbreviation (input) NLA_DEG_MAX_BUF_LEN :: nat where "NLA_DEG_MAX_BUF_LEN \<equiv> 12"
abbreviation (input) NLA_DATA_ID_MAX_LEN :: nat where "NLA_DATA_ID_MAX_LEN \<equiv> 32"
abbreviation (input) NLA_DATA_JSON_LEN :: nat where "NLA_DATA_JSON_LEN \<equiv> 200"

abbreviation (input) NLA_MAP_CHILD_LT :: int where "NLA_MAP_CHILD_LT \<equiv> 0"
abbreviation (input) NLA_MAP_CHILD_RT :: int where "NLA_MAP_CHILD_RT \<equiv> 1"
abbreviation (input) NLA_MAP_CHILD_LB :: int where "NLA_MAP_CHILD_LB \<equiv> 2"
abbreviation (input) NLA_MAP_CHILD_RB :: int where "NLA_MAP_CHILD_RB \<equiv> 3"
abbreviation (input) NLA_MAP_CHILD_COUNT :: nat where "NLA_MAP_CHILD_COUNT \<equiv> 4"

section \<open>Operations\<close>

definition fn_loc_GetRCCenter :: "nla_rect \<Rightarrow> nla_2dloc" where
  "fn_loc_GetRCCenter pRC =
     \<lparr>lat = wrap32 (lat (lt pRC) + lat (rb pRC)) sdiv 2,
      lon = wrap32 (lon (lt pRC) + lon (rb pRC)) sdiv 2\<rparr>"

definition fn_b_IsLocInRC :: "nla_rect \<Rightarrow> nla_2dloc \<Rightarrow> bool" where
  "fn_b_IsLocInRC pRC pLoc \<longleftrightarrow>
     lat pLoc \<ge> lat (lt pRC) \<and> lat pLoc < lat (rb pRC) \<and>
     lon pLoc \<ge> lon (lt pRC) \<and> lon pLoc < lon (rb pRC)"

text \<open>\<open>FALSE\<close> is \<open>None\<close>; otherwise the rectangle written to \<open>*pNewRC\<close>.\<close>

definition fn_b_IntersectRc :: "nla_rect \<Rightarrow> nla_rect \<Rightarrow> nla_rect option" where
  "fn_b_IntersectRc pRC1 pRC2 =
     (if lat (lt pRC1) \<ge> lat (rb pRC2) \<or> lat (rb pRC1) \<le> lat (lt pRC2)
         \<or> lon (rb pRC1) \<le> lon (lt pRC2) \<or> lon (lt pRC1) \<ge> lon (rb pRC2)
      then None
      else Some
        \<lparr>lt = \<lparr>lat = (if lat (lt pRC1) > lat (lt pRC2) then lat (lt pRC1) else lat (lt pRC2)),
               lon = (if lon (lt pRC1) > lon (lt pRC2) then lon (lt pRC1) else lon (lt pRC2))\<rparr>,
         rb = \<lparr>lat = (if lat (rb pRC1) < lat (rb pRC2) then lat (rb pRC1) else lat (rb pRC2)),
               lon = (if lon (rb pRC1) < lon (rb pRC2) then lon (rb pRC1) else lon (rb pRC2))\<rparr>\<rparr>)"

definition fn_v_InitRootRect :: nla_rect where
  "fn_v_InitRootRect =
     \<lparr>lt = \<lparr>lat = NLA_MIN_LAT, lon = NLA_MIN_LON\<rparr>, rb = \<lparr>lat = NLA_MAX_LAT, lon = NLA_MAX_LON\<rparr>\<rparr>"

definition fn_i_GetChildRcIdx :: "nla_rect \<Rightarrow> nla_2dloc \<Rightarrow> int" where
  "fn_i_GetChildRcIdx pRC pLoc =
     (if \<not> fn_b_IsLocInRC pRC pLoc then - 1
      else let center_loc = fn_loc_GetRCCenter pRC in
        if lat pLoc \<ge> lat center_loc then
          (if lon pLoc \<ge> lon center_loc then NLA_MAP_CHILD_RB else NLA_MAP_CHILD_LB)
        else
          (if lon pLoc \<ge> lon center_loc then NLA_MAP_CHILD_RT else NLA_MAP_CHILD_LT))"

definition fn_v_FormatDeg :: "int \<Rightarrow> string" where
  "fn_v_FormatDeg deg =
     sprintf_d (deg sdiv NLA_DEG_FIXPOINT_BASE) @ ''.'' @ sprintf_06d (deg smod NLA_DEG_FIXPOINT_BASE)"

text \<open>
  The two local arrays hold \<open>NLA_DEG_MAX_BUF_LEN\<close> bytes, the terminating NUL included.
\<close>

definition fn_v_FormatDataItem :: "nla_data_item \<Rightarrow> string c_result" where
  "fn_v_FormatDataItem pData =
     (let achBufLat = fn_v_FormatDeg (lat (loc pData)); achBufLon = fn_v_FormatDeg (lon (loc pData)) in
      if length achBufLat + 1 > NLA_DEG_MAX_BUF_LEN \<or> length achBufLon + 1 > NLA_DEG_MAX_BUF_LEN
      then Inl BufferOverflow
      else Inr (''{\"id\":\"'' @ c_str (ach_id pData) @ ''\",\"status\":\"'' @ sprintf_d (i_status pData)
        @ ''\",\"type\":\"'' @ sprintf_d (i_type pData) @ ''\",\"lat\":\"'' @ achBufLat
        @ ''\",\"lon\":\"'' @ achBufLon @ ''\",\"uptime\":\"'' @ sprintf_d (last_update_time pData)
        @ ''\"}''))"

definition fn_x_LimitAdd :: "int \<Rightarrow> int \<Rightarrow> int \<Rightarrow> int \<Rightarrow> int" where
  "fn_x_LimitAdd deg dadd dmax dmin =
     (let dNew = wrap32 (deg + dadd) in
      if dNew > dmax then dmax else if dNew < dmin then dmin else dNew)"

definition c_trunc :: "real \<Rightarrow> int" where
  "c_trunc x = (if x < 0 then \<lceil>x\<rceil> else \<lfloor>x\<rfloor>)"

definition c_double_to_int :: "real \<Rightarrow> int c_result" where
  "c_double_to_int x = (if is_int32 (c_trunc x) then Inr (c_trunc x) else Inl CastOverflow)"

definition NLA_PI :: real where "NLA_PI = 3.1415926535897932384626433832795"
definition NLA_EARTH_RADIUS :: real where "NLA_EARTH_RADIUS = 6371.229"

definition fn_d_GetDistance ::
    "(real \<Rightarrow> real) \<Rightarrow> (real \<Rightarrow> real) \<Rightarrow> (real \<Rightarrow> real \<Rightarrow> real) \<Rightarrow> nla_2dloc \<Rightarrow> nla_2dloc \<Rightarrow> real" where
  "fn_d_GetDistance rnd c_cos c_hypot pLoc1 pLoc2 =
     (let lat_sum = rnd (real_of_int (wrap32 (lat pLoc1 + lat pLoc2)) / 1000000);
          dlon = rnd (real_of_int (wrap32 (lon pLoc2 - lon pLoc1)) / 1000000);
          dlat = rnd (real_of_int (wrap32 (lat pLoc2 - lat pLoc1)) / 1000000);
          angle = rnd (rnd (rnd (lat_sum / 2) * rnd NLA_PI) / 180);
          x = rnd (rnd (rnd (rnd (dlon * rnd NLA_PI) * rnd NLA_EARTH_RADIUS) * c_cos angle) / 180);
          y = rnd (rnd (rnd (dlat * rnd NLA_PI) * rnd NLA_EARTH_RADIUS) / 180)
      in c_hypot x y)"

definition fn_v_GetRectFromLocRadius ::
    "(real \<Rightarrow> real) \<Rightarrow> (real \<Rightarrow> real) \<Rightarrow> nla_2dloc \<Rightarrow> real \<Rightarrow> nla_rect c_result" where
  "fn_v_GetRectFromLocRadius rnd c_cos pLoc dRadius =
     bindr (c_double_to_int (rnd (8993 * dRadius))) (\<lambda>lat_off.
       let lt_lat = fn_x_LimitAdd (lat pLoc) (wrap32 (- lat_off)) NLA_MAX_LAT NLA_MIN_LAT;
           rb_lat = fn_x_LimitAdd (lat pLoc) lat_off NLA_MAX_LAT NLA_MIN_LAT;
           dr = rnd (rnd NLA_EARTH_RADIUS * c_cos (rnd (real_of_int (lat pLoc) / 1000000)));
           drmax = rnd (dr * rnd NLA_PI);
           dRadius' = (if drmax \<le> dRadius then drmax else dRadius)
       in if dr = 0 then Inl CastOverflow
          else bindr (c_double_to_int (rnd (rnd (rnd (rnd (dRadius' / dr) * 1000000) * 180) / rnd NLA_PI)))
            (\<lambda>lon_off.
               Inr \<lparr>lt = \<lparr>lat = lt_lat,
                      lon = fn_x_LimitAdd (lon pLoc) (wrap32 (- lon_off)) NLA_MAX_LON NLA_MIN_LON\<rparr>,
                    rb = \<lparr>lat = rb_lat,
                      lon = fn_x_LimitAdd (lon pLoc) lon_off NLA_MAX_LON NLA_MIN_LON\<rparr>\<rparr>))"


section \<open>Rectangles inside the root rectangle\<close>

definition rect_ok :: "nla_rect \<Rightarrow> bool" where
  "rect_ok r \<longleftrightarrow>
     NLA_MIN_LAT \<le> lat (lt r) \<and> lat (lt r) \<le> lat (rb r) \<and> lat (rb r) \<le> NLA_MAX_LAT \<and>
     NLA_MIN_LON \<le> lon (lt r) \<and> lon (lt r) \<le> lon (rb r) \<and> lon (rb r) \<le> NLA_MAX_LON"

lemma rect_ok_root [simp]: "rect_ok fn_v_InitRootRect"
  by (simp add: rect_ok_def fn_v_InitRootRect_def)

text \<open>No addition of \<open>fn_loc_GetRCCenter\<close> overflows on such a rectangle.\<close>

lemma center_exact:
  assumes "rect_ok r"
  shows "lat (fn_loc_GetRCCenter r) = (lat (lt r) + lat (rb r)) sdiv 2"
    and "lon (fn_loc_GetRCCenter r) = (lon (lt r) + lon (rb r)) sdiv 2"
  using assms
  by (simp_all add: fn_loc_GetRCCenter_def rect_ok_def c_arith is_int32_def)

lemma center_between:
  assumes "rect_ok r"
  shows "lat (lt r) \<le> lat (fn_loc_GetRCCenter r)" "lat (fn_loc_GetRCCenter r) \<le> lat (rb r)"
    and "lon (lt r) \<le> lon (fn_loc_GetRCCenter r)" "lon (fn_loc_GetRCCenter r) \<le> lon (rb r)"
  using assms sdiv2_between [of "lat (lt r)" "lat (rb r)"] sdiv2_between [of "lon (lt r)" "lon (rb r)"]
  by (simp_all add: center_exact rect_ok_def)

section \<open>Contracts of the search\<close>

locale region =
  fixes contains :: "'r \<Rightarrow> 'p \<Rightarrow> bool"
    and intersect :: "'r \<Rightarrow> 'r \<Rightarrow> 'r option"
  assumes intersect_Some: "intersect a b = Some c \<Longrightarrow> contains c p \<longleftrightarrow> contains a p \<and> contains b p"
    and intersect_None: "intersect a b = None \<Longrightarrow> \<not> (contains a p \<and> contains b p)"
begin

text \<open>Narrowing a query to a node's own region loses none of the points stored below the node.\<close>

lemma filter_narrow:
  assumes "intersect a q = Some c" and "\<forall>x \<in> set xs. contains a (pos x)"
  shows "filter (\<lambda>x. P x \<and> contains c (pos x)) xs = filter (\<lambda>x. P x \<and> contains q (pos x)) xs"
  using assms by (auto intro!: filter_cong simp: intersect_Some)

lemma filter_pruned:
  assumes "intersect a q = None" and "\<forall>x \<in> set xs. contains a (pos x)"
  shows "filter (\<lambda>x. P x \<and> contains q (pos x)) xs = []"
  using assms intersect_None by (auto simp: filter_empty_conv)

end

locale region_split = region contains intersect
  for contains :: "'r \<Rightarrow> 'p \<Rightarrow> bool" and intersect :: "'r \<Rightarrow> 'r \<Rightarrow> 'r option" +
  fixes ok :: "'r \<Rightarrow> bool"
    and parts :: nat
    and part :: "'r \<Rightarrow> nat \<Rightarrow> 'r"
    and index :: "'r \<Rightarrow> 'p \<Rightarrow> int"
  assumes part_ok: "ok r \<Longrightarrow> i < parts \<Longrightarrow> ok (part r i)"
    and index_outside: "\<not> contains r p \<Longrightarrow> index r p < 0"
    and index_inside: "ok r \<Longrightarrow> contains r p \<Longrightarrow> 0 \<le> index r p \<and> index r p < int parts"
    and part_index: "ok r \<Longrightarrow> i < parts \<Longrightarrow>
      contains (part r i) p \<longleftrightarrow> contains r p \<and> index r p = int i"
begin

text \<open>The parts cover the region and do not overlap.\<close>

lemma parts_partition:
  assumes "ok r" and "contains r p"
  shows "\<exists>!i. i < parts \<and> contains (part r i) p"
proof (rule ex1I [of _ "nat (index r p)"])
  from index_inside [OF assms] show "nat (index r p) < parts \<and> contains (part r (nat (index r p))) p"
    using part_index [OF assms(1)] assms(2) by auto
next
  fix i assume "i < parts \<and> contains (part r i) p"
  then show "i = nat (index r p)" using part_index [OF assms(1)] by auto
qed

lemma part_subset: "ok r \<Longrightarrow> i < parts \<Longrightarrow> contains (part r i) p \<Longrightarrow> contains r p"
  by (simp add: part_index)

end

text \<open>
  The rectangle that \<open>ngx_http_lookaround_create_child_mapnode\<close> gives to child \<open>i\<close>, one case
  of its \<open>switch\<close> per equation.
\<close>

definition child_rc :: "nla_rect \<Rightarrow> nat \<Rightarrow> nla_rect" where
  "child_rc r i =
     (let center_loc = fn_loc_GetRCCenter r in
      if int i = NLA_MAP_CHILD_LT then \<lparr>lt = lt r, rb = center_loc\<rparr>
      else if int i = NLA_MAP_CHILD_RT then
        \<lparr>lt = \<lparr>lat = lat (lt r), lon = lon center_loc\<rparr>,
         rb = \<lparr>lat = lat center_loc, lon = lon (rb r)\<rparr>\<rparr>
      else if int i = NLA_MAP_CHILD_LB then
        \<lparr>lt = \<lparr>lat = lat center_loc, lon = lon (lt r)\<rparr>,
         rb = \<lparr>lat = lat (rb r), lon = lon center_loc\<rparr>\<rparr>
      else \<lparr>lt = center_loc, rb = rb r\<rparr>)"

lemma child_rc_ok: "rect_ok r \<Longrightarrow> rect_ok (child_rc r i)"
  using center_between [of r]
  by (auto simp: child_rc_def rect_ok_def Let_def)

lemma child_rc_contains:
  assumes "rect_ok r" "i < NLA_MAP_CHILD_COUNT"
  shows "fn_b_IsLocInRC (child_rc r i) p \<longleftrightarrow> fn_b_IsLocInRC r p \<and> fn_i_GetChildRcIdx r p = int i"
proof -
  from assms(2) consider "i = 0" | "i = 1" | "i = 2" | "i = 3" by linarith
  then show ?thesis
    using center_between [OF assms(1)]
    by cases (auto simp: child_rc_def fn_b_IsLocInRC_def fn_i_GetChildRcIdx_def Let_def)
qed

interpretation rect: region fn_b_IsLocInRC fn_b_IntersectRc
  by unfold_locales (auto simp: fn_b_IsLocInRC_def fn_b_IntersectRc_def split: if_splits)

interpretation quad: region_split fn_b_IsLocInRC fn_b_IntersectRc
  rect_ok NLA_MAP_CHILD_COUNT child_rc fn_i_GetChildRcIdx
proof unfold_locales
  show "fn_i_GetChildRcIdx r p < 0" if "\<not> fn_b_IsLocInRC r p" for r p
    using that by (simp add: fn_i_GetChildRcIdx_def)
  show "0 \<le> fn_i_GetChildRcIdx r p \<and> fn_i_GetChildRcIdx r p < int NLA_MAP_CHILD_COUNT"
    if "rect_ok r" "fn_b_IsLocInRC r p" for r p
    using that by (simp add: fn_i_GetChildRcIdx_def Let_def)
qed (simp_all add: child_rc_ok child_rc_contains)


section \<open>Text of coordinates and items\<close>

lemma FormatDeg_nonneg:
  assumes "0 \<le> d"
  shows "fn_v_FormatDeg d =
    nat_dec (nat (d div 1000000)) @ ''.'' @ pad0 6 (nat_dec (nat (d mod 1000000)))"
proof -
  from assms have "d sdiv 1000000 = d div 1000000" "d smod 1000000 = d mod 1000000"
    by (simp_all add: signed_divide_int_def signed_modulo_int_def sgn_if minus_div_mult_eq_mod)
  moreover have "(d mod 1000000 < 0) = False" "(d div 1000000 < 0) = False"
    using assms by (simp_all add: not_less)
  ultimately show ?thesis
    by (simp only: fn_v_FormatDeg_def sprintf_d_def sprintf_06d_def if_False)
qed

lemma FormatDeg_length_nonneg:
  assumes "0 \<le> d" "is_int32 d"
  shows "length (fn_v_FormatDeg d) < NLA_DEG_MAX_BUF_LEN"
proof -
  have "nat (d mod 1000000) < 10 ^ 6" by (simp add: nat_less_iff)
  then have l1: "length (nat_dec (nat (d mod 1000000))) \<le> 6" by (rule nat_dec_length) simp
  have "nat (d div 1000000) < 10 ^ 4" using assms by (simp add: is_int32_def nat_less_iff)
  then have l2: "length (nat_dec (nat (d div 1000000))) \<le> 4" by (rule nat_dec_length) simp
  from l1 l2 show ?thesis by (simp add: FormatDeg_nonneg [OF assms(1)] pad0_length)
qed

lemma FormatDeg_length_neg:
  assumes "- 100000000 < d" "d < 0"
  shows "length (fn_v_FormatDeg d) < NLA_DEG_MAX_BUF_LEN"
proof -
  define q where "q = (- d) div 1000000"
  define m where "m = (- d) mod 1000000"
  have qm: "d sdiv 1000000 = - q" "d smod 1000000 = - m"
    using assms unfolding q_def m_def
    by (simp_all add: signed_divide_int_def signed_modulo_int_def sgn_if minus_mult_div_eq_mod)
  have q: "0 \<le> q" "q < 100" and m: "0 \<le> m" "m < 1000000"
    using assms by (auto simp: q_def m_def pos_imp_zdiv_nonneg_iff)
  have "nat m < 10 ^ 6" "nat q < 10 ^ 2" using q m by (auto simp: nat_less_iff)
  then have "length (nat_dec (nat m)) \<le> 6" "length (nat_dec (nat q)) \<le> 2"
    by (auto intro: nat_dec_length)
  moreover have "length (nat_dec 0) = 1" by (simp add: nat_dec.simps)
  ultimately show ?thesis using q m
    by (auto simp: fn_v_FormatDeg_def qm sprintf_d_def sprintf_06d_def pad0_length max_def)
qed

lemma FormatDataItem_length:
  assumes "fn_v_FormatDataItem it = Inr s" and "length (ach_id it) < NLA_DATA_ID_MAX_LEN"
    and "is_int32 (i_status it)" "is_int32 (i_type it)" "is_int64 (last_update_time it)"
  shows "length s \<le> 156"
proof -
  from assms(1) have l: "length (fn_v_FormatDeg (lat (loc it))) \<le> 11"
      "length (fn_v_FormatDeg (lon (loc it))) \<le> 11"
    and s: "length s = 61 + length (c_str (ach_id it)) + length (sprintf_d (i_status it))
      + length (sprintf_d (i_type it)) + length (fn_v_FormatDeg (lat (loc it)))
      + length (fn_v_FormatDeg (lon (loc it))) + length (sprintf_d (last_update_time it))"
    by (auto simp: fn_v_FormatDataItem_def Let_def split: if_splits)
  show ?thesis
    using l s assms(2) c_str_length [of "ach_id it"] sprintf_d_length_32 [OF assms(3)]
      sprintf_d_length_32 [OF assms(4)] sprintf_d_length_64 [OF assms(5)]
    by linarith
qed

section \<open>The search rectangle\<close>

lemma LimitAdd_range: "dmin \<le> dmax \<Longrightarrow> dmin \<le> fn_x_LimitAdd d a dmax dmin \<and> fn_x_LimitAdd d a dmax dmin \<le> dmax"
  by (auto simp: fn_x_LimitAdd_def Let_def)

lemma LimitAdd_exact:
  "is_int32 (d + a) \<Longrightarrow> dmin \<le> dmax \<Longrightarrow> fn_x_LimitAdd d a dmax dmin = max dmin (min dmax (d + a))"
  by (auto simp: fn_x_LimitAdd_def Let_def wrap32_id)

text \<open>
  What is used of double rounding: it is monotone, exact on integers below $2^{53}$, and has
  a relative error of at most $2^{-52}$ (exponent limits are left out).
\<close>

definition ieee_double :: "(real \<Rightarrow> real) \<Rightarrow> bool" where
  "ieee_double rnd \<longleftrightarrow> mono rnd \<and> (\<forall>n::int. \<bar>n\<bar> \<le> 2 ^ 53 \<longrightarrow> rnd (of_int n) = of_int n)
     \<and> (\<forall>x. \<bar>rnd x - x\<bar> \<le> \<bar>x\<bar> / 2 ^ 52)"

lemma ieee_double_id: "ieee_double (\<lambda>x. x)"
  by (simp add: ieee_double_def mono_def)

lemma ieee_double_mono: "ieee_double rnd \<Longrightarrow> x \<le> y \<Longrightarrow> rnd x \<le> rnd y"
  by (simp add: ieee_double_def mono_def)

lemma ieee_double_int: "ieee_double rnd \<Longrightarrow> \<bar>n\<bar> \<le> 2 ^ 53 \<Longrightarrow> rnd (of_int n) = of_int n"
  by (simp add: ieee_double_def)

lemma ieee_double_0: "ieee_double rnd \<Longrightarrow> rnd 0 = 0"
  using ieee_double_int [of rnd 0] by simp

lemma ieee_double_nonneg: "ieee_double rnd \<Longrightarrow> 0 \<le> x \<Longrightarrow> 0 \<le> rnd x"
  using ieee_double_mono [of rnd 0 x] by (simp add: ieee_double_0)

lemma ieee_double_le_num:
  assumes "ieee_double rnd" "x \<le> numeral n" "(numeral n :: int) \<le> 2 ^ 53"
  shows "rnd x \<le> numeral n"
proof -
  have "rnd (of_int (numeral n)) = of_int (numeral n)"
    by (rule ieee_double_int) (use assms in simp_all)
  with ieee_double_mono [OF assms(1,2)] show ?thesis by simp
qed

lemma ieee_double_rel: "ieee_double rnd \<Longrightarrow> \<bar>rnd x\<bar> \<le> \<bar>x\<bar> * 1.0000001"
proof -
  assume "ieee_double rnd"
  then have "\<bar>rnd x - x\<bar> \<le> \<bar>x\<bar> / 2 ^ 52" by (simp add: ieee_double_def)
  also have "\<dots> \<le> \<bar>x\<bar> * 0.0000001" by (simp add: field_simps)
  finally have "\<bar>rnd x\<bar> \<le> \<bar>x\<bar> + \<bar>x\<bar> * 0.0000001" by linarith
  then show ?thesis by (simp add: algebra_simps)
qed

lemma c_double_to_int_nonneg:
  "c_double_to_int x = Inr n \<Longrightarrow> 0 \<le> x \<Longrightarrow> 0 \<le> n \<and> real_of_int n \<le> x"
  by (auto simp: c_double_to_int_def c_trunc_def split: if_splits)


text \<open>
  Neither offset overflows the additions of \<open>fn_x_LimitAdd\<close>: the latitude offset because the
  radius is bounded, the longitude offset because the radius is cut at half a circle.
\<close>

lemma lat_off_bounds:
  assumes "ieee_double rnd" "0 \<le> R" "R \<le> 200000" "c_double_to_int (rnd (8993 * R)) = Inr n"
  shows "0 \<le> n \<and> n \<le> 1798600000"
proof -
  have "0 \<le> rnd (8993 * R)" using assms by (simp add: ieee_double_nonneg)
  with assms(4) have n: "0 \<le> n" "real_of_int n \<le> rnd (8993 * R)"
    by (auto dest: c_double_to_int_nonneg)
  have "rnd (8993 * R) \<le> 1798600000"
    by (rule ieee_double_le_num [OF assms(1)]) (use assms(3) in simp_all)
  with n show ?thesis by linarith
qed

lemma lon_ratio_bounds:
  assumes "ieee_double rnd" "0 \<le> R" "dr \<noteq> 0"
    and "R' = (if rnd (dr * rnd NLA_PI) \<le> R then rnd (dr * rnd NLA_PI) else R)"
  shows "0 \<le> R' / dr \<and> R' / dr \<le> 4"
proof -
  define m where "m = rnd (dr * rnd NLA_PI)"
  have "0 < NLA_PI" "NLA_PI \<le> 3.2" by (simp_all add: NLA_PI_def)
  with ieee_double_rel [OF assms(1), of NLA_PI] ieee_double_nonneg [OF assms(1), of NLA_PI]
  have pi: "0 \<le> rnd NLA_PI" "rnd NLA_PI \<le> 3.3" by auto
  have m4: "\<bar>m\<bar> \<le> 4 * \<bar>dr\<bar>"
  proof -
    have "\<bar>m\<bar> \<le> \<bar>dr * rnd NLA_PI\<bar> * 1.0000001" unfolding m_def by (rule ieee_double_rel [OF assms(1)])
    also have "\<dots> = \<bar>dr\<bar> * (rnd NLA_PI * 1.0000001)" using pi by (simp add: abs_mult)
    also have "\<dots> \<le> \<bar>dr\<bar> * 4" using pi by (intro mult_left_mono) auto
    finally show ?thesis by simp
  qed
  show ?thesis
  proof (cases "0 < dr")
    case True
    then have "0 \<le> m" unfolding m_def using pi by (intro ieee_double_nonneg [OF assms(1)]) simp
    with True m4 have "0 \<le> R'" "R' \<le> 4 * dr" using assms(2,4) unfolding m_def by (auto split: if_splits)
    with True show ?thesis by (simp add: field_simps)
  next
    case False
    with assms(3) have neg: "dr < 0" by simp
    then have "m \<le> rnd 0" unfolding m_def using pi
      by (intro ieee_double_mono [OF assms(1)]) (simp add: mult_nonpos_nonneg)
    then have "m \<le> 0" by (simp add: ieee_double_0 [OF assms(1)])
    with assms(2,4) have "R' = m" unfolding m_def by auto
    with m4 neg \<open>m \<le> 0\<close> show ?thesis by (simp add: field_simps)
  qed
qed

lemma lon_off_bounds:
  assumes "ieee_double rnd" "0 \<le> q" "q \<le> 4"
    and "c_double_to_int (rnd (rnd (rnd (rnd q * 1000000) * 180) / rnd NLA_PI)) = Inr n"
  shows "0 \<le> n \<and> n \<le> 240000000"
proof -
  note up = ieee_double_le_num [OF assms(1)] and lo = ieee_double_nonneg [OF assms(1)]
  have q: "0 \<le> rnd q" "rnd q \<le> 4" using lo [OF assms(2)] up [OF assms(3)] by simp_all
  then have a: "0 \<le> rnd (rnd q * 1000000)" "rnd (rnd q * 1000000) \<le> 4000000"
    by (auto intro!: lo up)
  then have b: "0 \<le> rnd (rnd (rnd q * 1000000) * 180)"
      "rnd (rnd (rnd q * 1000000) * 180) \<le> 720000000"
    by (auto intro!: lo up)
  have "rnd (of_int 3) \<le> rnd NLA_PI" by (rule ieee_double_mono [OF assms(1)]) (simp add: NLA_PI_def)
  then have pi: "3 \<le> rnd NLA_PI" using ieee_double_int [OF assms(1), of 3] by simp
  define x where "x = rnd (rnd (rnd q * 1000000) * 180) / rnd NLA_PI"
  have "x \<le> 720000000 / 3" unfolding x_def using b pi by (intro frac_le) simp_all
  then have "x \<le> 240000000" by simp
  then have "rnd x \<le> 240000000" by (rule up) simp
  moreover have "0 \<le> x" unfolding x_def using b pi by simp
  then have "0 \<le> rnd x" by (rule lo)
  ultimately show ?thesis using assms(4) unfolding x_def by (auto dest!: c_double_to_int_nonneg)
qed

lemma LimitAdd_brackets:
  assumes "dmin \<le> d" "d \<le> dmax" "0 \<le> a" "a \<le> 1800000000"
    and "- 200000000 \<le> dmin" "dmax \<le> 200000000"
  shows "fn_x_LimitAdd d (wrap32 (- a)) dmax dmin \<le> d \<and> d \<le> fn_x_LimitAdd d a dmax dmin"
proof -
  have "wrap32 (- a) = - a" using assms by (simp add: wrap32_id is_int32_def)
  moreover have "is_int32 (d - a)" "is_int32 (d + a)" using assms by (simp_all add: is_int32_def)
  ultimately show ?thesis using assms by (simp add: LimitAdd_exact)
qed

definition in_world :: "nla_2dloc \<Rightarrow> bool" where
  "in_world p \<longleftrightarrow> NLA_MIN_LAT \<le> lat p \<and> lat p \<le> NLA_MAX_LAT \<and> NLA_MIN_LON \<le> lon p \<and> lon p \<le> NLA_MAX_LON"

lemma GetRect_around:
  assumes "ieee_double rnd" "in_world p" "0 \<le> R" "R \<le> 200000"
    and "fn_v_GetRectFromLocRadius rnd c_cos p R = Inr rc"
  shows "rect_ok rc \<and> lat (lt rc) \<le> lat p \<and> lat p \<le> lat (rb rc)
    \<and> lon (lt rc) \<le> lon p \<and> lon p \<le> lon (rb rc)"
proof -
  define dr where "dr = rnd (rnd NLA_EARTH_RADIUS * c_cos (rnd (real_of_int (lat p) / 1000000)))"
  define R' where "R' = (if rnd (dr * rnd NLA_PI) \<le> R then rnd (dr * rnd NLA_PI) else R)"
  from assms(5) obtain a o' where a: "c_double_to_int (rnd (8993 * R)) = Inr a" and dr: "dr \<noteq> 0"
    and o': "c_double_to_int (rnd (rnd (rnd (rnd (R' / dr) * 1000000) * 180) / rnd NLA_PI)) = Inr o'"
    and rc: "rc = \<lparr>lt = \<lparr>lat = fn_x_LimitAdd (lat p) (wrap32 (- a)) NLA_MAX_LAT NLA_MIN_LAT,
                      lon = fn_x_LimitAdd (lon p) (wrap32 (- o')) NLA_MAX_LON NLA_MIN_LON\<rparr>,
                    rb = \<lparr>lat = fn_x_LimitAdd (lat p) a NLA_MAX_LAT NLA_MIN_LAT,
                      lon = fn_x_LimitAdd (lon p) o' NLA_MAX_LON NLA_MIN_LON\<rparr>\<rparr>"
    unfolding dr_def R'_def
    by (auto simp: fn_v_GetRectFromLocRadius_def bindr_Inr_iff Let_def split: if_splits)
  from lat_off_bounds [OF assms(1,3,4) a] have A: "0 \<le> a" "a \<le> 1800000000" by auto
  from lon_ratio_bounds [OF assms(1,3) dr R'_def] have "0 \<le> R' / dr" "R' / dr \<le> 4" by auto
  from lon_off_bounds [OF assms(1) this o'] have O: "0 \<le> o'" "o' \<le> 1800000000" by auto
  have p: "NLA_MIN_LAT \<le> lat p" "lat p \<le> NLA_MAX_LAT" "NLA_MIN_LON \<le> lon p" "lon p \<le> NLA_MAX_LON"
    using assms(2) by (simp_all add: in_world_def)
  note rng = LimitAdd_range [of NLA_MIN_LAT NLA_MAX_LAT] LimitAdd_range [of NLA_MIN_LON NLA_MAX_LON]
  show ?thesis
    using LimitAdd_brackets [OF p(1,2) A] LimitAdd_brackets [OF p(3,4) O] rng
    by (auto simp: rc rect_ok_def intro: order_trans)
qed


text \<open>
  The argument of \<open>cos\<close> is the latitude in degrees, not in radians. Two degrees north of the
  equator the cosine of 2 (radians) is negative, so the radius is cut to a negative half circle
  and the longitude window is the whole world, whatever the radius.
\<close>

lemma GetRect_at_two_degrees:
  assumes "lat p = 2000000" "0 \<le> R" "R \<le> 200000"
  shows "\<exists>rc. fn_v_GetRectFromLocRadius (\<lambda>x. x) cos p R = Inr rc \<and>
    lon (lt rc) = fn_x_LimitAdd (lon p) (- 180000000) NLA_MAX_LON NLA_MIN_LON \<and>
    lon (rb rc) = fn_x_LimitAdd (lon p) 180000000 NLA_MAX_LON NLA_MIN_LON"
proof -
  define dr where "dr = NLA_EARTH_RADIUS * cos 2"
  have dr: "dr < 0" unfolding dr_def NLA_EARTH_RADIUS_def
    using cos_two_less_zero by (intro mult_pos_neg) auto
  have pi: "0 < NLA_PI" by (simp add: NLA_PI_def)
  have cut: "dr * NLA_PI \<le> R" using dr pi assms(2) by (smt (verit) mult_neg_pos)
  have off: "dr * NLA_PI / dr * 1000000 * 180 / NLA_PI = 180000000" using dr pi by simp
  have c1: "c_double_to_int 180000000 = Inr 180000000"
    by (simp add: c_double_to_int_def c_trunc_def is_int32_def)
  have "\<lfloor>8993 * R\<rfloor> \<le> 1798600000" using assms(3) by linarith
  moreover have "0 \<le> \<lfloor>8993 * R\<rfloor>" using assms(2) by simp
  ultimately have c2: "c_double_to_int (8993 * R) = Inr \<lfloor>8993 * R\<rfloor>"
    using assms(2) by (simp add: c_double_to_int_def c_trunc_def is_int32_def)
  have w: "wrap32 (- 180000000) = - 180000000" by (simp add: wrap32_def)
  show ?thesis
    using dr cut pi by (simp add: fn_v_GetRectFromLocRadius_def Let_def assms(1) c2 c1 off w flip: dr_def)
qed

section \<open>Properties\<close>

text \<open>
  C27. The four child rectangles partition their parent: \<open>fn_i_GetChildRcIdx\<close> returns the one
  child whose rectangle contains the location, and -1 exactly outside the parent.
\<close>

theorem child_rects_partition:
  assumes "rect_ok r"
  shows "if fn_b_IsLocInRC r p
    then (\<exists>!i. i < NLA_MAP_CHILD_COUNT \<and> fn_b_IsLocInRC (child_rc r i) p) \<and>
      fn_b_IsLocInRC (child_rc r (nat (fn_i_GetChildRcIdx r p))) p
    else fn_i_GetChildRcIdx r p = - 1 \<and> (\<forall>i < NLA_MAP_CHILD_COUNT. \<not> fn_b_IsLocInRC (child_rc r i) p)"
proof (cases "fn_b_IsLocInRC r p")
  case True
  from quad.parts_partition [OF assms True] quad.index_inside [OF assms True] True show ?thesis
    using child_rc_contains [OF assms, of "nat (fn_i_GetChildRcIdx r p)" p] by auto
next
  case False
  then show ?thesis using quad.part_subset [OF assms] by (auto simp: fn_i_GetChildRcIdx_def)
qed

theorem child_rects_partition_witness:
  "fn_i_GetChildRcIdx fn_v_InitRootRect \<lparr>lat = 39904200, lon = 116407400\<rparr> = NLA_MAP_CHILD_RB \<and>
   fn_b_IsLocInRC (child_rc fn_v_InitRootRect 3) \<lparr>lat = 39904200, lon = 116407400\<rparr>"
  using child_rects_partition [OF rect_ok_root, of "\<lparr>lat = 39904200, lon = 116407400\<rparr>"]
  by (simp add: fn_i_GetChildRcIdx_def fn_b_IsLocInRC_def fn_v_InitRootRect_def fn_loc_GetRCCenter_def
      wrap32_def signed_divide_int_def)

end
