(* ===== verification/Nla_Strmap.thy ===== *)
theory Nla_Strmap
  imports Nla_Prelude
begin

text \<open>
  The string hash table of \<^verbatim>\<open>src/src/ngx_http_lookaround_strmap.c\<close>, which maps the id of
  an item to its node. \<open>Pair\<close>, \<open>Bucket\<close> and \<open>StrMap\<close> are the C structs; an array and its count
  are kept apart, as in C, and \<open>strmap_wf\<close> says that they agree.

  A value pointer is of a type \<open>'v\<close>, \<open>None\<close> being \<open>NULL\<close>: \<open>sm_put_ptrvalue\<close> and
  \<open>sm_get_ptrvalue\<close> store any pointer, while \<open>sm_put\<close> and \<open>sm_get\<close> store character buffers
  (\<open>char_buf\<close>: the string and the number of bytes allocated for it).

  Memory comes from the shared memory allocator MM, which is not part of the repository: the
  argument \<open>mm\<close> gives, for the number of the call and the size asked for, the address of the
  block or \<open>None\<close> when memory is exhausted. The operations thread the number of calls made.
  What is used of MM is \<open>mm_contract\<close>: blocks handed out by different calls are different, and
  no block is larger than the segment (\<open>MM_BUF_SIZE\<close>, 16 MB).

  The locale \<open>finite_store\<close> is the contract the handlers rely on (what a lookup returns after
  an insertion); it is interpreted on \<open>sm_get_ptrvalue\<close> and \<open>sm_put_ptrvalue\<close>.
\<close>

type_synonym addr = nat
type_synonym ptr = "addr option"
type_synonym mm_oracle = "nat \<Rightarrow> nat \<Rightarrow> addr option"

abbreviation (input) MM_BUF_SIZE :: nat where "MM_BUF_SIZE \<equiv> 16777216"

definition mm_contract :: "mm_oracle \<Rightarrow> bool" where
  "mm_contract mm \<longleftrightarrow>
     (\<forall>k n k' n' a. mm k n = Some a \<longrightarrow> mm k' n' = Some a \<longrightarrow> k = k') \<and>
     (\<forall>k n a. mm k n = Some a \<longrightarrow> n \<le> MM_BUF_SIZE)"

text \<open>MM turned down a request of at most \<open>B\<close> bytes, in a call from number \<open>k0\<close> on.\<close>

definition mm_refuses :: "mm_oracle \<Rightarrow> nat \<Rightarrow> nat \<Rightarrow> bool" where
  "mm_refuses mm k0 B \<longleftrightarrow> (\<exists>k n. k0 \<le> k \<and> n \<le> B \<and> mm k n = None)"

lemma mm_refuses_mono: "mm_refuses mm k B \<Longrightarrow> k' \<le> k \<Longrightarrow> B \<le> B' \<Longrightarrow> mm_refuses mm k' B'"
  unfolding mm_refuses_def by (meson order_trans)

section \<open>Data\<close>

record 'v Pair =
  p_key :: "string option"
  p_value :: "'v option"

record 'v Bucket =
  bcount :: "32 word"
  pairs :: "'v Pair list"

record 'v StrMap =
  sm_count :: "32 word"
  buckets :: "'v Bucket list"

record char_buf =
  buf_chars :: string
  buf_size :: nat

section \<open>Operations\<close>

text \<open>\<open>int c = *str++\<close>: \<open>char\<close> is signed on the platform, so bytes from 128 on are negative.\<close>

definition schar :: "char \<Rightarrow> int" where
  "schar c = (if of_char c < (128 :: int) then of_char c else of_char c - 256)"

definition hash_step :: "64 word \<Rightarrow> char \<Rightarrow> 64 word" where
  "hash_step h c = (push_bit 5 h + h) + of_int (schar c)"

definition hash :: "string \<Rightarrow> 64 word" where
  "hash str = foldl hash_step 5381 (c_str str)"

text \<open>\<open>index = hash(key) % map->count\<close>, an \<open>unsigned long\<close> operation cut to \<open>unsigned int\<close>.\<close>

definition bucket_index :: "'v StrMap \<Rightarrow> string \<Rightarrow> nat c_result" where
  "bucket_index sm k =
     (if sm_count sm = 0 then Inl DivisionByZero
      else Inr (unat (ucast (hash k mod ucast (sm_count sm)) :: 32 word)))"

text \<open>
  The loop of \<open>get_pair\<close>: \<open>n\<close> pairs are left from index \<open>i\<close>. The result is the index of the pair.
\<close>

fun get_pair_from :: "'v Pair list \<Rightarrow> string \<Rightarrow> nat \<Rightarrow> nat \<Rightarrow> nat option c_result" where
  "get_pair_from ps k i 0 = Inr None"
| "get_pair_from ps k i (Suc n) =
     (if i < length ps then
        (case (p_key (ps ! i), p_value (ps ! i)) of
           (Some k', Some v) \<Rightarrow> if k' = k then Inr (Some i) else get_pair_from ps k (Suc i) n
         | _ \<Rightarrow> get_pair_from ps k (Suc i) n)
      else Inl BufferOverflow)"

definition get_pair :: "'v Bucket \<Rightarrow> string \<Rightarrow> nat option c_result" where
  "get_pair bucket k = get_pair_from (pairs bucket) (c_str k) 0 (unat (bcount bucket))"

definition get_bucket :: "'v StrMap \<Rightarrow> nat \<Rightarrow> 'v Bucket c_result" where
  "get_bucket sm i = (if i < length (buckets sm) then Inr (buckets sm ! i) else Inl BufferOverflow)"

definition sm_new :: "mm_oracle \<Rightarrow> nat \<Rightarrow> 32 word \<Rightarrow> 'v StrMap option \<times> nat" where
  "sm_new mm n capacity =
     (case mm n 24 of None \<Rightarrow> (None, Suc n)
      | Some _ \<Rightarrow> (case mm (Suc n) (unat capacity * 16) of
           None \<Rightarrow> (None, Suc (Suc n))
         | Some _ \<Rightarrow> (Some \<lparr>sm_count = capacity,
                buckets = replicate (unat capacity) \<lparr>bcount = 0, pairs = []\<rparr>\<rparr>, Suc (Suc n))))"

definition sm_get_ptrvalue :: "'v StrMap option \<Rightarrow> string option \<Rightarrow> 'v option c_result" where
  "sm_get_ptrvalue m k =
     (case (m, k) of
        (Some sm, Some k) \<Rightarrow>
          bindr (bucket_index sm k) (\<lambda>index.
          bindr (get_bucket sm index) (\<lambda>bucket.
          bindr (get_pair bucket k) (\<lambda>pair.
            Inr (case pair of None \<Rightarrow> None | Some i \<Rightarrow> p_value (pairs bucket ! i)))))
      | _ \<Rightarrow> Inr None)"

definition sm_exists :: "'v StrMap option \<Rightarrow> string option \<Rightarrow> int c_result" where
  "sm_exists m k =
     (case (m, k) of
        (Some sm, Some k) \<Rightarrow>
          bindr (bucket_index sm k) (\<lambda>index.
          bindr (get_bucket sm index) (\<lambda>bucket.
          bindr (get_pair bucket k) (\<lambda>pair.
            Inr (case pair of None \<Rightarrow> 0 | Some i \<Rightarrow> 1))))
      | _ \<Rightarrow> Inr 0)"

definition set_bucket :: "'v StrMap \<Rightarrow> nat \<Rightarrow> 'v Bucket \<Rightarrow> 'v StrMap" where
  "set_bucket sm index bucket = sm\<lparr>buckets := (buckets sm)[index := bucket]\<rparr>"

text \<open>The pair is kept with both pointers cleared.\<close>

definition sm_remove_ptrvalue :: "'v StrMap option \<Rightarrow> string option \<Rightarrow> 'v StrMap option c_result" where
  "sm_remove_ptrvalue m k =
     (case (m, k) of
        (Some sm, Some k) \<Rightarrow>
          bindr (bucket_index sm k) (\<lambda>index.
          bindr (get_bucket sm index) (\<lambda>bucket.
          bindr (get_pair bucket k) (\<lambda>pair.
            Inr (case pair of None \<Rightarrow> m
              | Some i \<Rightarrow> Some (set_bucket sm index
                  (bucket\<lparr>pairs := (pairs bucket)[i := \<lparr>p_key = None, p_value = None\<rparr>]\<rparr>))))))
      | _ \<Rightarrow> Inr m)"

text \<open>
  The part of \<open>sm_put_ptrvalue\<close> that creates a pair: \<open>n\<close> is the number of the call that asks MM
  for the array, after the key has been allocated.
\<close>

definition append_pair :: "mm_oracle \<Rightarrow> nat \<Rightarrow> 'v Bucket \<Rightarrow> 'v Pair \<Rightarrow> 'v Bucket option \<times> nat" where
  "append_pair mm n bucket p =
     (if bcount bucket = 0 then
        (case mm n 16 of None \<Rightarrow> (None, Suc n)
         | Some _ \<Rightarrow> (Some \<lparr>bcount = 1, pairs = [p]\<rparr>, Suc n))
      else
        (case mm n ((unat (bcount bucket) + 1) * 16) of None \<Rightarrow> (None, Suc n)
         | Some _ \<Rightarrow> (Some \<lparr>bcount = bcount bucket + 1, pairs = pairs bucket @ [p]\<rparr>, Suc n)))"

definition sm_put_ptrvalue ::
    "mm_oracle \<Rightarrow> nat \<Rightarrow> 'v StrMap option \<Rightarrow> string option \<Rightarrow> 'v option \<Rightarrow> (int \<times> 'v StrMap option \<times> nat) c_result" where
  "sm_put_ptrvalue mm n m k v =
     (case (m, k) of
        (Some sm, Some k) \<Rightarrow>
          bindr (bucket_index sm k) (\<lambda>index.
          bindr (get_bucket sm index) (\<lambda>bucket.
          bindr (get_pair bucket k) (\<lambda>pair.
            case pair of
              Some i \<Rightarrow> Inr (1, Some (set_bucket sm index
                 (bucket\<lparr>pairs := (pairs bucket)[i := (pairs bucket ! i)\<lparr>p_value := v\<rparr>]\<rparr>)), n)
            | None \<Rightarrow>
                (case mm n (length (c_str k) + 1) of
                   None \<Rightarrow> Inr (0, m, Suc n)
                 | Some _ \<Rightarrow>
                     (case append_pair mm (Suc n) bucket \<lparr>p_key = Some (c_str k), p_value = v\<rparr> of
                        (None, n') \<Rightarrow> Inr (0, m, n')
                      | (Some bucket', n') \<Rightarrow> Inr (1, Some (set_bucket sm index bucket'), n'))))))
      | _ \<Rightarrow> Inr (0, m, n))"

text \<open>
  \<open>strcpy(pair->value, value)\<close> into the buffer of an existing pair: the buffer is enlarged
  when the new string is longer than the string it holds now.
\<close>

definition sm_put ::
    "mm_oracle \<Rightarrow> nat \<Rightarrow> char_buf StrMap option \<Rightarrow> string option \<Rightarrow> string option
     \<Rightarrow> (int \<times> char_buf StrMap option \<times> nat) c_result" where
  "sm_put mm n m k v =
     (case (m, k, v) of
        (Some sm, Some k, Some v) \<Rightarrow>
          let v = c_str v in
          bindr (bucket_index sm k) (\<lambda>index.
          bindr (get_bucket sm index) (\<lambda>bucket.
          bindr (get_pair bucket k) (\<lambda>pair.
            case pair of
              Some i \<Rightarrow>
                (case p_value (pairs bucket ! i) of None \<Rightarrow> Inl NullDeref
                 | Some old \<Rightarrow>
                    let store = (\<lambda>sz. if sz < length v + 1 then Inl BufferOverflow
                          else Inr (Some (set_bucket sm index (bucket\<lparr>pairs := (pairs bucket)
                             [i := (pairs bucket ! i)\<lparr>p_value := Some \<lparr>buf_chars = v, buf_size = sz\<rparr>\<rparr>]\<rparr>))))
                    in if length (buf_chars old) < length v then
                         (case mm n (length v + 1) of
                            None \<Rightarrow> Inr (0, m, Suc n)
                          | Some _ \<Rightarrow> bindr (store (length v + 1)) (\<lambda>m'. Inr (1, m', Suc n)))
                       else bindr (store (buf_size old)) (\<lambda>m'. Inr (1, m', n)))
            | None \<Rightarrow>
                (case mm n (length (c_str k) + 1) of
                   None \<Rightarrow> Inr (0, m, Suc n)
                 | Some _ \<Rightarrow>
                   (case mm (Suc n) (length v + 1) of
                      None \<Rightarrow> Inr (0, m, Suc (Suc n))
                    | Some _ \<Rightarrow>
                       (case append_pair mm (Suc (Suc n)) bucket
                          \<lparr>p_key = Some (c_str k), p_value = Some \<lparr>buf_chars = v, buf_size = length v + 1\<rparr>\<rparr> of
                          (None, n') \<Rightarrow> Inr (0, m, n')
                        | (Some bucket', n') \<Rightarrow> Inr (1, Some (set_bucket sm index bucket'), n')))))))
      | _ \<Rightarrow> Inr (0, m, n))"

text \<open>
  \<open>sm_get\<close>: the result and what is copied to \<open>out_buf\<close>, which is given by its presence and
  \<open>n_out_buf\<close>.
\<close>

definition sm_get ::
    "char_buf StrMap option \<Rightarrow> string option \<Rightarrow> bool \<Rightarrow> nat \<Rightarrow> (int \<times> string option) c_result" where
  "sm_get m k out_buf n_out_buf =
     (case (m, k) of
        (Some sm, Some k) \<Rightarrow>
          bindr (bucket_index sm k) (\<lambda>index.
          bindr (get_bucket sm index) (\<lambda>bucket.
          bindr (get_pair bucket k) (\<lambda>pair.
            case pair of None \<Rightarrow> Inr (0, None)
            | Some i \<Rightarrow>
               (case p_value (pairs bucket ! i) of None \<Rightarrow> Inl NullDeref
                | Some v \<Rightarrow>
                   Inr (if \<not> out_buf \<and> n_out_buf = 0 then (int (length (buf_chars v)) + 1, None)
                        else if \<not> out_buf then (0, None)
                        else if length (buf_chars v) \<ge> n_out_buf then (0, None)
                        else (1, Some (buf_chars v)))))))
      | _ \<Rightarrow> Inr (0, None))"

text \<open>\<open>sm_get_count\<close> adds up the counts of the buckets, \<open>sm_enum\<close> visits every pair.\<close>

definition sm_get_count :: "'v StrMap option \<Rightarrow> int c_result" where
  "sm_get_count m =
     (case m of None \<Rightarrow> Inr 0
      | Some sm \<Rightarrow>
          if length (buckets sm) < unat (sm_count sm) then Inl BufferOverflow
          else Inr (wrap32 (uint (foldl (\<lambda>c b. c + bcount b) 0 (take (unat (sm_count sm)) (buckets sm))))))"

definition sm_enum ::
    "'v StrMap option \<Rightarrow> (string option \<Rightarrow> 'v option \<Rightarrow> 'o \<Rightarrow> 'o) option \<Rightarrow> 'o \<Rightarrow> (int \<times> 'o) c_result" where
  "sm_enum m enum_func obj =
     (case (m, enum_func) of
        (Some sm, Some f) \<Rightarrow>
          let bs = take (unat (sm_count sm)) (buckets sm) in
          if length (buckets sm) < unat (sm_count sm) \<or>
             (\<exists>b \<in> set bs. length (pairs b) < unat (bcount b)) then Inl BufferOverflow
          else Inr (1, foldl (\<lambda>o' b. foldl (\<lambda>o' p. f (p_key p) (p_value p) o') o' (take (unat (bcount b)) (pairs b))) obj bs)
      | _ \<Rightarrow> Inr (0, obj))"


text \<open>
  The two destructors, as the blocks they give back to MM in order: the keys (and, for
  \<open>sm_delete\<close>, the values) of a bucket, its array, then the next bucket.
\<close>

datatype sm_block = KeyBlock nat nat | ValueBlock nat nat | PairsBlock nat | BucketsBlock | MapBlock

fun free_pairs :: "bool \<Rightarrow> nat \<Rightarrow> nat \<Rightarrow> nat \<Rightarrow> sm_block list" where
  "free_pairs with_values i j 0 = []"
| "free_pairs with_values i j (Suc m) =
     KeyBlock i j # (if with_values then [ValueBlock i j] else []) @ free_pairs with_values i (Suc j) m"

fun free_buckets :: "bool \<Rightarrow> nat \<Rightarrow> 'v Bucket list \<Rightarrow> sm_block list" where
  "free_buckets with_values i [] = []"
| "free_buckets with_values i (b # bs) =
     free_pairs with_values i 0 (unat (bcount b)) @ PairsBlock i # free_buckets with_values (Suc i) bs"

definition sm_delete :: "'v StrMap option \<Rightarrow> sm_block list c_result" where
  "sm_delete m =
     (case m of None \<Rightarrow> Inr []
      | Some sm \<Rightarrow> if length (buckets sm) < unat (sm_count sm) then Inl BufferOverflow
          else Inr (free_buckets True 0 (take (unat (sm_count sm)) (buckets sm)) @ [BucketsBlock, MapBlock]))"

definition sm_ptrvalue_delete :: "'v StrMap option \<Rightarrow> sm_block list c_result" where
  "sm_ptrvalue_delete m =
     (case m of None \<Rightarrow> Inr []
      | Some sm \<Rightarrow> if length (buckets sm) < unat (sm_count sm) then Inl BufferOverflow
          else Inr (free_buckets False 0 (take (unat (sm_count sm)) (buckets sm)) @ [BucketsBlock, MapBlock]))"


section \<open>The table as a map\<close>

definition live :: "'v Pair \<Rightarrow> (string \<times> 'v) option" where
  "live p = (case (p_key p, p_value p) of (Some k, Some v) \<Rightarrow> Some (k, v) | _ \<Rightarrow> None)"

primrec live_pairs :: "'v Pair list \<Rightarrow> (string \<times> 'v) list" where
  "live_pairs [] = []"
| "live_pairs (p # ps) = (case live p of None \<Rightarrow> live_pairs ps | Some kv \<Rightarrow> kv # live_pairs ps)"

lemma live_pairs_append [simp]: "live_pairs (ps @ qs) = live_pairs ps @ live_pairs qs"
  by (induction ps) (auto split: option.splits)

fun find_live :: "'v Pair list \<Rightarrow> string \<Rightarrow> nat option" where
  "find_live [] k = None"
| "find_live (p # ps) k =
     (case live p of
        Some (k', v) \<Rightarrow> if k' = k then Some 0 else map_option Suc (find_live ps k)
      | None \<Rightarrow> map_option Suc (find_live ps k))"

lemma get_pair_from_eq:
  "i + n = length ps \<Longrightarrow>
     get_pair_from ps k i n = Inr (map_option ((+) i) (find_live (drop i ps) k))"
proof (induction n arbitrary: i)
  case 0
  then show ?case by simp
next
  case (Suc n)
  then have d: "drop i ps = ps ! i # drop (Suc i) ps" by (simp add: Cons_nth_drop_Suc)
  have "get_pair_from ps k (Suc i) n = Inr (map_option ((+) (Suc i)) (find_live (drop (Suc i) ps) k))"
    using Suc.prems by (intro Suc.IH) simp
  with Suc.prems show ?case
    by (auto simp: d live_def option.map_comp comp_def split: option.splits intro!: option.map_cong0)
qed

lemma find_live_None: "find_live ps k = None \<longleftrightarrow> map_of (live_pairs ps) k = None"
  by (induction ps) (auto split: option.splits)

lemma find_live_Some:
  "find_live ps k = Some i \<Longrightarrow>
     i < length ps \<and> (\<exists>v. p_key (ps ! i) = Some k \<and> p_value (ps ! i) = Some v \<and> map_of (live_pairs ps) k = Some v)"
  by (induction ps arbitrary: i) (auto simp: live_def split: option.splits if_splits)

lemma find_live_update:
  "find_live ps k = Some i \<Longrightarrow>
     map_of (live_pairs (ps[i := (ps ! i)\<lparr>p_value := Some v\<rparr>])) = (map_of (live_pairs ps))(k \<mapsto> v)"
  by (induction ps arbitrary: i) (auto simp: live_def fun_eq_iff split: option.splits if_splits)

lemma live_pairs_update_keys:
  "find_live ps k = Some i \<Longrightarrow>
     map fst (live_pairs (ps[i := (ps ! i)\<lparr>p_value := Some v\<rparr>])) = map fst (live_pairs ps)"
  by (induction ps arbitrary: i) (auto simp: live_def split: option.splits if_splits)

lemma live_pairs_clear:
  assumes "find_live ps k = Some i" and "distinct (map fst (live_pairs ps))"
  shows "live_pairs (ps[i := \<lparr>p_key = None, p_value = None\<rparr>]) = filter (\<lambda>kv. fst kv \<noteq> k) (live_pairs ps)"
  using assms
proof (induction ps arbitrary: i)
  case Nil
  then show ?case by simp
next
  case (Cons p ps)
  have *: "filter (\<lambda>kv. fst kv \<noteq> k) xs = xs" if "k \<notin> fst ` set xs" for xs :: "(string \<times> 'a) list"
    using that by (auto simp: filter_id_conv)
  from Cons show ?case
    by (cases "live p") (auto simp: live_def * split: option.splits if_splits)
qed

definition strmap_wf :: "'v StrMap \<Rightarrow> bool" where
  "strmap_wf sm \<longleftrightarrow> 0 < sm_count sm \<and> length (buckets sm) = unat (sm_count sm) \<and>
     (\<forall>b \<in> set (buckets sm). unat (bcount b) = length (pairs b) \<and> distinct (map fst (live_pairs (pairs b))))"

definition key_index :: "'v StrMap \<Rightarrow> string \<Rightarrow> nat" where
  "key_index sm k = unat (ucast (hash k mod ucast (sm_count sm)) :: 32 word)"

definition strmap_abs :: "'v StrMap \<Rightarrow> string \<rightharpoonup> 'v" where
  "strmap_abs sm k = map_of (live_pairs (pairs (buckets sm ! key_index sm k))) k"

lemma key_index_bound:
  assumes "0 < sm_count sm"
  shows "key_index sm k < unat (sm_count sm)"
proof -
  let ?c = "ucast (sm_count sm) :: 64 word"
  have c: "unat ?c = unat (sm_count sm)"
    by (simp add: unsigned_ucast_eq take_bit_nat_eq_self_iff unsigned_less [THEN order_less_le_trans])
  then have "0 < unat ?c" using assms by (simp add: unat_gt_0 word_gt_0)
  then have "unat (hash k mod ?c) < unat (sm_count sm)"
    by (simp add: unat_mod c)
  moreover have "unat (ucast (hash k mod ?c) :: 32 word) \<le> unat (hash k mod ?c)"
    by (simp add: unsigned_ucast_eq)
  ultimately show ?thesis by (simp add: key_index_def)
qed

lemma hash_c_str [simp]: "hash (c_str k) = hash k"
  by (simp add: hash_def c_str_id)

lemma key_index_c_str [simp]: "key_index sm (c_str k) = key_index sm k"
  by (simp add: key_index_def)

lemma key_index_set_bucket [simp]: "key_index (set_bucket sm i b) k = key_index sm k"
  by (simp add: key_index_def set_bucket_def)


section \<open>What the operations do to the map\<close>

lemma strmap_wf_bucket:
  assumes "strmap_wf sm"
  shows "bucket_index sm k = Inr (key_index sm k)"
    and "get_bucket sm (key_index sm k) = Inr (buckets sm ! key_index sm k)"
    and "get_pair (buckets sm ! key_index sm k) k' =
      Inr (find_live (pairs (buckets sm ! key_index sm k)) (c_str k'))"
    and "key_index sm k < length (buckets sm)"
    and "buckets sm ! key_index sm k \<in> set (buckets sm)"
proof -
  from assms have pos: "0 < sm_count sm" and len: "length (buckets sm) = unat (sm_count sm)"
    by (simp_all add: strmap_wf_def)
  from key_index_bound [OF pos] len show lt: "key_index sm k < length (buckets sm)" by simp
  then show mem: "buckets sm ! key_index sm k \<in> set (buckets sm)" by simp
  from pos show "bucket_index sm k = Inr (key_index sm k)"
    by (simp add: bucket_index_def key_index_def word_gt_0)
  from lt show "get_bucket sm (key_index sm k) = Inr (buckets sm ! key_index sm k)"
    by (simp add: get_bucket_def)
  from mem assms have "unat (bcount (buckets sm ! key_index sm k)) = length (pairs (buckets sm ! key_index sm k))"
    by (simp add: strmap_wf_def)
  then show "get_pair (buckets sm ! key_index sm k) k' =
      Inr (find_live (pairs (buckets sm ! key_index sm k)) (c_str k'))"
    by (cases "find_live (pairs (buckets sm ! key_index sm k)) (c_str k')")
       (simp_all add: get_pair_def get_pair_from_eq)
qed

lemmas strmap_steps = strmap_wf_bucket(1-3)

lemma strmap_wf_set_bucket:
  assumes "strmap_wf sm" "unat (bcount b) = length (pairs b)" "distinct (map fst (live_pairs (pairs b)))"
  shows "strmap_wf (set_bucket sm i b)"
  using assms set_update_subset_insert [of "buckets sm" i b]
  by (auto simp: strmap_wf_def set_bucket_def)

lemma strmap_abs_set_bucket:
  assumes "strmap_wf sm"
    and "map_of (live_pairs (pairs b)) = (map_of (live_pairs (pairs (buckets sm ! key_index sm k))))(c_str k := x)"
  shows "strmap_abs (set_bucket sm (key_index sm k) b) = (strmap_abs sm)(c_str k := x)"
proof
  fix k'
  show "strmap_abs (set_bucket sm (key_index sm k) b) k' = ((strmap_abs sm)(c_str k := x)) k'"
    using assms(2) strmap_wf_bucket(4) [OF assms(1), of k]
    by (cases "key_index sm k' = key_index sm k")
       (auto simp: strmap_abs_def set_bucket_def key_index_def)
qed

lemma sm_get_ptrvalue_eq:
  assumes "strmap_wf sm"
  shows "sm_get_ptrvalue (Some sm) (Some k) = Inr (strmap_abs sm (c_str k))"
proof (cases "find_live (pairs (buckets sm ! key_index sm k)) (c_str k)")
  case None
  moreover from this have "strmap_abs sm (c_str k) = None"
    by (simp add: strmap_abs_def find_live_None)
  ultimately show ?thesis by (simp add: sm_get_ptrvalue_def strmap_steps [OF assms])
next
  case (Some i)
  from find_live_Some [OF this] show ?thesis
    by (auto simp: sm_get_ptrvalue_def strmap_steps [OF assms] strmap_abs_def Some)
qed

lemma sm_exists_eq:
  assumes "strmap_wf sm"
  shows "sm_exists (Some sm) (Some k) = Inr (if strmap_abs sm (c_str k) = None then 0 else 1)"
  by (auto simp: sm_exists_def strmap_steps [OF assms] strmap_abs_def find_live_None [symmetric] split: option.splits)

lemma append_pair_eq:
  assumes "mm_contract mm" "unat (bcount b) = length (pairs b)" "append_pair mm n b p = (Some b', n')"
  shows "pairs b' = pairs b @ [p] \<and> unat (bcount b') = length (pairs b')"
proof (cases "bcount b = 0")
  case True
  with assms show ?thesis by (auto simp: append_pair_def split: option.splits)
next
  case False
  with assms obtain a where a: "mm n ((unat (bcount b) + 1) * 16) = Some a"
    and b': "b' = \<lparr>bcount = bcount b + 1, pairs = pairs b @ [p]\<rparr>"
    by (auto simp: append_pair_def split: option.splits)
  from a assms(1) have "(unat (bcount b) + 1) * 16 \<le> MM_BUF_SIZE"
    unfolding mm_contract_def by blast
  then have "unat (bcount b) + 1 < 2 ^ 32" by simp
  then have "unat (bcount b + 1) = unat (bcount b) + 1"
    by (simp add: unat_word_ariths)
  with assms(2) b' show ?thesis by simp
qed

lemma sm_put_ptrvalue_eq:
  assumes wf: "strmap_wf sm" and mm: "mm_contract mm"
  shows "\<exists>r sm' n'. sm_put_ptrvalue mm n (Some sm) (Some k) (Some v) = Inr (r, Some sm', n') \<and>
    strmap_wf sm' \<and> n \<le> n' \<and>
    (r = 1 \<and> strmap_abs sm' = (strmap_abs sm)(c_str k \<mapsto> v) \<or> r = 0 \<and> sm' = sm \<and> strmap_abs sm (c_str k) = None)"
proof -
  let ?i = "key_index sm k" let ?b = "buckets sm ! ?i"
  note steps = strmap_steps [OF wf]
  from strmap_wf_bucket(5) [OF wf] wf have b: "unat (bcount ?b) = length (pairs ?b)"
    "distinct (map fst (live_pairs (pairs ?b)))" by (simp_all add: strmap_wf_def)
  show ?thesis
  proof (cases "find_live (pairs ?b) (c_str k)")
    case (Some i)
    let ?b' = "?b\<lparr>pairs := (pairs ?b)[i := (pairs ?b ! i)\<lparr>p_value := Some v\<rparr>]\<rparr>"
    have "strmap_abs (set_bucket sm ?i ?b') = (strmap_abs sm)(c_str k \<mapsto> v)"
      by (rule strmap_abs_set_bucket [OF wf]) (simp add: find_live_update [OF Some])
    moreover have "strmap_wf (set_bucket sm ?i ?b')"
      by (rule strmap_wf_set_bucket [OF wf]) (use b in \<open>simp_all add: live_pairs_update_keys [OF Some]\<close>)
    ultimately show ?thesis by (simp add: sm_put_ptrvalue_def steps Some)
  next
    case None
    let ?p = "\<lparr>p_key = Some (c_str k), p_value = Some v\<rparr>"
    from None have out: "map_of (live_pairs (pairs ?b)) (c_str k) = None" by (simp add: find_live_None)
    show ?thesis
    proof (cases "append_pair mm (Suc n) ?b ?p")
      case (Pair bo n')
      then have n': "n' = Suc (Suc n)" by (auto simp: append_pair_def split: if_splits option.splits)
      have "?thesis" if bo: "bo = Some b'" for b'
      proof -
        from append_pair_eq [OF mm b(1)] Pair bo
        have b': "pairs b' = pairs ?b @ [?p]" "unat (bcount b') = length (pairs b')" by auto
        have "strmap_abs (set_bucket sm ?i b') = (strmap_abs sm)(c_str k \<mapsto> v)"
          by (rule strmap_abs_set_bucket [OF wf])
             (use out in \<open>auto simp: b'(1) live_def map_add_def fun_eq_iff split: option.splits\<close>)
        moreover have "strmap_wf (set_bucket sm ?i b')"
          by (rule strmap_wf_set_bucket [OF wf b'(2)])
             (use b out in \<open>auto simp: b'(1) live_def map_of_eq_None_iff\<close>)
        ultimately show ?thesis using wf out
          by (auto simp: sm_put_ptrvalue_def steps None Pair bo n' strmap_abs_def split: option.splits)
      qed
      moreover have "?thesis" if "bo = None"
        using wf out by (auto simp: sm_put_ptrvalue_def steps None Pair that n' strmap_abs_def split: option.splits)
      ultimately show ?thesis by (cases bo) auto
    qed
  qed
qed

text \<open>The number of pairs stored bounds the requests that a failing insertion made.\<close>

definition sm_pairs :: "'v StrMap \<Rightarrow> nat" where
  "sm_pairs sm = sum_list (map (\<lambda>b. length (pairs b)) (buckets sm))"

lemma sm_put_ptrvalue_fail:
  assumes wf: "strmap_wf sm" and put: "sm_put_ptrvalue mm n (Some sm) (Some k) v = Inr (0, m', n')"
  shows "mm_refuses mm n (length k + 16 + 16 * sm_pairs sm)"
proof -
  let ?b = "buckets sm ! key_index sm k"
  have b: "?b \<in> set (buckets sm)" by (rule strmap_wf_bucket(5) [OF wf])
  have "length (pairs ?b) \<le> sm_pairs sm"
    unfolding sm_pairs_def using b by (intro member_le_sum_list) auto
  moreover have "unat (bcount ?b) = length (pairs ?b)" using wf b by (simp add: strmap_wf_def)
  ultimately have le: "(unat (bcount ?b) + 1) * 16 \<le> length k + 16 + 16 * sm_pairs sm" by simp
  from put consider "mm n (length (c_str k) + 1) = None" | "mm (Suc n) 16 = None"
    | "mm (Suc n) ((unat (bcount ?b) + 1) * 16) = None"
    by (auto simp: sm_put_ptrvalue_def strmap_steps [OF wf] append_pair_def split: option.splits if_splits)
  then show ?thesis
  proof cases
    case 1
    moreover have "length (c_str k) + 1 \<le> length k + 16 + 16 * sm_pairs sm" using c_str_length [of k] by simp
    ultimately show ?thesis unfolding mm_refuses_def by blast
  next
    case 2
    then show ?thesis unfolding mm_refuses_def by (intro exI [of _ "Suc n"] exI [of _ 16]) simp
  next
    case 3
    then show ?thesis using le unfolding mm_refuses_def by (meson le_SucI order_refl)
  qed
qed

lemma sm_remove_ptrvalue_eq:
  assumes wf: "strmap_wf sm"
  shows "\<exists>sm'. sm_remove_ptrvalue (Some sm) (Some k) = Inr (Some sm') \<and> strmap_wf sm' \<and>
    strmap_abs sm' = (strmap_abs sm)(c_str k := None)"
proof -
  let ?i = "key_index sm k" let ?b = "buckets sm ! ?i"
  from strmap_wf_bucket(5) [OF wf] wf have b: "unat (bcount ?b) = length (pairs ?b)"
    "distinct (map fst (live_pairs (pairs ?b)))" by (simp_all add: strmap_wf_def)
  show ?thesis
  proof (cases "find_live (pairs ?b) (c_str k)")
    case None
    then have "strmap_abs sm (c_str k) = None" by (simp add: strmap_abs_def find_live_None)
    with None wf show ?thesis
      by (auto simp: sm_remove_ptrvalue_def strmap_steps [OF wf] fun_eq_iff)
  next
    case (Some i)
    let ?b' = "?b\<lparr>pairs := (pairs ?b)[i := \<lparr>p_key = None, p_value = None\<rparr>]\<rparr>"
    have live': "live_pairs (pairs ?b') = filter (\<lambda>kv. fst kv \<noteq> c_str k) (live_pairs (pairs ?b))"
      using live_pairs_clear [OF Some b(2)] by simp
    have "map_of (filter (\<lambda>kv. fst kv \<noteq> c_str k) xs) = (map_of xs)(c_str k := None)" for xs :: "(string \<times> 'a) list"
      by (induction xs) (auto simp: fun_eq_iff)
    then have "strmap_abs (set_bucket sm ?i ?b') = (strmap_abs sm)(c_str k := None)"
      by (intro strmap_abs_set_bucket [OF wf]) (simp only: live')
    moreover have "strmap_wf (set_bucket sm ?i ?b')"
    proof (rule strmap_wf_set_bucket [OF wf])
      show "unat (bcount ?b') = length (pairs ?b')" using b(1) by simp
      show "distinct (map fst (live_pairs (pairs ?b')))" unfolding live' using b(2)
        by (auto simp: distinct_map intro: inj_on_subset)
    qed
    ultimately show ?thesis by (simp add: sm_remove_ptrvalue_def strmap_steps [OF wf] Some)
  qed
qed

lemma sm_new_eq:
  assumes "sm_new mm n c = (Some sm, n')" "0 < c"
  shows "strmap_wf sm \<and> strmap_abs sm = Map.empty \<and> sm_count sm = c \<and> n' = n + 2"
proof -
  from assms(1) have sm: "sm = \<lparr>sm_count = c, buckets = replicate (unat c) \<lparr>bcount = 0, pairs = []\<rparr>\<rparr>"
    and n': "n' = n + 2"
    by (auto simp: sm_new_def split: option.splits)
  have "key_index sm k < unat c" for k
    using key_index_bound [of sm k] assms(2) by (simp add: sm)
  then have "strmap_abs sm = Map.empty"
    by (auto simp: strmap_abs_def sm fun_eq_iff)
  moreover have "strmap_wf sm" using assms(2) by (simp add: strmap_wf_def sm)
  ultimately show ?thesis by (simp add: sm n')
qed

text \<open>Removing leaves the pair in its bucket, so the number \<open>sm_get_count\<close> returns stays.\<close>

lemma sm_remove_count:
  assumes wf: "strmap_wf sm" and "sm_remove_ptrvalue (Some sm) (Some k) = Inr m'"
  shows "sm_get_count m' = sm_get_count (Some sm)"
proof -
  have fold: "foldl (\<lambda>c b. c + bcount b) x bs = foldl (\<lambda>c n. c + n) x (map bcount bs)"
    for x and bs :: "'a Bucket list"
    by (simp add: foldl_map)
  have upd: "map bcount (bs[i := b]) = map bcount bs" if "i < length bs" "bcount b = bcount (bs ! i)"
    for bs :: "'a Bucket list" and i b
    using that list_update_id [of "map bcount bs" i] by (simp add: map_update)
  have "map bcount (buckets (set_bucket sm (key_index sm k) b)) = map bcount (buckets sm)"
    if "bcount b = bcount (buckets sm ! key_index sm k)" for b
    using upd [OF strmap_wf_bucket(4) [OF wf] that] by (simp add: set_bucket_def)
  with assms(2) show ?thesis
    by (auto simp: sm_remove_ptrvalue_def strmap_steps [OF wf] sm_get_count_def fold set_bucket_def
        simp flip: take_map split: option.splits)
qed

section \<open>Character values\<close>

definition bufs_ok :: "char_buf StrMap \<Rightarrow> bool" where
  "bufs_ok sm \<longleftrightarrow> (\<forall>b \<in> set (buckets sm). \<forall>p \<in> set (pairs b). \<forall>v. p_value p = Some v \<longrightarrow>
     length (buf_chars v) < buf_size v)"

lemma bufs_ok_set_bucket:
  assumes "bufs_ok sm" "\<forall>p \<in> set (pairs b). \<forall>v. p_value p = Some v \<longrightarrow> length (buf_chars v) < buf_size v"
  shows "bufs_ok (set_bucket sm i b)"
  using assms set_update_subset_insert [of "buckets sm" i b]
  by (auto simp: bufs_ok_def set_bucket_def)

lemma put_existing_value:
  assumes wf: "strmap_wf sm" and ok: "bufs_ok sm"
    and i: "find_live (pairs (buckets sm ! key_index sm k)) (c_str k) = Some i"
    and sz: "length v < sz"
  defines "b \<equiv> buckets sm ! key_index sm k"
  defines "sm' \<equiv> set_bucket sm (key_index sm k)
      (b\<lparr>pairs := (pairs b)[i := (pairs b ! i)\<lparr>p_value := Some \<lparr>buf_chars = v, buf_size = sz\<rparr>\<rparr>]\<rparr>)"
  shows "strmap_wf sm' \<and> bufs_ok sm' \<and> strmap_abs sm' = (strmap_abs sm)(c_str k \<mapsto> \<lparr>buf_chars = v, buf_size = sz\<rparr>)"
proof (intro conjI)
  have bs: "b \<in> set (buckets sm)" unfolding b_def by (rule strmap_wf_bucket(5) [OF wf])
  with wf show "strmap_wf sm'" unfolding sm'_def
    by (intro strmap_wf_set_bucket [OF wf])
       (auto simp: strmap_wf_def live_pairs_update_keys [OF i [folded b_def]])
  show "bufs_ok sm'" unfolding sm'_def
    using ok bs sz set_update_subset_insert [of "pairs b" i]
    by (intro bufs_ok_set_bucket [OF ok]) (fastforce simp: bufs_ok_def)
  show "strmap_abs sm' = (strmap_abs sm)(c_str k \<mapsto> \<lparr>buf_chars = v, buf_size = sz\<rparr>)"
    unfolding sm'_def
    by (rule strmap_abs_set_bucket [OF wf]) (simp add: find_live_update [OF i [folded b_def]] flip: b_def)
qed


lemma put_new_value:
  fixes v :: char_buf
  assumes wf: "strmap_wf sm" and mm: "mm_contract mm" and ok: "bufs_ok sm" and v: "length (buf_chars v) < buf_size v"
    and none: "find_live (pairs (buckets sm ! key_index sm k)) (c_str k) = None"
    and ap: "append_pair mm n (buckets sm ! key_index sm k) \<lparr>p_key = Some (c_str k), p_value = Some v\<rparr> = (Some b', n')"
  shows "strmap_wf (set_bucket sm (key_index sm k) b') \<and> bufs_ok (set_bucket sm (key_index sm k) b') \<and>
    strmap_abs (set_bucket sm (key_index sm k) b') = (strmap_abs sm)(c_str k \<mapsto> v)"
proof -
  let ?i = "key_index sm k" let ?b = "buckets sm ! ?i" let ?p = "\<lparr>p_key = Some (c_str k), p_value = Some v\<rparr>"
  have bs: "?b \<in> set (buckets sm)" by (rule strmap_wf_bucket(5) [OF wf])
  with wf have b: "unat (bcount ?b) = length (pairs ?b)" "distinct (map fst (live_pairs (pairs ?b)))"
    by (simp_all add: strmap_wf_def)
  from none have out: "map_of (live_pairs (pairs ?b)) (c_str k) = None" by (simp add: find_live_None)
  from append_pair_eq [OF mm b(1) ap] have b': "pairs b' = pairs ?b @ [?p]" "unat (bcount b') = length (pairs b')" by auto
  have "strmap_abs (set_bucket sm ?i b') = (strmap_abs sm)(c_str k \<mapsto> v)"
    by (rule strmap_abs_set_bucket [OF wf])
       (use out in \<open>auto simp: b'(1) live_def map_add_def fun_eq_iff split: option.splits\<close>)
  moreover have "strmap_wf (set_bucket sm ?i b')"
    by (rule strmap_wf_set_bucket [OF wf b'(2)]) (use b out in \<open>auto simp: b'(1) live_def map_of_eq_None_iff\<close>)
  moreover have "bufs_ok (set_bucket sm ?i b')"
    using ok bs v by (intro bufs_ok_set_bucket [OF ok]) (auto simp: b'(1) bufs_ok_def)
  ultimately show ?thesis by blast
qed

lemma sm_put_eq:
  assumes wf: "strmap_wf sm" and mm: "mm_contract mm" and ok: "bufs_ok sm"
  shows "\<exists>r sm' n'. sm_put mm n (Some sm) (Some k) (Some s) = Inr (r, Some sm', n') \<and>
    strmap_wf sm' \<and> bufs_ok sm' \<and>
    (r = 1 \<and> (\<exists>sz. strmap_abs sm' = (strmap_abs sm)(c_str k \<mapsto> \<lparr>buf_chars = c_str s, buf_size = sz\<rparr>))
     \<or> r = 0 \<and> sm' = sm)"
proof -
  let ?i = "key_index sm k" let ?b = "buckets sm ! ?i"
  note steps = strmap_steps [OF wf]
  have bs: "?b \<in> set (buckets sm)" by (rule strmap_wf_bucket(5) [OF wf])
  show ?thesis
  proof (cases "find_live (pairs ?b) (c_str k)")
    case (Some i)
    from find_live_Some [OF Some] obtain old where i: "i < length (pairs ?b)"
      and old: "p_value (pairs ?b ! i) = Some old" by blast
    from i have "pairs ?b ! i \<in> set (pairs ?b)" by simp
    with ok bs old have "length (buf_chars old) < buf_size old" unfolding bufs_ok_def by blast
    then have fits: "length (c_str s) < buf_size old" if "\<not> length (buf_chars old) < length (c_str s)"
      using that by linarith
    have grown: "length (c_str s) < length (c_str s) + 1" by simp
    show ?thesis
    proof (cases "length (buf_chars old) < length (c_str s)")
      case True
      with put_existing_value [OF wf ok Some grown] wf ok show ?thesis
        by (cases "mm n (length (c_str s) + 1)") (auto simp: sm_put_def steps Some old Let_def)
    next
      case False
      note f = fits [OF False]
      from f have "(buf_size old < length (c_str s) + 1) = False" by simp
      with put_existing_value [OF wf ok Some f] False show ?thesis
        by (auto simp: sm_put_def steps Some old Let_def)
    qed
  next
    case None
    let ?v = "\<lparr>buf_chars = c_str s, buf_size = length (c_str s) + 1\<rparr>"
    let ?p = "\<lparr>p_key = Some (c_str k), p_value = Some ?v\<rparr>"
    note new = put_new_value [OF wf mm ok _ None, of ?v]
    obtain bo n' where ap: "append_pair mm (Suc (Suc n)) ?b ?p = (bo, n')" by fastforce
    show ?thesis
      using new wf ok ap
      by (cases "mm n (length (c_str k) + 1)"; cases "mm (Suc n) (length (c_str s) + 1)"; cases bo)
         (auto simp: sm_put_def steps None Let_def)
  qed
qed

lemma sm_get_eq:
  assumes "strmap_wf sm"
  shows "sm_get (Some sm) (Some k) out_buf n_out =
    Inr (case strmap_abs sm (c_str k) of None \<Rightarrow> (0, None)
         | Some v \<Rightarrow> if \<not> out_buf \<and> n_out = 0 then (int (length (buf_chars v)) + 1, None)
             else if out_buf \<and> length (buf_chars v) < n_out then (1, Some (buf_chars v)) else (0, None))"
proof (cases "find_live (pairs (buckets sm ! key_index sm k)) (c_str k)")
  case None
  moreover from this have "strmap_abs sm (c_str k) = None"
    by (simp add: strmap_abs_def find_live_None)
  ultimately show ?thesis by (simp add: sm_get_def strmap_steps [OF assms])
next
  case (Some i)
  from find_live_Some [OF this] show ?thesis
    by (auto simp: sm_get_def strmap_steps [OF assms] strmap_abs_def Some)
qed

section \<open>Releasing a table\<close>

lemma free_pairs_set:
  "set (free_pairs w i j m) = (\<lambda>l. KeyBlock i l) ` {j..<j + m} \<union> (if w then (\<lambda>l. ValueBlock i l) ` {j..<j + m} else {})"
  by (induction m arbitrary: j) (auto simp: image_iff)

lemma free_pairs_distinct: "distinct (free_pairs w i j m)"
  by (induction m arbitrary: j) (auto simp: free_pairs_set)

lemma free_buckets_index:
  "x \<in> set (free_buckets w i bs) \<Longrightarrow>
     (\<exists>l j. i \<le> l \<and> (x = KeyBlock l j \<or> x = ValueBlock l j \<or> x = PairsBlock l))"
  by (induction bs arbitrary: i) (fastforce simp: free_pairs_set split: if_splits dest: Suc_leD)+

lemma free_buckets_distinct: "distinct (free_buckets w i bs)"
proof (induction bs arbitrary: i)
  case Nil
  then show ?case by simp
next
  case (Cons b bs)
  have "x \<notin> set (free_buckets w (Suc i) bs)" if "x \<in> set (free_pairs w i 0 (unat (bcount b))) \<or> x = PairsBlock i" for x
    using that free_buckets_index [of x w "Suc i" bs] by (auto simp: free_pairs_set split: if_splits)
  with Cons.IH [of "Suc i"] show ?case
    by (auto simp: free_pairs_distinct) (auto simp: free_pairs_set split: if_splits)
qed

section \<open>The contract of the id map\<close>

locale finite_store =
  fixes get :: "'m \<Rightarrow> 'k \<Rightarrow> 'v option c_result"
    and put :: "nat \<Rightarrow> 'm \<Rightarrow> 'k \<Rightarrow> 'v \<Rightarrow> (int \<times> 'm \<times> nat) c_result"
    and norm :: "'k \<Rightarrow> 'k"
    and inv :: "'m \<Rightarrow> bool"
  assumes get_total: "inv m \<Longrightarrow> \<exists>r. get m k = Inr r"
    and put_total: "inv m \<Longrightarrow> \<exists>r m' n'. put n m k v = Inr (r, m', n')"
    and put_inv: "inv m \<Longrightarrow> put n m k v = Inr (r, m', n') \<Longrightarrow> inv m'"
    and put_calls: "inv m \<Longrightarrow> put n m k v = Inr (r, m', n') \<Longrightarrow> n \<le> n'"
    and put_done: "inv m \<Longrightarrow> put n m k v = Inr (r, m', n') \<Longrightarrow> r \<noteq> 0 \<Longrightarrow>
      get m' k' = (if norm k' = norm k then Inr (Some v) else get m k')"
    and put_failed: "inv m \<Longrightarrow> put n m k v = Inr (0, m', n') \<Longrightarrow> m' = m \<and> get m k = Inr None"
begin

lemma get_put_same: "inv m \<Longrightarrow> put n m k v = Inr (r, m', n') \<Longrightarrow> r \<noteq> 0 \<Longrightarrow> get m' k = Inr (Some v)"
  by (simp add: put_done)

lemma get_put_other:
  "inv m \<Longrightarrow> put n m k v = Inr (r, m', n') \<Longrightarrow> norm k' \<noteq> norm k \<Longrightarrow> get m' k' = get m k'"
  by (cases "r = 0") (auto simp: put_done dest: put_failed)

text \<open>A key that is bound stays bound, and rebinding it cannot fail.\<close>

lemma rebind_succeeds:
  "inv m \<Longrightarrow> get m k = Inr (Some w) \<Longrightarrow> put n m k v = Inr (r, m', n') \<Longrightarrow> get m' k = Inr (Some v)"
  by (cases "r = 0") (auto simp: put_done dest: put_failed)

lemma bound_after_put:
  "inv m \<Longrightarrow> put n m k v = Inr (r, m', n') \<Longrightarrow> get m' k' = Inr (Some w) \<Longrightarrow>
     get m k' = Inr (Some w) \<or> norm k' = norm k \<and> w = v"
  by (cases "r = 0"; cases "norm k' = norm k") (auto simp: put_done dest: put_failed)

end


text \<open>A segment that hands out block \<open>k\<close> in its \<open>k\<close>-th call meets the contract.\<close>

definition mm_segment :: mm_oracle where
  "mm_segment k n = (if n \<le> MM_BUF_SIZE then Some k else None)"

lemma mm_contract_segment: "mm_contract mm_segment"
  by (auto simp: mm_contract_def mm_segment_def split: if_splits)

lemma mm_segment_serves: "B \<le> MM_BUF_SIZE \<Longrightarrow> \<not> mm_refuses mm_segment k B"
  by (auto simp: mm_refuses_def mm_segment_def)

lemma strmap_is_store:
  assumes mm: "mm_contract mm"
  shows "finite_store (\<lambda>m k. sm_get_ptrvalue (Some m) (Some k))
    (\<lambda>n m k v. bindr (sm_put_ptrvalue mm n (Some m) (Some k) (Some v))
       (\<lambda>(r, m', n'). Inr (r, the m', n'))) c_str strmap_wf"
proof
  fix m :: "'v StrMap" and n k v
  assume wf: "strmap_wf m"
  show "\<exists>r. sm_get_ptrvalue (Some m) (Some k) = Inr r" by (simp add: sm_get_ptrvalue_eq [OF wf])
  from sm_put_ptrvalue_eq [OF wf mm, of n k v]
  obtain r m' n' where put: "sm_put_ptrvalue mm n (Some m) (Some k) (Some v) = Inr (r, Some m', n')"
    and m': "strmap_wf m'" "n \<le> n'"
    and cases: "r = 1 \<and> strmap_abs m' = (strmap_abs m)(c_str k \<mapsto> v) \<or> r = 0 \<and> m' = m \<and> strmap_abs m (c_str k) = None"
    by blast
  show "\<exists>r m' n'. bindr (sm_put_ptrvalue mm n (Some m) (Some k) (Some v)) (\<lambda>(r, m', n'). Inr (r, the m', n')) = Inr (r, m', n')"
    by (simp add: put)
  fix r1 m1 n1
  assume "bindr (sm_put_ptrvalue mm n (Some m) (Some k) (Some v)) (\<lambda>(r, m', n'). Inr (r, the m', n')) = Inr (r1, m1, n1)"
  then have eq: "r1 = r" "m1 = m'" "n1 = n'" by (simp_all add: put)
  show "strmap_wf m1" "n \<le> n1" using m' eq by simp_all
  show "sm_get_ptrvalue (Some m1) (Some k') = (if c_str k' = c_str k then Inr (Some v) else sm_get_ptrvalue (Some m) (Some k'))"
    if "r1 \<noteq> 0" for k'
    using that cases m' wf eq by (auto simp: sm_get_ptrvalue_eq)
next
  fix m :: "'v StrMap" and n k v m1 n1
  assume wf: "strmap_wf m"
  from sm_put_ptrvalue_eq [OF wf mm, of n k v] 
  show "bindr (sm_put_ptrvalue mm n (Some m) (Some k) (Some v)) (\<lambda>(r, m', n'). Inr (r, the m', n')) = Inr (0, m1, n1) \<Longrightarrow>
    m1 = m \<and> sm_get_ptrvalue (Some m) (Some k) = Inr None"
    by (auto simp: sm_get_ptrvalue_eq [OF wf])
qed


text \<open>
  The allocator as an interface: any \<open>mm\<close> that meets the contract makes the table a store.
\<close>

locale mm_alloc =
  fixes mm :: mm_oracle
  assumes contract: "mm_contract mm"

sublocale mm_alloc \<subseteq> ids: finite_store "\<lambda>m k. sm_get_ptrvalue (Some m) (Some k)"
  "\<lambda>n m k v. bindr (sm_put_ptrvalue mm n (Some m) (Some k) (Some v)) (\<lambda>(r, m', n'). Inr (r, the m', n'))"
  c_str strmap_wf
  by (rule strmap_is_store [OF contract])

interpretation segment: mm_alloc mm_segment
  by unfold_locales (rule mm_contract_segment)

section \<open>Properties\<close>

text \<open>
  C26. A lookup after a successful \<open>sm_put_ptrvalue\<close> returns the value just stored for the same
  key (keys are compared as C strings) and what was stored before for every other key.
\<close>

theorem sm_put_get:
  assumes "mm_contract mm" "strmap_wf sm"
    and "sm_put_ptrvalue mm n (Some sm) (Some k) (Some v) = Inr (r, m', n')" "r \<noteq> 0"
  shows "sm_get_ptrvalue m' (Some k') =
    (if c_str k' = c_str k then Inr (Some v) else sm_get_ptrvalue (Some sm) (Some k'))"
proof -
  from sm_put_ptrvalue_eq [OF assms(2,1), of n k v] assms(3,4)
  obtain sm' where "m' = Some sm'" "strmap_wf sm'" "strmap_abs sm' = (strmap_abs sm)(c_str k \<mapsto> v)"
    by auto
  with assms(2) show ?thesis by (simp add: sm_get_ptrvalue_eq)
qed

lemma segment_new:
  "\<exists>sm :: addr StrMap. sm_new mm_segment 0 2 = (Some sm, 2) \<and> strmap_wf sm \<and> strmap_abs sm = Map.empty"
proof -
  obtain sm :: "addr StrMap" and n where new: "sm_new mm_segment 0 2 = (Some sm, n)"
    by (simp add: sm_new_def mm_segment_def)
  from sm_new_eq [OF new] new show ?thesis by auto
qed

theorem sm_put_get_witness:
  "\<exists>(sm :: addr StrMap) m' n'. sm_new mm_segment 0 2 = (Some sm, 2) \<and>
     sm_put_ptrvalue mm_segment 2 (Some sm) (Some ''car7'') (Some 42) = Inr (1, m', n') \<and>
     sm_get_ptrvalue m' (Some ''car7'') = Inr (Some 42) \<and> sm_get_ptrvalue m' (Some ''car8'') = Inr None"
proof -
  obtain sm :: "addr StrMap" where sm: "sm_new mm_segment 0 2 = (Some sm, 2)" "strmap_wf sm" "strmap_abs sm = Map.empty"
    using segment_new by blast
  have len: "length (pairs b) = 0" if "b \<in> set (buckets sm)" for b
    using sm(1) that by (auto simp: sm_new_def mm_segment_def)
  have small: "length ''car7'' + 16 + 16 * sm_pairs sm \<le> MM_BUF_SIZE"
    using len by (simp add: sm_pairs_def cong: map_cong)
  obtain r m' n' where put: "sm_put_ptrvalue mm_segment 2 (Some sm) (Some ''car7'') (Some 42) = Inr (r, m', n')"
    and r: "r = 0 \<or> r = 1"
    using sm_put_ptrvalue_eq [OF sm(2) mm_contract_segment, of 2 "''car7''" 42] by blast
  have r1: "r = 1"
    using r put sm_put_ptrvalue_fail [OF sm(2), of mm_segment 2 "''car7''" "Some 42" m' n'] mm_segment_serves [OF small]
    by blast
  have "sm_get_ptrvalue (Some sm) (Some ''car8'') = Inr None" using sm by (simp add: sm_get_ptrvalue_eq)
  with sm(1) put r1 sm_put_get [OF mm_contract_segment sm(2) put, of "''car7''"]
    sm_put_get [OF mm_contract_segment sm(2) put, of "''car8''"]
  show ?thesis by (intro exI [of _ sm] exI [of _ m'] exI [of _ n']) (simp add: c_str_def)
qed

end
