(* ===== verification/Nla_Quadtree.thy ===== *)
theory Nla_Quadtree
  imports Nla_Geo Nla_Strmap
begin

text \<open>
  The shared data of the module and the functions of
  \<^verbatim>\<open>src/src/ngx_http_lookaround_handler.c\<close> that work on it: the quad tree of map nodes,
  whose leaves (level \<open>nMapMaxLevel\<close>) hold doubly linked lists of data nodes, and the id map.

  Memory is explicit: \<open>map_heap\<close> and \<open>data_heap\<close> give the structs at an address, a pointer is
  an address or \<open>None\<close> (\<open>NULL\<close>), following a null pointer is \<open>NullDeref\<close>. This matters: a data
  node is reached from the id map, from its leaf list and from its neighbours, and what the
  module does to an item that moves depends on that sharing. Recursion over the tree and the
  walk along a list follow pointers of an arbitrary heap, so both take fuel; running out is
  \<open>OutOfFuel\<close>, and the lemmas say how much is enough.

  The invariant of the tree and its preservation are in \<open>Nla_Tree_Inv\<close>, the search in
  \<open>Nla_Search\<close>, what happens to an item that moves in \<open>Nla_Move\<close>.
\<close>

section \<open>Data\<close>

record nla_data_node =
  data :: nla_data_item
  prev :: ptr
  nxt :: ptr
  p_map_node :: ptr

record nla_map_node =
  rc :: nla_rect
  ap_childs :: "ptr list"
  p_parent :: ptr
  i_level :: int
  p_data_node :: ptr
  i_item_count :: "32 word"

record nla_core_data =
  p_map_root :: ptr
  p_data_head :: ptr
  p_id2data_map :: "addr StrMap option"
  lock :: "64 word"

record nla_state =
  map_heap :: "addr \<Rightarrow> nla_map_node option"
  data_heap :: "addr \<Rightarrow> nla_data_node option"
  mm_calls :: nat
  g_pNLACoreData :: "nla_core_data option"

record ngx_http_lookaround_loc_conf =
  nMapMaxLevel :: int
  nMaxMemBufSize :: int
  nHashSize :: int

text \<open>The members of \<open>nla_ex_param\<close> the tree functions use: the configuration and the output buffer.\<close>

record nla_ex_param =
  p_conf :: "ngx_http_lookaround_loc_conf option"
  sz_json :: string
  json_size :: nat
  ex_count :: int

abbreviation (input) NLA_INVALID_TYPE :: int where "NLA_INVALID_TYPE \<equiv> - 1"
abbreviation (input) NLA_INVALID_STATUS :: int where "NLA_INVALID_STATUS \<equiv> - 1"

definition deref_conf :: "'a option \<Rightarrow> 'a c_result" where
  "deref_conf p = (case p of None \<Rightarrow> Inl NullDeref | Some v \<Rightarrow> Inr v)"

lemma deref_conf_simps [simp]:
  "deref_conf None = Inl NullDeref"
  "deref_conf (Some v) = Inr v"
  by (simp_all add: deref_conf_def)

definition set_map :: "nla_state \<Rightarrow> addr \<Rightarrow> nla_map_node \<Rightarrow> nla_state" where
  "set_map st a n = st\<lparr>map_heap := (map_heap st)(a \<mapsto> n)\<rparr>"

definition set_data :: "nla_state \<Rightarrow> addr \<Rightarrow> nla_data_node \<Rightarrow> nla_state" where
  "set_data st a n = st\<lparr>data_heap := (data_heap st)(a \<mapsto> n)\<rparr>"

section \<open>The tree\<close>

text \<open>
  The loop of \<open>ngx_http_lookaround_create_child_mapnode\<close>: child \<open>i\<close> is allocated (zeroed),
  hooked into the parent and given its level, parent and rectangle.
\<close>

fun create_childs :: "mm_oracle \<Rightarrow> nla_state \<Rightarrow> addr \<Rightarrow> nat \<Rightarrow> nat \<Rightarrow> nla_state c_result" where
  "create_childs mm st a i 0 = Inr st"
| "create_childs mm st a i (Suc n) =
     bindr (deref (map_heap st) (Some a)) (\<lambda>node.
       case mm (mm_calls st) 80 of
         None \<Rightarrow> Inl NullDeref
       | Some b \<Rightarrow>
           let child = \<lparr>rc = child_rc (rc node) i, ap_childs = replicate NLA_MAP_CHILD_COUNT None,
                 p_parent = Some a, i_level = wrap32 (i_level node + 1), p_data_node = None,
                 i_item_count = 0\<rparr>;
               st1 = st\<lparr>mm_calls := Suc (mm_calls st)\<rparr>;
               st2 = set_map (set_map st1 b child) a (node\<lparr>ap_childs := (ap_childs node)[i := Some b]\<rparr>)
           in create_childs mm st2 a (Suc i) n)"

definition ngx_http_lookaround_create_child_mapnode :: "mm_oracle \<Rightarrow> nla_state \<Rightarrow> addr \<Rightarrow> nla_state c_result" where
  "ngx_http_lookaround_create_child_mapnode mm st a =
     bindr (deref (map_heap st) (Some a)) (\<lambda>node.
       if ap_childs node ! 0 \<noteq> None then Inr st
       else create_childs mm st a 0 NLA_MAP_CHILD_COUNT)"

text \<open>The branch of \<open>adddatanode\<close> for a leaf: the node becomes the head of the list.\<close>

definition link_data_node :: "nla_state \<Rightarrow> addr \<Rightarrow> addr \<Rightarrow> nla_state c_result" where
  "link_data_node st a d =
     bindr (deref (map_heap st) (Some a)) (\<lambda>mnode.
     bindr (deref (data_heap st) (Some d)) (\<lambda>dnode.
       let st1 = set_data st d (dnode\<lparr>nxt := p_data_node mnode, prev := None, p_map_node := Some a\<rparr>) in
       bindr (case p_data_node mnode of
                None \<Rightarrow> Inr st1
              | Some h \<Rightarrow> bindr (deref (data_heap st1) (Some h)) (\<lambda>hnode. Inr (set_data st1 h (hnode\<lparr>prev := Some d\<rparr>))))
         (\<lambda>st2. Inr (set_map st2 a (mnode\<lparr>p_data_node := Some d\<rparr>)))))"

fun ngx_http_lookaround_adddatanode ::
    "nat \<Rightarrow> mm_oracle \<Rightarrow> ngx_http_lookaround_loc_conf option \<Rightarrow> nla_state \<Rightarrow> ptr \<Rightarrow> addr \<Rightarrow> nla_state c_result" where
  "ngx_http_lookaround_adddatanode 0 mm conf st pMapNode d = Inl OutOfFuel"
| "ngx_http_lookaround_adddatanode (Suc fuel) mm conf st pMapNode d =
     bindr (deref (map_heap st) pMapNode) (\<lambda>mnode.
       let a = the pMapNode; st1 = set_map st a (mnode\<lparr>i_item_count := i_item_count mnode + 1\<rparr>) in
       bindr (deref_conf conf) (\<lambda>cf.
         if i_level mnode \<ge> nMapMaxLevel cf then link_data_node st1 a d
         else
           bindr (if ap_childs mnode ! 0 = None then ngx_http_lookaround_create_child_mapnode mm st1 a else Inr st1) (\<lambda>st2.
           bindr (deref (data_heap st2) (Some d)) (\<lambda>dnode.
             let iChildIdx = fn_i_GetChildRcIdx (rc mnode) (loc (data dnode)) in
             if iChildIdx < 0 \<or> iChildIdx \<ge> int NLA_MAP_CHILD_COUNT then Inr st2
             else bindr (deref (map_heap st2) pMapNode) (\<lambda>mnode2.
               ngx_http_lookaround_adddatanode fuel mm conf st2 (ap_childs mnode2 ! nat iChildIdx) d)))))"

text \<open>
  \<open>ngx_http_lookaround_remove_datanode_from_map\<close>, with its first test as it is written:
  \<open>pMapNode == NULL || pDataNode\<close>.
\<close>

definition unlink_data_node :: "nla_state \<Rightarrow> addr \<Rightarrow> ptr \<Rightarrow> nla_state c_result" where
  "unlink_data_node st a pDataNode =
     bindr (deref (data_heap st) pDataNode) (\<lambda>dnode.
     bindr (case prev dnode of None \<Rightarrow> Inr st
            | Some p \<Rightarrow> bindr (deref (data_heap st) (Some p)) (\<lambda>pn. Inr (set_data st p (pn\<lparr>nxt := nxt dnode\<rparr>)))) (\<lambda>st1.
     bindr (deref (data_heap st1) pDataNode) (\<lambda>dnode1.
     bindr (case nxt dnode1 of None \<Rightarrow> Inr st1
            | Some q \<Rightarrow> bindr (deref (data_heap st1) (Some q)) (\<lambda>qn. Inr (set_data st1 q (qn\<lparr>prev := prev dnode1\<rparr>)))) (\<lambda>st2.
     bindr (deref (map_heap st2) (Some a)) (\<lambda>mnode.
     bindr (deref (data_heap st2) pDataNode) (\<lambda>dnode2.
     bindr (if pDataNode = p_data_node mnode then
              (let st3 = set_map st2 a (mnode\<lparr>p_data_node := nxt dnode2\<rparr>) in
               case nxt dnode2 of None \<Rightarrow> Inr st3
               | Some q \<Rightarrow> bindr (deref (data_heap st3) (Some q)) (\<lambda>qn. Inr (set_data st3 q (qn\<lparr>prev := None\<rparr>))))
            else Inr st2) (\<lambda>st4.
     bindr (deref (data_heap st4) pDataNode) (\<lambda>dnode4.
       Inr (set_data st4 (the pDataNode) (dnode4\<lparr>nxt := None, prev := None\<rparr>))))))))))"

fun ngx_http_lookaround_remove_datanode_from_map ::
    "nat \<Rightarrow> ngx_http_lookaround_loc_conf option \<Rightarrow> nla_state \<Rightarrow> ptr \<Rightarrow> ptr \<Rightarrow> nla_state c_result" where
  "ngx_http_lookaround_remove_datanode_from_map 0 conf st pMapNode pDataNode = Inl OutOfFuel"
| "ngx_http_lookaround_remove_datanode_from_map (Suc fuel) conf st pMapNode pDataNode =
     (if pMapNode = None \<or> pDataNode \<noteq> None then Inr st
      else bindr (deref (map_heap st) pMapNode) (\<lambda>mnode.
        if i_item_count mnode = 0 then Inr st
        else
          let a = the pMapNode; st1 = set_map st a (mnode\<lparr>i_item_count := i_item_count mnode - 1\<rparr>) in
          bindr (deref_conf conf) (\<lambda>cf.
            if nMapMaxLevel cf \<le> i_level mnode then unlink_data_node st1 a pDataNode
            else bindr (deref (data_heap st1) pDataNode) (\<lambda>dnode.
              let iChildIdx = fn_i_GetChildRcIdx (rc mnode) (loc (data dnode)) in
              if iChildIdx < 0 \<or> iChildIdx \<ge> int NLA_MAP_CHILD_COUNT then Inr st1
              else ngx_http_lookaround_remove_datanode_from_map fuel conf st1
                     (ap_childs mnode ! nat iChildIdx) pDataNode))))"


text \<open>
  The search. \<open>put_json\<close> is the body of the loop over a leaf list for an item that passes
  the tests: the item is printed at \<open>p_sz_json\<close>, followed by a comma and a NUL.
\<close>

definition put_json :: "nla_ex_param \<Rightarrow> nla_data_item \<Rightarrow> nla_ex_param c_result" where
  "put_json ex it =
     bindr (fn_v_FormatDataItem it) (\<lambda>s.
       if length (sz_json ex) + length s + 2 > json_size ex then Inl BufferOverflow
       else Inr (ex\<lparr>sz_json := sz_json ex @ s @ '','', ex_count := wrap32 (ex_count ex + 1)\<rparr>))"

definition item_selected :: "int \<Rightarrow> int \<Rightarrow> nla_rect \<Rightarrow> nla_data_item \<Rightarrow> bool" where
  "item_selected iStatus iType pRC it \<longleftrightarrow>
     (iType = NLA_INVALID_TYPE \<or> iType = i_type it) \<and>
     (iStatus = NLA_INVALID_STATUS \<or> iStatus = i_status it) \<and>
     fn_b_IsLocInRC pRC (loc it)"

fun get_around_list ::
    "nat \<Rightarrow> nla_state \<Rightarrow> ptr \<Rightarrow> nla_rect \<Rightarrow> int \<Rightarrow> int \<Rightarrow> int \<Rightarrow> nla_ex_param \<Rightarrow> nla_ex_param c_result" where
  "get_around_list 0 st p pRC iStatus iType iMaxCount ex = Inl OutOfFuel"
| "get_around_list (Suc fuel) st p pRC iStatus iType iMaxCount ex =
     (if ex_count ex < iMaxCount \<and> p \<noteq> None then
        bindr (deref (data_heap st) p) (\<lambda>dnode.
        bindr (if item_selected iStatus iType pRC (data dnode) then put_json ex (data dnode) else Inr ex)
          (\<lambda>ex'. get_around_list fuel st (nxt dnode) pRC iStatus iType iMaxCount ex'))
      else Inr ex)"

fun ngx_http_lookaround_get_around_data ::
    "nat \<Rightarrow> nat \<Rightarrow> nla_state \<Rightarrow> ptr \<Rightarrow> nla_rect \<Rightarrow> int \<Rightarrow> int \<Rightarrow> int \<Rightarrow> nla_ex_param \<Rightarrow> nla_ex_param c_result" where
  "ngx_http_lookaround_get_around_data lfuel 0 st pMapNode pRC iStatus iType iMaxCount ex = Inl OutOfFuel"
| "ngx_http_lookaround_get_around_data lfuel (Suc fuel) st pMapNode pRC iStatus iType iMaxCount ex =
     (if pMapNode = None then Inr ex
      else bindr (deref (map_heap st) pMapNode) (\<lambda>mnode.
        if i_item_count mnode = 0 then Inr ex
        else bindr (deref_conf (p_conf ex)) (\<lambda>cf.
          if nMapMaxLevel cf \<le> i_level mnode then
            get_around_list lfuel st (p_data_node mnode) pRC iStatus iType iMaxCount ex
          else if ap_childs mnode ! 0 = None \<or> i_item_count mnode = 0 then Inr ex
          else foldl (\<lambda>r i. bindr r (\<lambda>ex'.
                 bindr (deref (map_heap st) (ap_childs mnode ! i)) (\<lambda>child.
                   case fn_b_IntersectRc (rc child) pRC of
                     None \<Rightarrow> Inr ex'
                   | Some new_rc \<Rightarrow> ngx_http_lookaround_get_around_data lfuel fuel st (ap_childs mnode ! i)
                        new_rc iStatus iType iMaxCount ex')))
               (Inr ex) [0..<NLA_MAP_CHILD_COUNT])))"

section \<open>Items\<close>

definition ngx_http_lookaround_getdatanode :: "nla_state \<Rightarrow> string \<Rightarrow> ptr c_result" where
  "ngx_http_lookaround_getdatanode st pcszID =
     (case g_pNLACoreData st of
        None \<Rightarrow> Inr None
      | Some core \<Rightarrow>
          (case p_id2data_map core of
             None \<Rightarrow> Inr None
           | Some m \<Rightarrow> sm_get_ptrvalue (Some m) (Some pcszID)))"

text \<open>\<open>ngx_spinlock (&g_pNLACoreData->lock, 1, \<dots>)\<close> run by a single process, and the release.\<close>

definition nla_lock :: "nla_state \<Rightarrow> nla_state c_result" where
  "nla_lock st =
     (case g_pNLACoreData st of None \<Rightarrow> Inl NullDeref
      | Some core \<Rightarrow> if lock core = 0 then Inr (st\<lparr>g_pNLACoreData := Some (core\<lparr>lock := 1\<rparr>)\<rparr>) else Inl Blocked)"

definition nla_unlock :: "nla_state \<Rightarrow> nla_state c_result" where
  "nla_unlock st =
     (case g_pNLACoreData st of None \<Rightarrow> Inl NullDeref
      | Some core \<Rightarrow> Inr (st\<lparr>g_pNLACoreData := Some (core\<lparr>lock := 0\<rparr>)\<rparr>))"

definition root_of :: "nla_state \<Rightarrow> ptr c_result" where
  "root_of st = (case g_pNLACoreData st of None \<Rightarrow> Inl NullDeref | Some core \<Rightarrow> Inr (p_map_root core))"

text \<open>\<open>sm_put_ptrvalue (g_pNLACoreData->p_id2data_map, pcszID, pDataNode)\<close>; its result is not looked at.\<close>

definition put_id :: "mm_oracle \<Rightarrow> nla_state \<Rightarrow> string \<Rightarrow> addr \<Rightarrow> nla_state c_result" where
  "put_id mm st pcszID d =
     (case g_pNLACoreData st of None \<Rightarrow> Inl NullDeref
      | Some core \<Rightarrow>
          bindr (sm_put_ptrvalue mm (mm_calls st) (p_id2data_map core) (Some pcszID) (Some d))
            (\<lambda>(r, m', n'). Inr (st\<lparr>mm_calls := n', g_pNLACoreData := Some (core\<lparr>p_id2data_map := m'\<rparr>)\<rparr>)))"

text \<open>The branch of \<open>ngx_http_lookaround_setdataloc\<close> for an id that has no node yet.\<close>

definition create_data_node ::
    "nat \<Rightarrow> mm_oracle \<Rightarrow> ngx_http_lookaround_loc_conf option \<Rightarrow> nla_state \<Rightarrow> string \<Rightarrow> nla_2dloc \<Rightarrow> int \<Rightarrow> int
     \<Rightarrow> (nla_state \<times> addr) c_result" where
  "create_data_node fuel mm conf st pcszID pLoc iStatus iType =
     (case mm (mm_calls st) 80 of
        None \<Rightarrow> Inl NullDeref
      | Some d \<Rightarrow>
          if length pcszID \<ge> NLA_DATA_ID_MAX_LEN then Inl BufferOverflow
          else
            let item = \<lparr>ach_id = pcszID, i_status = iStatus, i_type = iType, loc = pLoc, last_update_time = 0\<rparr>;
                st1 = set_data (st\<lparr>mm_calls := Suc (mm_calls st)\<rparr>) d
                        \<lparr>data = item, prev = None, nxt = None, p_map_node = None\<rparr>
            in bindr (nla_lock st1) (\<lambda>st2.
               bindr (put_id mm st2 pcszID d) (\<lambda>st3.
               bindr (root_of st3) (\<lambda>rt.
               bindr (ngx_http_lookaround_adddatanode fuel mm conf st3 rt d) (\<lambda>st4.
               bindr (nla_unlock st4) (\<lambda>st5. Inr (st5, d)))))))"

definition set_loc :: "nla_state \<Rightarrow> addr \<Rightarrow> nla_2dloc \<Rightarrow> nla_state c_result" where
  "set_loc st d pLoc =
     bindr (deref (data_heap st) (Some d)) (\<lambda>dnode. Inr (set_data st d (dnode\<lparr>data := (data dnode)\<lparr>loc := pLoc\<rparr>\<rparr>)))"

text \<open>The branch for an item that is known: it stays in its leaf or is removed and added again.\<close>

definition move_data_node ::
    "nat \<Rightarrow> mm_oracle \<Rightarrow> ngx_http_lookaround_loc_conf option \<Rightarrow> nla_state \<Rightarrow> addr \<Rightarrow> nla_2dloc \<Rightarrow> nla_state c_result" where
  "move_data_node fuel mm conf st d pLoc =
     bindr (deref (data_heap st) (Some d)) (\<lambda>dnode.
     bindr (deref (map_heap st) (p_map_node dnode)) (\<lambda>mnode.
       if fn_b_IsLocInRC (rc mnode) pLoc then set_loc st d pLoc
       else
         bindr (nla_lock st) (\<lambda>st1.
         bindr (root_of st1) (\<lambda>rt.
         bindr (ngx_http_lookaround_remove_datanode_from_map fuel conf st1 rt (Some d)) (\<lambda>st2.
         bindr (set_loc st2 d pLoc) (\<lambda>st3.
         bindr (ngx_http_lookaround_adddatanode fuel mm conf st3 rt d) (\<lambda>st4.
           nla_unlock st4)))))))"

definition ngx_http_lookaround_setdataloc ::
    "nat \<Rightarrow> mm_oracle \<Rightarrow> int \<Rightarrow> ngx_http_lookaround_loc_conf option \<Rightarrow> nla_state \<Rightarrow> string \<Rightarrow> nla_2dloc \<Rightarrow> int \<Rightarrow> int
     \<Rightarrow> nla_state c_result" where
  "ngx_http_lookaround_setdataloc fuel mm now conf st pcszID pLoc iStatus iType =
     bindr (ngx_http_lookaround_getdatanode st pcszID) (\<lambda>pDataNode.
     bindr (case pDataNode of
              None \<Rightarrow> create_data_node fuel mm conf st pcszID pLoc iStatus iType
            | Some d \<Rightarrow> bindr (move_data_node fuel mm conf st d pLoc) (\<lambda>st'. Inr (st', d)))
       (\<lambda>(st1, d).
          bindr (deref (data_heap st1) (Some d)) (\<lambda>dnode.
            Inr (set_data st1 d (dnode\<lparr>data := (data dnode)\<lparr>last_update_time := now\<rparr>\<rparr>)))))"

section \<open>Initialisation\<close>

text \<open>
  \<open>fn_v_InitCoreData\<close>; the root node is zeroed memory with the root rectangle
  (\<open>fn_v_InitRootMapNode\<close>).
\<close>

definition fn_v_InitRootMapNode :: "nla_map_node \<Rightarrow> nla_map_node" where
  "fn_v_InitRootMapNode n = n\<lparr>rc := fn_v_InitRootRect\<rparr>"

definition zero_map_node :: nla_map_node where
  "zero_map_node = \<lparr>rc = \<lparr>lt = \<lparr>lat = 0, lon = 0\<rparr>, rb = \<lparr>lat = 0, lon = 0\<rparr>\<rparr>,
     ap_childs = replicate NLA_MAP_CHILD_COUNT None, p_parent = None, i_level = 0, p_data_node = None,
     i_item_count = 0\<rparr>"

definition fn_v_InitCoreData :: "mm_oracle \<Rightarrow> nla_state \<Rightarrow> nla_core_data \<Rightarrow> int \<Rightarrow> nla_state c_result" where
  "fn_v_InitCoreData mm st pCoreData iHashSize =
     (case mm (mm_calls st) 80 of
        None \<Rightarrow> Inl NullDeref
      | Some a \<Rightarrow>
          let st1 = set_map (st\<lparr>mm_calls := Suc (mm_calls st)\<rparr>) a (fn_v_InitRootMapNode zero_map_node) in
          case sm_new mm (mm_calls st1) (of_int iHashSize) of
            (m, n') \<Rightarrow> Inr (st1\<lparr>mm_calls := n',
               g_pNLACoreData := Some (pCoreData\<lparr>p_map_root := Some a, p_data_head := None, p_id2data_map := m\<rparr>)\<rparr>))"

end
