(* ===== verification/Nla_Tree_Inv.thy ===== *)
theory Nla_Tree_Inv
  imports Nla_Quadtree
begin

text \<open>
  The invariant \<open>nla_wf\<close> of the shared data as long as no item has left the leaf it was put
  in: the map nodes form a tree whose rectangles split each parent, every leaf list is a proper
  doubly linked list of exactly the nodes that say they live there, a node with item count 0 has
  nothing below it, every id of the id map leads to the node that carries it, and addresses in
  use were handed out by the allocator. Creating an item and moving it inside its leaf keep it
  (\<open>create_data_node_wf\<close>, \<open>update_item_wf\<close>), and with enough fuel creating never runs out.
\<close>

section \<open>Leaf lists\<close>

text \<open>
  \<open>chain h a pr p ds\<close>: from pointer \<open>p\<close> the \<open>next\<close> links run through exactly the nodes \<open>ds\<close>,
  the \<open>prev\<close> links run back to \<open>pr\<close>, and every node says that it lives in map node \<open>a\<close>.
\<close>

primrec chain :: "(addr \<Rightarrow> nla_data_node option) \<Rightarrow> addr \<Rightarrow> ptr \<Rightarrow> ptr \<Rightarrow> addr list \<Rightarrow> bool" where
  "chain h a pr p [] \<longleftrightarrow> p = None"
| "chain h a pr p (d # ds) \<longleftrightarrow>
     p = Some d \<and> (\<exists>dn. h d = Some dn \<and> prev dn = pr \<and> p_map_node dn = Some a \<and> chain h a (Some d) (nxt dn) ds)"

lemma chain_None [simp]: "chain h a pr None ds \<longleftrightarrow> ds = []"
  by (cases ds) auto

lemma chain_Some_ne: "chain h a pr (Some d) ds \<Longrightarrow> \<exists>ds'. ds = d # ds'"
  by (cases ds) auto

lemma chain_member: "chain h a pr p ds \<Longrightarrow> d \<in> set ds \<Longrightarrow> \<exists>dn. h d = Some dn \<and> p_map_node dn = Some a"
  by (induction ds arbitrary: pr p) auto

lemma chain_cong: "(\<And>d. d \<in> set ds \<Longrightarrow> h' d = h d) \<Longrightarrow> chain h' a pr p ds = chain h a pr p ds"
  by (induction ds arbitrary: pr p) auto

lemma chain_other_leaf:
  assumes "chain h a pr p ds" and "\<And>d. h' d \<noteq> h d \<Longrightarrow> (\<forall>dn. h d = Some dn \<longrightarrow> p_map_node dn \<noteq> Some a)"
  shows "chain h' a pr p ds"
proof -
  have "h' d = h d" if "d \<in> set ds" for d
    using chain_member [OF assms(1) that] assms(2) [of d] by fastforce
  with assms(1) show ?thesis by (simp cong: chain_cong)
qed

lemma chain_unique: "chain h a pr p ds \<Longrightarrow> chain h a pr' p ds' \<Longrightarrow> ds = ds'"
proof (induction ds arbitrary: pr pr' p ds')
  case Nil
  then show ?case by simp
next
  case (Cons d ds)
  then obtain es where "ds' = d # es" by (auto dest: chain_Some_ne)
  with Cons show ?case by auto
qed

lemma chain_append_tail:
  "chain h a pr p (xs @ ys) \<Longrightarrow> \<exists>pr' q. chain h a pr' q ys \<and> (ys \<noteq> [] \<longrightarrow> q = Some (hd ys))"
proof (induction xs arbitrary: pr p)
  case Nil
  then show ?case by (cases ys) auto
next
  case (Cons x xs)
  then show ?case by auto
qed

text \<open>A list that ends is not circular.\<close>

lemma chain_distinct: "chain h a pr p ds \<Longrightarrow> distinct ds"
proof (induction ds arbitrary: pr p)
  case Nil
  then show ?case by simp
next
  case (Cons d ds)
  then obtain dn where tl: "h d = Some dn" "chain h a (Some d) (nxt dn) ds" by auto
  have "d \<notin> set ds"
  proof
    assume "d \<in> set ds"
    then obtain xs ys where ds: "ds = xs @ d # ys" by (auto simp: in_set_conv_decomp)
    from chain_append_tail [OF tl(2) [unfolded ds]] obtain pr' where "chain h a pr' (Some d) (d # ys)"
      by auto
    with tl(1) have "chain h a (Some d) (nxt dn) ys" by auto
    with tl(2) have "ys = ds" by (metis chain_unique)
    with ds have "length ys = length xs + Suc (length ys)" by simp
    then show False by simp
  qed
  with Cons.IH [OF tl(2)] show ?case by simp
qed

text \<open>A node from no list becomes the head.\<close>

lemma chain_push:
  assumes "chain h a None p ds" "d \<notin> set ds"
    and "h' d = Some dn" "nxt dn = p" "prev dn = None" "p_map_node dn = Some a"
    and "\<And>x. x \<in> set ds \<Longrightarrow> p = Some x \<Longrightarrow> h' x = map_option (\<lambda>n. n\<lparr>prev := Some d\<rparr>) (h x)"
    and "\<And>x. x \<in> set ds \<Longrightarrow> p \<noteq> Some x \<Longrightarrow> h' x = h x"
  shows "chain h' a None (Some d) (d # ds)"
proof (cases ds)
  case Nil
  with assms show ?thesis by auto
next
  case (Cons e es)
  with assms(1) obtain en where e: "p = Some e" "h e = Some en" "p_map_node en = Some a"
    "chain h a (Some e) (nxt en) es" by auto
  have "e \<notin> set es" using chain_distinct [OF assms(1)] Cons by simp
  then have "chain h' a (Some e) (nxt en) es"
    using e(4) assms(8) Cons e(1) by (subst chain_cong [where h = h]) auto
  moreover have "h' e = Some (en\<lparr>prev := Some d\<rparr>)" using assms(7) [of e] Cons e by simp
  ultimately show ?thesis using assms(3-6) e Cons by auto
qed

section \<open>The invariant\<close>

definition child_ok :: "nla_state \<Rightarrow> addr \<Rightarrow> nla_map_node \<Rightarrow> nat \<Rightarrow> bool" where
  "child_ok st a n i \<longleftrightarrow>
     (\<exists>b m. ap_childs n ! i = Some b \<and> map_heap st b = Some m \<and> i_level m = i_level n + 1 \<and>
       rc m = child_rc (rc n) i \<and> p_parent m = Some a \<and> (i_item_count m \<noteq> 0 \<longrightarrow> i_item_count n \<noteq> 0))"

definition inner_ok :: "nla_state \<Rightarrow> addr \<Rightarrow> nla_map_node \<Rightarrow> bool" where
  "inner_ok st a n \<longleftrightarrow> p_data_node n = None \<and>
     (ap_childs n = replicate NLA_MAP_CHILD_COUNT None \<or>
      distinct (ap_childs n) \<and> (\<forall>i < NLA_MAP_CHILD_COUNT. child_ok st a n i))"

definition residents :: "nla_state \<Rightarrow> addr \<Rightarrow> addr set" where
  "residents st a = {d. \<exists>dn. data_heap st d = Some dn \<and> p_map_node dn = Some a}"

definition leaf_ok :: "nla_state \<Rightarrow> addr \<Rightarrow> nla_map_node \<Rightarrow> bool" where
  "leaf_ok st a n \<longleftrightarrow> ap_childs n = replicate NLA_MAP_CHILD_COUNT None \<and>
     (\<exists>ds. chain (data_heap st) a None (p_data_node n) ds \<and> set ds = residents st a) \<and>
     (p_data_node n \<noteq> None \<longrightarrow> i_item_count n \<noteq> 0)"

definition parent_ok :: "nla_state \<Rightarrow> addr \<Rightarrow> nla_map_node \<Rightarrow> bool" where
  "parent_ok st a n \<longleftrightarrow>
     (\<exists>p m i. p_parent n = Some p \<and> map_heap st p = Some m \<and> i < NLA_MAP_CHILD_COUNT \<and> ap_childs m ! i = Some a)"

definition node_ok :: "int \<Rightarrow> nla_state \<Rightarrow> addr \<Rightarrow> addr \<Rightarrow> nla_map_node \<Rightarrow> bool" where
  "node_ok L st rt a n \<longleftrightarrow>
     length (ap_childs n) = NLA_MAP_CHILD_COUNT \<and> rect_ok (rc n) \<and> 0 \<le> i_level n \<and>
     (if a = rt then i_level n = 0 \<and> p_parent n = None \<and> rc n = fn_v_InitRootRect
      else 0 < i_level n \<and> i_level n \<le> L \<and> parent_ok st a n) \<and>
     unat (i_item_count n) \<le> mm_calls st \<and>
     (if i_level n < L then inner_ok st a n else leaf_ok st a n)"

definition item_ok :: "nla_data_item \<Rightarrow> bool" where
  "item_ok it \<longleftrightarrow> length (ach_id it) < NLA_DATA_ID_MAX_LEN \<and> NUL \<notin> set (ach_id it) \<and>
     is_int32 (i_status it) \<and> is_int32 (i_type it) \<and> is_int64 (last_update_time it)"

definition data_ok :: "int \<Rightarrow> nla_state \<Rightarrow> nla_data_node \<Rightarrow> bool" where
  "data_ok L st dn \<longleftrightarrow> item_ok (data dn) \<and>
     (case p_map_node dn of None \<Rightarrow> True
      | Some a \<Rightarrow> (\<exists>n. map_heap st a = Some n \<and> L \<le> i_level n \<and>
          (0 < i_level n \<longrightarrow> fn_b_IsLocInRC (rc n) (loc (data dn)))))"

definition mem_ok :: "mm_oracle \<Rightarrow> nla_state \<Rightarrow> bool" where
  "mem_ok mm st \<longleftrightarrow>
     (\<forall>a. map_heap st a \<noteq> None \<or> data_heap st a \<noteq> None \<longrightarrow> (\<exists>j < mm_calls st. \<exists>n. mm j n = Some a))"

definition tree_wf :: "int \<Rightarrow> mm_oracle \<Rightarrow> nla_state \<Rightarrow> addr \<Rightarrow> bool" where
  "tree_wf L mm st rt \<longleftrightarrow> map_heap st rt \<noteq> None \<and>
     (\<forall>a n. map_heap st a = Some n \<longrightarrow> node_ok L st rt a n) \<and>
     (\<forall>d dn. data_heap st d = Some dn \<longrightarrow> data_ok L st dn) \<and> mem_ok mm st"

definition ids_wf :: "nla_state \<Rightarrow> bool" where
  "ids_wf st \<longleftrightarrow> (\<exists>core sm. g_pNLACoreData st = Some core \<and> p_id2data_map core = Some sm \<and> strmap_wf sm \<and>
     (\<forall>k d. strmap_abs sm k = Some d \<longrightarrow> (\<exists>dn. data_heap st d = Some dn \<and> ach_id (data dn) = k)))"

definition nla_wf :: "int \<Rightarrow> mm_oracle \<Rightarrow> nla_state \<Rightarrow> bool" where
  "nla_wf L mm st \<longleftrightarrow> ids_wf st \<and> (\<exists>core rt. g_pNLACoreData st = Some core \<and> lock core = 0 \<and>
     p_map_root core = Some rt \<and> tree_wf L mm st rt)"


lemmas tree_defs = node_ok_def inner_ok_def child_ok_def leaf_ok_def parent_ok_def

lemma set_map_simps [simp]:
  "map_heap (set_map st a n) = (map_heap st)(a \<mapsto> n)"
  "data_heap (set_map st a n) = data_heap st"
  "mm_calls (set_map st a n) = mm_calls st"
  "g_pNLACoreData (set_map st a n) = g_pNLACoreData st"
  by (simp_all add: set_map_def)

lemma set_data_simps [simp]:
  "map_heap (set_data st d n) = map_heap st"
  "data_heap (set_data st d n) = (data_heap st)(d \<mapsto> n)"
  "mm_calls (set_data st d n) = mm_calls st"
  "g_pNLACoreData (set_data st d n) = g_pNLACoreData st"
  by (simp_all add: set_data_def)

lemma residents_alt: "residents st a = {d. map_option p_map_node (data_heap st d) = Some (Some a)}"
  by (auto simp: residents_def)

lemma residents_set_map [simp]: "residents (set_map st a n) x = residents st x"
  by (simp add: residents_def)

lemma tree_wf_node: "tree_wf L mm st rt \<Longrightarrow> map_heap st a = Some n \<Longrightarrow> node_ok L st rt a n"
  by (simp add: tree_wf_def)

lemma tree_wf_data: "tree_wf L mm st rt \<Longrightarrow> data_heap st d = Some dn \<Longrightarrow> data_ok L st dn"
  by (simp add: tree_wf_def)

text \<open>An address that MM hands out next is not in use.\<close>

lemma mem_ok_fresh:
  assumes "mem_ok mm st" "mm_contract mm" "mm k n = Some a" "mm_calls st \<le> k"
  shows "map_heap st a = None \<and> data_heap st a = None"
proof (rule ccontr)
  assume "\<not> ?thesis"
  with assms(1) obtain j m where "j < mm_calls st" "mm j m = Some a" by (auto simp: mem_ok_def)
  with assms(2,3) have "j = k" unfolding mm_contract_def by blast
  with \<open>j < mm_calls st\<close> assms(4) show False by simp
qed

lemma childs_none_nth: "ap_childs n = replicate NLA_MAP_CHILD_COUNT None \<Longrightarrow> i < NLA_MAP_CHILD_COUNT \<Longrightarrow> ap_childs n ! i = None"
  by simp

text \<open>A child pointer of a well formed node has exactly one owner.\<close>

lemma child_of_unique:
  assumes "tree_wf L mm st rt" "map_heap st p = Some m" "i < NLA_MAP_CHILD_COUNT" "ap_childs m ! i = Some b"
  shows "i_level m < L" and "\<exists>n. map_heap st b = Some n \<and> p_parent n = Some p \<and> i_level n = i_level m + 1
    \<and> rc n = child_rc (rc m) i \<and> (i_item_count n \<noteq> 0 \<longrightarrow> i_item_count m \<noteq> 0)"
    and "b \<noteq> rt"
proof -
  from assms have ok: "node_ok L st rt p m" by (simp add: tree_wf_node)
  with assms(3,4) show lt: "i_level m < L"
    by (auto simp: tree_defs split: if_splits)
  with ok assms(3,4) have "child_ok st p m i" by (auto simp: node_ok_def inner_ok_def)
  with assms(4) show ex: "\<exists>n. map_heap st b = Some n \<and> p_parent n = Some p \<and> i_level n = i_level m + 1
    \<and> rc n = child_rc (rc m) i \<and> (i_item_count n \<noteq> 0 \<longrightarrow> i_item_count m \<noteq> 0)"
    by (auto simp: child_ok_def)
  show "b \<noteq> rt"
    using ex tree_wf_node [OF assms(1), of b] by (auto simp: node_ok_def)
qed

section \<open>Counting an item in\<close>

text \<open>\<open>unbumped st l\<close>: below level \<open>l\<close> no counter has used up the allocation of the new item.\<close>

definition unbumped :: "nla_state \<Rightarrow> int \<Rightarrow> bool" where
  "unbumped st l \<longleftrightarrow> (\<forall>x m. map_heap st x = Some m \<longrightarrow> l \<le> i_level m \<longrightarrow> unat (i_item_count m) < mm_calls st)"

definition owners_counted :: "nla_state \<Rightarrow> addr \<Rightarrow> bool" where
  "owners_counted st a \<longleftrightarrow>
     (\<forall>p m i. map_heap st p = Some m \<longrightarrow> i < NLA_MAP_CHILD_COUNT \<longrightarrow> ap_childs m ! i = Some a \<longrightarrow> i_item_count m \<noteq> 0)"

lemma count_succ:
  fixes c :: "32 word"
  assumes "unat c < k" "k < 2 ^ 32"
  shows "unat (c + 1) = unat c + 1" "c + 1 \<noteq> 0"
proof -
  show u: "unat (c + 1) = unat c + 1" using assms by (simp add: unat_word_ariths)
  show "c + 1 \<noteq> 0" using u by (metis add_is_0 unat_0 zero_neq_one)
qed

lemma child_ok_frame:
  assumes "child_ok st x m i"
    and "\<And>b mb. ap_childs m ! i = Some b \<Longrightarrow> map_heap st b = Some mb \<Longrightarrow>
      \<exists>mb'. map_heap st' b = Some mb' \<and> i_level mb' = i_level mb \<and> rc mb' = rc mb \<and>
        p_parent mb' = p_parent mb \<and> (i_item_count mb' = i_item_count mb \<or> i_item_count m \<noteq> 0)"
  shows "child_ok st' x m i"
proof -
  from assms(1) obtain b mb where b: "ap_childs m ! i = Some b" "map_heap st b = Some mb"
      "i_level mb = i_level m + 1" "rc mb = child_rc (rc m) i" "p_parent mb = Some x"
      "i_item_count mb \<noteq> 0 \<longrightarrow> i_item_count m \<noteq> 0"
    by (auto simp: child_ok_def)
  from assms(2) [OF b(1,2)] obtain mb' where "map_heap st' b = Some mb'" "i_level mb' = i_level mb"
    "rc mb' = rc mb" "p_parent mb' = p_parent mb" "i_item_count mb' = i_item_count mb \<or> i_item_count m \<noteq> 0"
    by blast
  with b show ?thesis unfolding child_ok_def by (intro exI [of _ b] exI [of _ mb']) auto
qed

lemma inner_ok_frame:
  assumes "inner_ok st x m" "\<And>i. i < NLA_MAP_CHILD_COUNT \<Longrightarrow> child_ok st x m i \<Longrightarrow> child_ok st' x m i"
  shows "inner_ok st' x m"
  using assms by (auto simp: inner_ok_def)

lemma parent_ok_frame:
  assumes "parent_ok st x m"
    and "\<And>p mp. map_heap st p = Some mp \<Longrightarrow> \<exists>mp'. map_heap st' p = Some mp' \<and>
      (\<forall>i < NLA_MAP_CHILD_COUNT. ap_childs mp ! i = Some x \<longrightarrow> ap_childs mp' ! i = Some x)"
  shows "parent_ok st' x m"
  using assms unfolding parent_ok_def by meson

text \<open>
  A step keeps the nodes when each of them stays where it is with its level, rectangle, parent, counter
  and children; then what the invariant says of the others still holds.
\<close>

definition keeps :: "nla_state \<Rightarrow> nla_state \<Rightarrow> bool" where
  "keeps st st' \<longleftrightarrow> (\<forall>x m. map_heap st x = Some m \<longrightarrow>
     (\<exists>m'. map_heap st' x = Some m' \<and> i_level m' = i_level m \<and> rc m' = rc m \<and> p_parent m' = p_parent m \<and>
        i_item_count m' = i_item_count m \<and> (\<forall>i < NLA_MAP_CHILD_COUNT. \<forall>y. ap_childs m ! i = Some y \<longrightarrow> ap_childs m' ! i = Some y)))"

lemma keepsD:
  assumes "keeps st st'" "map_heap st x = Some m"
  obtains m' where "map_heap st' x = Some m'" "i_level m' = i_level m" "rc m' = rc m" "p_parent m' = p_parent m"
    "i_item_count m' = i_item_count m" "\<And>i y. i < NLA_MAP_CHILD_COUNT \<Longrightarrow> ap_childs m ! i = Some y \<Longrightarrow> ap_childs m' ! i = Some y"
  using assms unfolding keeps_def by blast

lemma keeps_parent: "keeps st st' \<Longrightarrow> parent_ok st x m \<Longrightarrow> parent_ok st' x m"
  by (erule parent_ok_frame) (meson keepsD)

lemma keeps_inner: "keeps st st' \<Longrightarrow> inner_ok st x m \<Longrightarrow> inner_ok st' x m"
  by (erule inner_ok_frame, erule child_ok_frame) (meson keepsD)

lemma keeps_data:
  assumes "keeps st st'" "data_ok L st dn"
  shows "data_ok L st' dn"
proof (cases "p_map_node dn")
  case None
  with assms(2) show ?thesis by (simp add: data_ok_def)
next
  case (Some x)
  with assms(2) obtain m where m: "item_ok (data dn)" "map_heap st x = Some m" "L \<le> i_level m"
    "0 < i_level m \<longrightarrow> fn_b_IsLocInRC (rc m) (loc (data dn))" by (auto simp: data_ok_def)
  from keepsD [OF assms(1) m(2)] obtain m' where "map_heap st' x = Some m'" "i_level m' = i_level m" "rc m' = rc m" .
  with m Some show ?thesis by (auto simp: data_ok_def)
qed

lemma keeps_root: "keeps st st' \<Longrightarrow> map_heap st rt \<noteq> None \<Longrightarrow> map_heap st' rt \<noteq> None"
  by (auto elim: keepsD)

lemma keeps_node:
  assumes "keeps st st'" "node_ok L st rt x m" "mm_calls st \<le> mm_calls st'" "leaf_ok st x m \<Longrightarrow> leaf_ok st' x m"
  shows "node_ok L st' rt x m"
  using assms keeps_parent [OF assms(1), of x m] keeps_inner [OF assms(1), of x m]
  by (auto simp: node_ok_def split: if_splits)

lemma bump_node_self:
  assumes ok: "node_ok L st rt a n" and a: "map_heap st a = Some n" and lt: "unat (i_item_count n) < mm_calls st" "mm_calls st < 2 ^ 32"
  shows "node_ok L (set_map st a (n\<lparr>i_item_count := i_item_count n + 1\<rparr>)) rt a (n\<lparr>i_item_count := i_item_count n + 1\<rparr>)"
    (is "node_ok L ?st rt a ?n")
proof -
  note c = count_succ [OF lt]
  have parent: "parent_ok ?st a ?n" if "parent_ok st a n"
  proof -
    have "parent_ok ?st a n" by (rule parent_ok_frame [OF that]) (use a in auto)
    then show ?thesis by (simp add: parent_ok_def)
  qed
  have "child_ok ?st a ?n i" if "child_ok st a n i" for i
  proof -
    from that obtain b m' where b: "ap_childs n ! i = Some b" "map_heap st b = Some m'"
      "i_level m' = i_level n + 1" "rc m' = child_rc (rc n) i" "p_parent m' = Some a"
      by (auto simp: child_ok_def)
    with a have "b \<noteq> a" by auto
    with b c(2) show ?thesis by (auto simp: child_ok_def)
  qed
  then have inner: "inner_ok ?st a ?n" if "inner_ok st a n" using that by (auto simp: inner_ok_def)
  have leaf: "leaf_ok ?st a ?n" if "leaf_ok st a n" using that c by (auto simp: leaf_ok_def)
  show ?thesis using ok parent inner leaf lt c(1) by (auto simp: node_ok_def split: if_splits)
qed

lemma bump_node_other:
  assumes ok: "node_ok L st rt x m" and x: "map_heap st x = Some m" and a: "map_heap st a = Some n" and own: "owners_counted st a"
  shows "node_ok L (set_map st a (n\<lparr>i_item_count := i_item_count n + 1\<rparr>)) rt x m" (is "node_ok L ?st rt x m")
proof -
  have parent: "parent_ok ?st x m" if "parent_ok st x m" by (rule parent_ok_frame [OF that]) (use a in auto)
  have inner: "inner_ok ?st x m" if "inner_ok st x m"
  proof (rule inner_ok_frame [OF that], erule child_ok_frame)
    fix i b mb
    assume "i < NLA_MAP_CHILD_COUNT" "ap_childs m ! i = Some b" "map_heap st b = Some mb"
    with a x own show "\<exists>mb'. map_heap ?st b = Some mb' \<and> i_level mb' = i_level mb \<and> rc mb' = rc mb \<and>
      p_parent mb' = p_parent mb \<and> (i_item_count mb' = i_item_count mb \<or> i_item_count m \<noteq> 0)"
      by (cases "b = a") (auto simp: owners_counted_def)
  qed
  show ?thesis using ok parent inner by (auto simp: node_ok_def leaf_ok_def split: if_splits)
qed

lemma bump_wf:
  assumes wf: "tree_wf L mm st rt" and a: "map_heap st a = Some n"
    and lt: "unat (i_item_count n) < mm_calls st" "mm_calls st < 2 ^ 32"
    and own: "owners_counted st a"
  shows "tree_wf L mm (set_map st a (n\<lparr>i_item_count := i_item_count n + 1\<rparr>)) rt" (is "tree_wf L mm ?st rt")
proof -
  have "node_ok L ?st rt x m" if "map_heap ?st x = Some m" for x m
    using that bump_node_self [OF tree_wf_node [OF wf a] a lt] bump_node_other [OF tree_wf_node [OF wf, of x m] _ a own]
    by (cases "x = a") auto
  moreover have "data_ok L ?st dn" if "data_heap ?st d = Some dn" for d dn
    using tree_wf_data [OF wf, of d dn] that a by (auto simp: data_ok_def split: option.splits)
  moreover have "mem_ok mm ?st" using wf a by (auto simp: tree_wf_def mem_ok_def)
  ultimately show ?thesis using wf by (auto simp: tree_wf_def)
qed


section \<open>Splitting a node\<close>

definition new_child :: "nla_map_node \<Rightarrow> addr \<Rightarrow> nat \<Rightarrow> nla_map_node" where
  "new_child n a i = \<lparr>rc = child_rc (rc n) i, ap_childs = replicate NLA_MAP_CHILD_COUNT None,
     p_parent = Some a, i_level = wrap32 (i_level n + 1), p_data_node = None, i_item_count = 0\<rparr>"

text \<open>What the four turns of the loop amount to.\<close>

definition split_state :: "nla_state \<Rightarrow> addr \<Rightarrow> nla_map_node \<Rightarrow> addr list \<Rightarrow> nla_state" where
  "split_state st a n bs = st\<lparr>mm_calls := mm_calls st + 4,
     map_heap := (map_heap st)(bs ! 0 \<mapsto> new_child n a 0, bs ! 1 \<mapsto> new_child n a 1,
       bs ! 2 \<mapsto> new_child n a 2, bs ! 3 \<mapsto> new_child n a 3,
       a \<mapsto> n\<lparr>ap_childs := map Some bs\<rparr>)\<rparr>"

lemma create_childs_4:
  assumes "mm (mm_calls st) 80 = Some b0" "mm (mm_calls st + 1) 80 = Some b1"
    "mm (mm_calls st + 2) 80 = Some b2" "mm (mm_calls st + 3) 80 = Some b3"
    and "map_heap st a = Some n" "ap_childs n = replicate NLA_MAP_CHILD_COUNT None"
    and "distinct [a, b0, b1, b2, b3]"
  shows "create_childs mm st a 0 NLA_MAP_CHILD_COUNT = Inr (split_state st a n [b0, b1, b2, b3])"
proof -
  have four: "create_childs mm st a 0 4 = create_childs mm st a 0 (Suc (Suc (Suc (Suc 0))))"
    by (simp add: eval_nat_numeral)
  have none: "ap_childs n = [None, None, None, None]"
    using assms(6) by (simp add: eval_nat_numeral)
  have calls: "mm (Suc (mm_calls st)) 80 = Some b1" "mm (Suc (Suc (mm_calls st))) 80 = Some b2"
    "mm (Suc (Suc (Suc (mm_calls st)))) 80 = Some b3"
    using assms(2-4) by (simp_all add: numeral_2_eq_2 numeral_3_eq_3)
  have plus4: "mm_calls st + 4 = Suc (Suc (Suc (Suc (mm_calls st))))" by simp
  show ?thesis
    unfolding four using assms(7)
    by (simp add: assms(1,5) calls Let_def set_map_def split_state_def new_child_def none plus4
        numeral_2_eq_2 numeral_3_eq_3)
qed

text \<open>The four blocks MM has handed out for the children.\<close>

definition fresh_childs :: "mm_oracle \<Rightarrow> nla_state \<Rightarrow> addr list \<Rightarrow> bool" where
  "fresh_childs mm st bs \<longleftrightarrow> length bs = NLA_MAP_CHILD_COUNT \<and> distinct bs \<and> (\<forall>i < NLA_MAP_CHILD_COUNT.
     mm (mm_calls st + i) 80 = Some (bs ! i) \<and> map_heap st (bs ! i) = None \<and> data_heap st (bs ! i) = None)"

lemma create_childs_split:
  assumes mm: "mm_contract mm" and mem: "mem_ok mm st" and a: "map_heap st a = Some n"
    and none: "ap_childs n = replicate NLA_MAP_CHILD_COUNT None"
  shows "create_childs mm st a 0 NLA_MAP_CHILD_COUNT = Inl NullDeref \<and> mm_refuses mm (mm_calls st) 80 \<or>
    (\<exists>bs. create_childs mm st a 0 NLA_MAP_CHILD_COUNT = Inr (split_state st a n bs) \<and> fresh_childs mm st bs)"
proof (cases "\<exists>i < 4. mm (mm_calls st + i) 80 = None")
  case True
  then have ex: "mm_refuses mm (mm_calls st) 80" unfolding mm_refuses_def by (meson le_add1 order_refl)
  have four: "(4::nat) = Suc (Suc (Suc (Suc 0)))" by simp
  from True consider "mm (mm_calls st) 80 = None" | "mm (Suc (mm_calls st)) 80 = None"
    | "mm (Suc (Suc (mm_calls st))) 80 = None" | "mm (Suc (Suc (Suc (mm_calls st)))) 80 = None"
    unfolding four by (auto simp: less_Suc_eq)
  then have "create_childs mm st a 0 4 = Inl NullDeref"
    by cases (auto simp: four a Let_def split: option.splits)
  with ex show ?thesis by simp
next
  case False
  define bs where "bs = map (\<lambda>i. the (mm (mm_calls st + i) 80)) [0..<4]"
  have b: "mm (mm_calls st + i) 80 = Some (bs ! i)" if "i < 4" for i
    using False that unfolding bs_def by (auto simp: nth_append)
  have fresh: "map_heap st (bs ! i) = None \<and> data_heap st (bs ! i) = None" if "i < 4" for i
    using mem_ok_fresh [OF mem mm b [OF that]] by simp
  have dist: "bs ! i \<noteq> bs ! j" if "i < 4" "j < 4" "i \<noteq> j" for i j
    using b [OF that(1)] b [OF that(2)] that(3) mm unfolding mm_contract_def
    by (metis add_left_cancel)
  have len: "length bs = 4" by (simp add: bs_def)
  have ba: "bs ! i \<noteq> a" if "i < 4" for i using fresh [OF that] a by auto
  have bs4: "bs = [bs ! 0, bs ! 1, bs ! 2, bs ! 3]"
    by (simp add: bs_def upt_rec)
  have "create_childs mm st a 0 4 = Inr (split_state st a n [bs ! 0, bs ! 1, bs ! 2, bs ! 3])"
    by (rule create_childs_4) (use b [of 0] b [of 1] b [of 2] b [of 3] ba [of 0] ba [of 1] ba [of 2] ba [of 3] dist a none in auto)
  then have "create_childs mm st a 0 4 = Inr (split_state st a n bs)" using bs4 by simp
  moreover have "distinct bs" using dist len by (simp add: distinct_conv_nth)
  ultimately show ?thesis using b fresh len by (auto simp: fresh_childs_def)
qed


lemma split_state_simps [simp]:
  "data_heap (split_state st a n bs) = data_heap st"
  "mm_calls (split_state st a n bs) = mm_calls st + 4"
  "g_pNLACoreData (split_state st a n bs) = g_pNLACoreData st"
  "residents (split_state st a n bs) x = residents st x"
  by (simp_all add: split_state_def residents_def)

lemma split_state_heap:
  assumes "length bs = 4" "distinct bs" "a \<notin> set bs"
  shows "map_heap (split_state st a n bs) a = Some (n\<lparr>ap_childs := map Some bs\<rparr>)"
    and "\<And>i. i < 4 \<Longrightarrow> map_heap (split_state st a n bs) (bs ! i) = Some (new_child n a i)"
    and "\<And>x. x \<noteq> a \<Longrightarrow> x \<notin> set bs \<Longrightarrow> map_heap (split_state st a n bs) x = map_heap st x"
proof -
  show "map_heap (split_state st a n bs) a = Some (n\<lparr>ap_childs := map Some bs\<rparr>)"
    by (simp add: split_state_def)
  have mem: "bs ! i \<in> set bs" if "i < 4" for i using that assms(1) by simp
  have ne: "bs ! i \<noteq> bs ! j" if "i < 4" "j < 4" "i \<noteq> j" for i j
    using assms that by (simp add: nth_eq_iff_index_eq)
  show "map_heap (split_state st a n bs) (bs ! i) = Some (new_child n a i)" if "i < 4" for i
  proof -
    from that consider "i = 0" | "i = 1" | "i = 2" | "i = 3" by linarith
    then show ?thesis
      using mem [OF that] assms(3) ne [of 0 1] ne [of 0 2] ne [of 0 3] ne [of 1 2] ne [of 1 3] ne [of 2 3]
      by cases (auto simp: split_state_def)
  qed
  show "map_heap (split_state st a n bs) x = map_heap st x" if "x \<noteq> a" "x \<notin> set bs" for x
    using that mem [of 0] mem [of 1] mem [of 2] mem [of 3] by (auto simp: split_state_def)
qed

lemma fresh_childs_new: "fresh_childs mm st bs \<Longrightarrow> b \<in> set bs \<Longrightarrow> map_heap st b = None"
  by (metis fresh_childs_def in_set_conv_nth)

lemma fresh_childs_heap:
  assumes "fresh_childs mm st bs" "map_heap st a = Some n"
  shows "a \<notin> set bs" "map_heap (split_state st a n bs) a = Some (n\<lparr>ap_childs := map Some bs\<rparr>)"
    and "\<And>i. i < 4 \<Longrightarrow> map_heap (split_state st a n bs) (bs ! i) = Some (new_child n a i)"
    and "\<And>x. x \<noteq> a \<Longrightarrow> x \<notin> set bs \<Longrightarrow> map_heap (split_state st a n bs) x = map_heap st x"
proof -
  have bs: "length bs = 4" "distinct bs" using assms(1) by (simp_all add: fresh_childs_def)
  show a: "a \<notin> set bs" using fresh_childs_new [OF assms(1)] assms(2) by force
  note heap = split_state_heap [OF bs a]
  show "map_heap (split_state st a n bs) a = Some (n\<lparr>ap_childs := map Some bs\<rparr>)" by (rule heap(1))
  show "\<And>i. i < 4 \<Longrightarrow> map_heap (split_state st a n bs) (bs ! i) = Some (new_child n a i)" by (rule heap(2))
  show "\<And>x. x \<noteq> a \<Longrightarrow> x \<notin> set bs \<Longrightarrow> map_heap (split_state st a n bs) x = map_heap st x" by (rule heap(3))
qed

lemma split_keeps:
  assumes "fresh_childs mm st bs" "map_heap st a = Some n" "ap_childs n = replicate NLA_MAP_CHILD_COUNT None"
  shows "keeps st (split_state st a n bs)"
  unfolding keeps_def
proof (intro allI impI)
  fix x m assume "map_heap st x = Some m"
  then show "\<exists>m'. map_heap (split_state st a n bs) x = Some m' \<and> i_level m' = i_level m \<and> rc m' = rc m \<and> p_parent m' = p_parent m \<and>
      i_item_count m' = i_item_count m \<and> (\<forall>i < 4. \<forall>y. ap_childs m ! i = Some y \<longrightarrow> ap_childs m' ! i = Some y)"
    using fresh_childs_heap(2) [OF assms(1,2)] fresh_childs_heap(4) [OF assms(1,2), of x] fresh_childs_new [OF assms(1), of x] assms(2,3)
    by (cases "x = a") auto
qed

lemma split_level:
  assumes "tree_wf L mm st rt" "map_heap st a = Some n" "i_level n < L" "is_int32 L"
  shows "wrap32 (i_level n + 1) = i_level n + 1"
  using tree_wf_node [OF assms(1,2)] assms(3,4) by (intro wrap32_id) (auto simp: node_ok_def is_int32_def)

lemma split_new_node:
  assumes wf: "tree_wf L mm st rt" and a: "map_heap st a = Some n" and lt: "i_level n < L" "is_int32 L"
    and fresh: "fresh_childs mm st bs" and i: "i < 4"
  shows "node_ok L (split_state st a n bs) rt (bs ! i) (new_child n a i)"
proof -
  let ?x = "bs ! i"
  have x: "?x \<in> set bs" using fresh i by (simp add: fresh_childs_def)
  have "?x \<noteq> rt" using fresh_childs_new [OF fresh x] wf by (auto simp: tree_wf_def)
  moreover have "parent_ok (split_state st a n bs) ?x (new_child n a i)"
    unfolding parent_ok_def using fresh_childs_heap(2) [OF fresh a] i fresh
    by (intro exI [of _ a] exI [of _ "n\<lparr>ap_childs := map Some bs\<rparr>"] exI [of _ i]) (auto simp: new_child_def fresh_childs_def)
  moreover have "residents st ?x = {}"
  proof -
    have "map_heap st ?x \<noteq> None" if "data_heap st d = Some dn" "p_map_node dn = Some ?x" for d dn
      using tree_wf_data [OF wf that(1)] that(2) by (auto simp: data_ok_def)
    with fresh_childs_new [OF fresh x] show ?thesis by (fastforce simp: residents_def)
  qed
  ultimately show ?thesis
    using tree_wf_node [OF wf a] lt child_rc_ok [of "rc n" i] i
    by (auto simp: node_ok_def new_child_def split_level [OF wf a lt] inner_ok_def leaf_ok_def)
qed

lemma split_parent_node:
  assumes wf: "tree_wf L mm st rt" and a: "map_heap st a = Some n" and none: "ap_childs n = replicate NLA_MAP_CHILD_COUNT None"
    and lt: "i_level n < L" "is_int32 L" and fresh: "fresh_childs mm st bs"
  shows "node_ok L (split_state st a n bs) rt a (n\<lparr>ap_childs := map Some bs\<rparr>)" (is "node_ok L ?st rt a ?n")
proof -
  have ok: "node_ok L st rt a n" using wf a by (simp add: tree_wf_node)
  have bs: "length bs = 4" "distinct bs" using fresh by (simp_all add: fresh_childs_def)
  have "child_ok ?st a ?n i" if "i < 4" for i
    using fresh_childs_heap(3) [OF fresh a that] that bs(1) unfolding child_ok_def
    by (intro exI [of _ "bs ! i"] exI [of _ "new_child n a i"]) (auto simp: new_child_def split_level [OF wf a lt])
  moreover have "distinct (map Some bs)" using bs(2) by (simp add: distinct_map)
  ultimately have "inner_ok ?st a ?n" using ok lt by (auto simp: node_ok_def inner_ok_def)
  moreover have "parent_ok ?st a ?n" if "parent_ok st a n"
    using keeps_parent [OF split_keeps [OF fresh a none] that] by (simp add: parent_ok_def)
  ultimately show ?thesis using ok lt bs(1) by (auto simp: node_ok_def split: if_splits)
qed

lemma split_mem:
  assumes mem: "mem_ok mm st" and a: "map_heap st a = Some n" and fresh: "fresh_childs mm st bs"
  shows "mem_ok mm (split_state st a n bs)"
  unfolding mem_ok_def
proof (intro allI impI)
  let ?st = "split_state st a n bs"
  fix x assume used: "map_heap ?st x \<noteq> None \<or> data_heap ?st x \<noteq> None"
  have "x \<in> set bs \<or> map_heap st x \<noteq> None \<or> data_heap st x \<noteq> None"
  proof (cases "x \<in> set bs \<or> x = a")
    case False
    then show ?thesis using fresh_childs_heap(4) [OF fresh a, of x] used by simp
  qed (use a in auto)
  then consider "x \<in> set bs" | "map_heap st x \<noteq> None \<or> data_heap st x \<noteq> None" by blast
  then show "\<exists>j < mm_calls ?st. \<exists>n. mm j n = Some x"
  proof cases
    case 1
    then obtain i where "i < 4" "mm (mm_calls st + i) 80 = Some x" using fresh by (metis fresh_childs_def in_set_conv_nth)
    then show ?thesis by (intro exI [of _ "mm_calls st + i"]) auto
  next
    case 2
    with mem obtain j m where "j < mm_calls st" "mm j m = Some x" by (auto simp: mem_ok_def)
    then show ?thesis by (intro exI [of _ j]) auto
  qed
qed

lemma split_wf:
  assumes wf: "tree_wf L mm st rt" and a: "map_heap st a = Some n" and none: "ap_childs n = replicate NLA_MAP_CHILD_COUNT None"
    and lt: "i_level n < L" "is_int32 L" and fresh: "fresh_childs mm st bs"
  shows "tree_wf L mm (split_state st a n bs) rt"
proof -
  let ?st = "split_state st a n bs"
  note heap = fresh_childs_heap [OF fresh a] and keeps = split_keeps [OF fresh a none]
  have node: "node_ok L ?st rt x m" if x: "map_heap ?st x = Some m" for x m
  proof -
    consider i where "i < 4" "x = bs ! i" | "x = a" | "x \<notin> set bs" "x \<noteq> a"
      using fresh by (metis fresh_childs_def in_set_conv_nth)
    then show ?thesis
    proof cases
      case 1
      with x heap(3) have "m = new_child n a i" by simp
      with 1 split_new_node [OF wf a lt fresh] show ?thesis by simp
    next
      case 2
      with x heap(2) split_parent_node [OF wf a none lt fresh] show ?thesis by simp
    next
      case 3
      with x heap(4) have "node_ok L st rt x m" using tree_wf_node [OF wf] by simp
      then show ?thesis by (rule keeps_node [OF keeps]) (auto simp: leaf_ok_def)
    qed
  qed
  moreover have "data_ok L ?st dn" if "data_heap ?st d = Some dn" for d dn
    using keeps_data [OF keeps tree_wf_data [OF wf]] that by simp
  moreover have "mem_ok mm ?st" using split_mem [OF _ a fresh] wf by (simp add: tree_wf_def)
  ultimately show ?thesis using keeps_root [OF keeps] wf unfolding tree_wf_def by blast
qed


section \<open>Linking an item into a leaf\<close>

text \<open>\<open>set_data\<close> on nodes of one leaf leaves every other leaf list alone.\<close>

text \<open>What linking does: \<open>d\<close> becomes the head of the list of \<open>a\<close>.\<close>

definition linked :: "nla_state \<Rightarrow> addr \<Rightarrow> nla_map_node \<Rightarrow> addr \<Rightarrow> nla_data_node \<Rightarrow> nla_state \<Rightarrow> bool" where
  "linked st a n d dn st' \<longleftrightarrow> map_heap st' = (map_heap st)(a \<mapsto> n\<lparr>p_data_node := Some d\<rparr>) \<and>
     mm_calls st' = mm_calls st \<and> g_pNLACoreData st' = g_pNLACoreData st \<and>
     data_heap st' d = Some (dn\<lparr>nxt := p_data_node n, prev := None, p_map_node := Some a\<rparr>) \<and>
     (\<forall>x. x \<noteq> d \<longrightarrow> data_heap st' x =
       (if p_data_node n = Some x then map_option (\<lambda>m. m\<lparr>prev := Some d\<rparr>) (data_heap st x) else data_heap st x))"

lemma link_data_node_eq:
  assumes "map_heap st a = Some n" "data_heap st d = Some dn"
    and "chain (data_heap st) a None (p_data_node n) ds" "d \<notin> set ds"
  shows "\<exists>st'. link_data_node st a d = Inr st' \<and> linked st a n d dn st' \<and> chain (data_heap st') a None (Some d) (d # ds)"
proof (cases "p_data_node n")
  case None
  then have "ds = []" using assms(3) by simp
  then show ?thesis using assms(1,2) None by (auto simp: link_data_node_def linked_def Let_def)
next
  case (Some h)
  with assms(3) obtain es where ds: "ds = h # es" by (auto dest: chain_Some_ne)
  with assms(3) Some obtain hn where hn: "data_heap st h = Some hn" by auto
  have hd: "h \<noteq> d" using assms(4) ds by auto
  let ?dn = "dn\<lparr>nxt := p_data_node n, prev := None, p_map_node := Some a\<rparr>"
  let ?h' = "(data_heap st)(d \<mapsto> ?dn, h \<mapsto> hn\<lparr>prev := Some d\<rparr>)"
  have "chain ?h' a None (Some d) (d # ds)"
  proof (rule chain_push [OF assms(3,4)])
    show "?h' d = Some ?dn" using hd by simp
  next
    fix x assume "x \<in> set ds" "p_data_node n = Some x"
    then show "?h' x = map_option (\<lambda>m. m\<lparr>prev := Some d\<rparr>) (data_heap st x)" using Some hn by simp
  next
    fix x assume "x \<in> set ds" "p_data_node n \<noteq> Some x"
    then show "?h' x = data_heap st x" using Some assms(4) by auto
  qed simp_all
  with Some hn hd assms(1,2) show ?thesis
    by (auto simp: link_data_node_def linked_def Let_def)
qed

lemma linked_frame:
  assumes "linked st a n d dn st'" "data_heap st d = Some dn"
  shows "map_option data (data_heap st' x) = map_option data (data_heap st x)"
    and "x \<noteq> d \<Longrightarrow> map_option p_map_node (data_heap st' x) = map_option p_map_node (data_heap st x)"
    and "map_option p_map_node (data_heap st' d) = Some (Some a)"
proof -
  show "map_option data (data_heap st' x) = map_option data (data_heap st x)"
    using assms by (cases "x = d") (auto simp: linked_def option.map_comp comp_def)
  show "x \<noteq> d \<Longrightarrow> map_option p_map_node (data_heap st' x) = map_option p_map_node (data_heap st x)"
    using assms by (auto simp: linked_def option.map_comp comp_def)
  show "map_option p_map_node (data_heap st' d) = Some (Some a)" using assms by (simp add: linked_def)
qed

lemma linked_keeps: "linked st a n d dn st' \<Longrightarrow> map_heap st a = Some n \<Longrightarrow> keeps st st'"
  by (auto simp: linked_def keeps_def)

lemma linked_residents:
  assumes "linked st a n d dn st'" "data_heap st d = Some dn" "p_map_node dn = None"
  shows "residents st' x = (if x = a then insert d (residents st x) else residents st x)"
proof -
  have "y \<in> residents st' x \<longleftrightarrow> (y \<in> residents st x \<or> x = a \<and> y = d)" for y
  proof (cases "y = d")
    case True
    with assms show ?thesis by (auto simp: residents_alt linked_def)
  next
    case False
    with linked_frame(2) [OF assms(1,2) False] show ?thesis by (simp add: residents_alt del: map_option_eq_Some)
  qed
  then show ?thesis by auto
qed

lemma linked_leaf:
  assumes l: "linked st a n d dn st'" and d: "data_heap st d = Some dn" "p_map_node dn = None" and n: "leaf_ok st a n"
    and x: "x \<noteq> a" "leaf_ok st x m"
  shows "leaf_ok st' x m"
proof -
  from x(2) obtain es where es: "chain (data_heap st) x None (p_data_node m) es" "set es = residents st x" by (auto simp: leaf_ok_def)
  from n obtain ds where ds: "chain (data_heap st) a None (p_data_node n) ds" "set ds = residents st a" by (auto simp: leaf_ok_def)
  have "chain (data_heap st') x None (p_data_node m) es"
  proof (rule chain_other_leaf [OF es(1)])
    fix y assume "data_heap st' y \<noteq> data_heap st y"
    then consider "y = d" | "p_data_node n = Some y" using l by (cases "y = d") (auto simp: linked_def split: if_splits)
    then show "\<forall>yn. data_heap st y = Some yn \<longrightarrow> p_map_node yn \<noteq> Some x"
    proof cases
      case 2
      with ds(1) have "y \<in> set ds" by (auto dest: chain_Some_ne)
      with ds(2) x(1) show ?thesis by (auto simp: residents_def)
    qed (use d in simp)
  qed
  with x es(2) linked_residents [OF l d, of x] show ?thesis by (auto simp: leaf_ok_def)
qed

lemma linked_data:
  assumes wf: "tree_wf L mm st rt" and l: "linked st a n d dn st'" and a: "map_heap st a = Some n" and d: "data_heap st d = Some dn"
    and leaf: "L \<le> i_level n" and inside: "0 < i_level n \<longrightarrow> fn_b_IsLocInRC (rc n) (loc (data dn))"
    and y: "data_heap st' y = Some yn"
  shows "data_ok L st' yn"
proof (cases "y = d")
  case True
  with y l leaf inside tree_wf_data [OF wf d] show ?thesis by (auto simp: data_ok_def linked_def)
next
  case False
  obtain yo where yo: "data_heap st y = Some yo" "data yn = data yo" "p_map_node yn = p_map_node yo"
    using y linked_frame(1) [OF l d, of y] linked_frame(2) [OF l d False] by (cases "data_heap st y") auto
  from keeps_data [OF linked_keeps [OF l a] tree_wf_data [OF wf yo(1)]] show ?thesis unfolding data_ok_def yo(2,3) .
qed

lemma linked_mem:
  assumes "mem_ok mm st" "linked st a n d dn st'" "map_heap st a = Some n" "data_heap st d = Some dn"
  shows "mem_ok mm st'"
proof -
  have "data_heap st x \<noteq> None" if "data_heap st' x \<noteq> None" for x
    using that linked_frame(1) [OF assms(2,4), of x] by (cases "data_heap st x") auto
  with assms show ?thesis by (auto simp: mem_ok_def linked_def split: if_splits)
qed

lemma link_wf:
  assumes wf: "tree_wf L mm st rt" and a: "map_heap st a = Some n" and d: "data_heap st d = Some dn"
    and leaf: "L \<le> i_level n" and cnt: "i_item_count n \<noteq> 0" and new: "p_map_node dn = None"
    and inside: "0 < i_level n \<longrightarrow> fn_b_IsLocInRC (rc n) (loc (data dn))"
  shows "\<exists>st'. link_data_node st a d = Inr st' \<and> tree_wf L mm st' rt \<and> linked st a n d dn st'"
proof -
  from wf a leaf have ok: "node_ok L st rt a n" and lok: "leaf_ok st a n" by (auto simp: node_ok_def dest: tree_wf_node)
  from lok obtain ds where ch: "chain (data_heap st) a None (p_data_node n) ds" and res: "set ds = residents st a"
    by (auto simp: leaf_ok_def)
  have "d \<notin> set ds" using res d new by (auto simp: residents_def)
  from link_data_node_eq [OF a d ch this] obtain st' where st': "link_data_node st a d = Inr st'" and l: "linked st a n d dn st'"
    and ch': "chain (data_heap st') a None (Some d) (d # ds)" by blast
  note keeps = linked_keeps [OF l a] and res' = linked_residents [OF l d new]
  have mh: "map_heap st' = (map_heap st)(a \<mapsto> n\<lparr>p_data_node := Some d\<rparr>)" and calls: "mm_calls st' = mm_calls st"
    using l by (simp_all add: linked_def)
  have "leaf_ok st' a (n\<lparr>p_data_node := Some d\<rparr>)"
    using lok cnt ch' res res' [of a] unfolding leaf_ok_def by (intro conjI exI [of _ "d # ds"]) (simp_all del: chain.simps)
  moreover have "parent_ok st' a (n\<lparr>p_data_node := Some d\<rparr>)" if "parent_ok st a n"
    using keeps_parent [OF keeps that] by (simp add: parent_ok_def)
  ultimately have self: "node_ok L st' rt a (n\<lparr>p_data_node := Some d\<rparr>)"
    using ok leaf calls by (auto simp: node_ok_def split: if_splits)
  have "node_ok L st' rt x m" if "map_heap st' x = Some m" for x m
  proof (cases "x = a")
    case False
    with that have "node_ok L st rt x m" using tree_wf_node [OF wf] by (simp add: mh)
    then show ?thesis using linked_leaf [OF l d new lok False] calls by (intro keeps_node [OF keeps]) simp_all
  qed (use that self mh in simp)
  moreover have "mem_ok mm st'" using linked_mem [OF _ l a d] wf by (simp add: tree_wf_def)
  ultimately have "tree_wf L mm st' rt"
    using linked_data [OF wf l a d leaf inside] keeps_root [OF keeps] wf unfolding tree_wf_def by blast
  with st' l show ?thesis by blast
qed


section \<open>Adding an item\<close>

lemma split_unbumped:
  assumes "fresh_childs mm st bs" "map_heap st a = Some n" "unbumped st (i_level n + 1)"
  shows "unbumped (split_state st a n bs) (i_level n + 1)"
  unfolding unbumped_def
proof (intro allI impI)
  note heap = fresh_childs_heap [OF assms(1,2)]
  fix x m assume x: "map_heap (split_state st a n bs) x = Some m" "i_level n + 1 \<le> i_level m"
  then have "x \<noteq> a" using heap(2) by auto
  show "unat (i_item_count m) < mm_calls (split_state st a n bs)"
  proof (cases "x \<in> set bs")
    case True
    then obtain i where "i < 4" "x = bs ! i" using assms(1) by (auto simp: in_set_conv_nth fresh_childs_def)
    with heap(3) x show ?thesis by (auto simp: new_child_def)
  next
    case False
    with heap(4) [OF \<open>x \<noteq> a\<close>] x assms(3) show ?thesis by (fastforce simp: unbumped_def)
  qed
qed

text \<open>An inner node that has been reached has its four children, or gets them.\<close>

definition expanded :: "int \<Rightarrow> mm_oracle \<Rightarrow> addr \<Rightarrow> nla_state \<Rightarrow> addr \<Rightarrow> nla_map_node \<Rightarrow> nla_state \<Rightarrow> nla_map_node \<Rightarrow> bool" where
  "expanded L mm rt st a n st' n' \<longleftrightarrow> tree_wf L mm st' rt \<and> map_heap st' a = Some n' \<and> rc n' = rc n \<and>
     i_level n' = i_level n \<and> i_item_count n' \<noteq> 0 \<and> (\<forall>i < NLA_MAP_CHILD_COUNT. child_ok st' a n' i) \<and>
     unbumped st' (i_level n + 1) \<and> mm_calls st \<le> mm_calls st' \<and> mm_calls st' \<le> mm_calls st + 4 \<and>
     data_heap st' = data_heap st \<and> g_pNLACoreData st' = g_pNLACoreData st"

lemma expand_wf:
  assumes mm: "mm_contract mm" and L: "is_int32 L" and wf: "tree_wf L mm st rt"
    and a: "map_heap st a = Some n" and lt: "i_level n < L" and cnt: "i_item_count n \<noteq> 0"
    and unb: "unbumped st (i_level n + 1)"
  defines "r \<equiv> (if ap_childs n ! 0 = None then ngx_http_lookaround_create_child_mapnode mm st a else Inr st)"
  shows "r = Inl NullDeref \<and> mm_refuses mm (mm_calls st) 80 \<or>
    (\<exists>st' n'. r = Inr st' \<and> expanded L mm rt st a n st' n')"
proof -
  have inner: "inner_ok st a n" using tree_wf_node [OF wf a] lt by (simp add: node_ok_def)
  show ?thesis
  proof (cases "ap_childs n ! 0 = None")
    case False
    with inner have "\<forall>i < NLA_MAP_CHILD_COUNT. child_ok st a n i" by (auto simp: inner_ok_def)
    moreover from False have "r = Inr st" unfolding r_def by (rule if_not_P)
    ultimately show ?thesis using wf a cnt unb by (intro disjI2 exI [of _ st] exI [of _ n]) (simp add: expanded_def)
  next
    case True
    then have none: "ap_childs n = replicate NLA_MAP_CHILD_COUNT None"
      using inner by (fastforce simp: inner_ok_def child_ok_def dest: spec [of _ 0])
    from wf have mem: "mem_ok mm st" by (simp add: tree_wf_def)
    have r: "r = create_childs mm st a 0 NLA_MAP_CHILD_COUNT"
      using True a by (simp add: r_def ngx_http_lookaround_create_child_mapnode_def)
    from create_childs_split [OF mm mem a none] consider "create_childs mm st a 0 NLA_MAP_CHILD_COUNT = Inl NullDeref"
        "mm_refuses mm (mm_calls st) 80"
      | bs where "create_childs mm st a 0 NLA_MAP_CHILD_COUNT = Inr (split_state st a n bs)" "fresh_childs mm st bs" by blast
    then show ?thesis
    proof cases
      case (2 bs)
      let ?st = "split_state st a n bs" let ?n = "n\<lparr>ap_childs := map Some bs\<rparr>"
      have wf': "tree_wf L mm ?st rt" by (rule split_wf [OF wf a none lt L 2(2)])
      note heap = fresh_childs_heap [OF 2(2) a]
      from tree_wf_node [OF wf' heap(2)] lt have "inner_ok ?st a ?n" by (simp add: node_ok_def)
      moreover have "map Some bs \<noteq> replicate NLA_MAP_CHILD_COUNT None"
        using 2(2) nth_map [of 0 bs Some] by (metis fresh_childs_def nth_replicate option.distinct(1) zero_less_numeral)
      ultimately have "\<forall>i < NLA_MAP_CHILD_COUNT. child_ok ?st a ?n i" by (simp add: inner_ok_def)
      then show ?thesis using wf' heap(2) cnt 2(1) split_unbumped [OF 2(2) a unb]
        by (intro disjI2 exI [of _ ?st] exI [of _ ?n]) (simp add: r expanded_def)
    qed (simp add: r)
  qed
qed

text \<open>The child that a location inside the node belongs to.\<close>

lemma expanded_child:
  assumes ex: "expanded L mm rt st a n st' n'" and ok: "rect_ok (rc n)" and p: "fn_b_IsLocInRC (rc n) p"
  obtains i b m where "fn_i_GetChildRcIdx (rc n) p = int i" "i < NLA_MAP_CHILD_COUNT" "ap_childs n' ! i = Some b"
    "map_heap st' b = Some m" "i_level m = i_level n + 1" "fn_b_IsLocInRC (rc m) p" "owners_counted st' b"
proof -
  define i where "i = nat (fn_i_GetChildRcIdx (rc n) p)"
  from quad.index_inside [OF ok p] have idx: "fn_i_GetChildRcIdx (rc n) p = int i" "i < 4" by (auto simp: i_def)
  have wf: "tree_wf L mm st' rt" and a: "map_heap st' a = Some n'" and cnt: "i_item_count n' \<noteq> 0"
    using ex by (simp_all add: expanded_def)
  from ex idx(2) have "child_ok st' a n' i" "rc n' = rc n" "i_level n' = i_level n" by (simp_all add: expanded_def)
  then obtain b m where b: "ap_childs n' ! i = Some b" "map_heap st' b = Some m"
    "i_level m = i_level n + 1" "rc m = child_rc (rc n) i" "p_parent m = Some a"
    by (auto simp: child_ok_def)
  have "fn_b_IsLocInRC (rc m) p" using b(4) p idx child_rc_contains [OF ok idx(2)] by simp
  moreover have "owners_counted st' b"
    unfolding owners_counted_def
  proof (intro allI impI)
    fix q mq j assume q: "map_heap st' q = Some mq" "j < 4" "ap_childs mq ! j = Some b"
    with child_of_unique(2) [OF wf q] b(2,5) have "q = a" by auto
    with q(1) a cnt show "i_item_count mq \<noteq> 0" by simp
  qed
  ultimately show thesis using that idx b by blast
qed

text \<open>
  What \<open>adddatanode\<close> promises, called on map node \<open>n\<close> for data node \<open>d\<close>: it faults only when
  MM has no memory left, and otherwise keeps the tree well formed, touches no item data and no
  other item's leaf, and hooks \<open>d\<close> into a leaf exactly when the location belongs to \<open>n\<close>.
\<close>

definition add_post :: "int \<Rightarrow> mm_oracle \<Rightarrow> addr \<Rightarrow> nla_state \<Rightarrow> nla_map_node \<Rightarrow> addr \<Rightarrow> nla_data_node \<Rightarrow> nla_state c_result \<Rightarrow> bool" where
  "add_post L mm rt st n d dn r \<longleftrightarrow>
     (case r of Inl e \<Rightarrow> e = NullDeref \<and> mm_refuses mm (mm_calls st) 80
      | Inr st' \<Rightarrow> tree_wf L mm st' rt \<and> mm_calls st \<le> mm_calls st' \<and> g_pNLACoreData st' = g_pNLACoreData st \<and>
          (\<forall>x. map_option data (data_heap st' x) = map_option data (data_heap st x)) \<and>
          (\<forall>x. x \<noteq> d \<longrightarrow> map_option p_map_node (data_heap st' x) = map_option p_map_node (data_heap st x)) \<and>
          (\<exists>dn'. data_heap st' d = Some dn' \<and>
             (p_map_node dn' \<noteq> None \<longleftrightarrow> fn_b_IsLocInRC (rc n) (loc (data dn)) \<or> L \<le> i_level n)))"

lemma add_wf:
  assumes mm: "mm_contract mm" and L: "is_int32 L" and cf: "nMapMaxLevel cf = L"
  shows "tree_wf L mm st rt \<Longrightarrow> map_heap st a = Some n \<Longrightarrow> data_heap st d = Some dn \<Longrightarrow> p_map_node dn = None \<Longrightarrow>
    0 < i_level n \<longrightarrow> fn_b_IsLocInRC (rc n) (loc (data dn)) \<Longrightarrow> owners_counted st a \<Longrightarrow>
    unbumped st (i_level n) \<Longrightarrow> mm_calls st + 4 * nat (L - i_level n) < 2 ^ 32 \<Longrightarrow> nat (L - i_level n) < fuel \<Longrightarrow>
    add_post L mm rt st n d dn (ngx_http_lookaround_adddatanode fuel mm (Some cf) st (Some a) d)"
proof (induction fuel arbitrary: st a n)
  case 0
  then show ?case by simp
next
  case (Suc fuel)
  note wf = Suc.prems(1) and a = Suc.prems(2) and d = Suc.prems(3) and new = Suc.prems(4) and inside = Suc.prems(5)
  let ?n1 = "n\<lparr>i_item_count := i_item_count n + 1\<rparr>" let ?st1 = "set_map st a ?n1"
  have lt: "unat (i_item_count n) < mm_calls st" "mm_calls st < 2 ^ 32"
    using Suc.prems(7,8) a by (auto simp: unbumped_def)
  note cnt = count_succ(2) [OF lt]
  have wf1: "tree_wf L mm ?st1 rt" by (rule bump_wf [OF wf a lt Suc.prems(6)])
  have ok: "rect_ok (rc n)" using tree_wf_node [OF wf a] by (simp add: node_ok_def)
  show ?case
  proof (cases "L \<le> i_level n")
    case True
    then have r: "ngx_http_lookaround_adddatanode (Suc fuel) mm (Some cf) st (Some a) d = link_data_node ?st1 a d"
      using a cf by (simp add: Let_def)
    from link_wf [OF wf1, of a ?n1 d dn] True cnt new inside d
    obtain st' where st': "link_data_node ?st1 a d = Inr st'" "tree_wf L mm st' rt" "linked ?st1 a ?n1 d dn st'" by auto
    then show ?thesis using True linked_frame [OF st'(3)] d unfolding r add_post_def by (auto simp: linked_def)
  next
    case False
    define r where "r = (if ap_childs ?n1 ! 0 = None then ngx_http_lookaround_create_child_mapnode mm ?st1 a else Inr ?st1)"
    have unb1: "unbumped ?st1 (i_level ?n1 + 1)"
      using Suc.prems(7) by (auto simp: unbumped_def)
    have eq: "ngx_http_lookaround_adddatanode (Suc fuel) mm (Some cf) st (Some a) d =
      bindr r (\<lambda>st2. bindr (deref (data_heap st2) (Some d)) (\<lambda>dnode.
             let iChildIdx = fn_i_GetChildRcIdx (rc n) (loc (data dnode)) in
             if iChildIdx < 0 \<or> iChildIdx \<ge> int NLA_MAP_CHILD_COUNT then Inr st2
             else bindr (deref (map_heap st2) (Some a)) (\<lambda>mnode2.
               ngx_http_lookaround_adddatanode fuel mm (Some cf) st2 (ap_childs mnode2 ! nat iChildIdx) d)))"
      using False cf a by (simp add: Let_def r_def)
    have "i_level ?n1 < L" using False by simp
    from expand_wf [OF mm L wf1 _ this _ unb1, of a, folded r_def] cnt
    consider (full) "r = Inl NullDeref" "mm_refuses mm (mm_calls st) 80"
      | (ok) st2 n2 where "r = Inr st2" "expanded L mm rt st a n st2 n2"
      by (auto simp: expanded_def)
    then show ?thesis
    proof cases
      case full
      then show ?thesis by (auto simp: eq add_post_def simp del: ngx_http_lookaround_adddatanode.simps)
    next
      case ok2: ok
      note ex = ok2(2) [unfolded expanded_def]
      show ?thesis
      proof (cases "fn_b_IsLocInRC (rc n) (loc (data dn))")
        case out: False
        then have "fn_i_GetChildRcIdx (rc n) (loc (data dn)) < 0" by (rule quad.index_outside)
        then show ?thesis using ok2(1) ex d out False new
          by (simp add: eq add_post_def del: ngx_http_lookaround_adddatanode.simps)
      next
        case True
        from expanded_child [OF ok2(2) ok True] obtain i b m where b: "fn_i_GetChildRcIdx (rc n) (loc (data dn)) = int i" "i < 4"
          "ap_childs n2 ! i = Some b" "map_heap st2 b = Some m" "i_level m = i_level n + 1"
          "fn_b_IsLocInRC (rc m) (loc (data dn))" "owners_counted st2 b" by blast
        have "nat (L - i_level n) = Suc (nat (L - i_level m))" using False b(5) by simp
        then have "mm_calls st2 + 4 * nat (L - i_level m) < 2 ^ 32" "nat (L - i_level m) < fuel"
          using Suc.prems(8,9) ex by simp_all
        then have "add_post L mm rt st2 m d dn (ngx_http_lookaround_adddatanode fuel mm (Some cf) st2 (Some b) d)"
          using ex b d new by (intro Suc.IH) simp_all
        moreover have "ngx_http_lookaround_adddatanode (Suc fuel) mm (Some cf) st (Some a) d =
            ngx_http_lookaround_adddatanode fuel mm (Some cf) st2 (Some b) d"
          unfolding eq using ok2(1) ex d b(1-3) by simp
        ultimately show ?thesis using ex True b(6)
          by (auto simp: add_post_def intro: mm_refuses_mono simp del: ngx_http_lookaround_adddatanode.simps split: sum.splits)
      qed
    qed
  qed
qed

end
