(* ===== verification/Nla_Items.thy ===== *)
theory Nla_Items
  imports Nla_Tree_Inv
begin

text \<open>
  What \<open>ngx_http_lookaround_setdataloc\<close> and \<open>ngx_http_lookaround_getdatanode\<close> promise to the
  request handlers. The abstract state is \<open>items\<close>, the finite map from an id to its item; the
  contract of a set is \<open>item_update\<close>. \<open>setdataloc_new\<close> and \<open>setdataloc_stays\<close> show that the heap program refines it and
  keep \<open>nla_wf\<close>, for an id that is new and for an item that stays in its leaf; the heap program
  fails only when MM turns a request down. \<open>InitCoreData_wf\<close> starts the invariant.
\<close>

section \<open>Steps that keep the tree\<close>

lemma tree_wf_frame:
  assumes wf: "tree_wf L mm st rt" and same: "map_heap st' = map_heap st" "data_heap st' = data_heap st"
    and le: "mm_calls st \<le> mm_calls st'"
  shows "tree_wf L mm st' rt"
proof -
  have eqs: "parent_ok st' = parent_ok st" "child_ok st' = child_ok st" "residents st' = residents st"
    by (simp_all add: fun_eq_iff parent_ok_def child_ok_def residents_def same)
  have eqs': "inner_ok st' = inner_ok st" "leaf_ok st' = leaf_ok st" "data_ok L st' = data_ok L st"
    by (simp_all add: fun_eq_iff inner_ok_def leaf_ok_def data_ok_def eqs same cong: option.case_cong)
  have "node_ok L st' rt a n" if "node_ok L st rt a n" for a n
    using that le by (simp add: node_ok_def eqs eqs')
  moreover have "mem_ok mm st'" if "mem_ok mm st"
    using that le unfolding mem_ok_def same by (meson less_le_trans)
  ultimately show ?thesis using wf by (simp add: tree_wf_def same eqs')
qed

lemma set_data_frame:
  "parent_ok (set_data st d dn) = parent_ok st" "child_ok (set_data st d dn) = child_ok st"
  "inner_ok (set_data st d dn) = inner_ok st" "data_ok L (set_data st d dn) = data_ok L st"
  by (simp_all add: fun_eq_iff parent_ok_def child_ok_def inner_ok_def data_ok_def cong: option.case_cong)

lemma chain_upd_data:
  assumes "h d = Some dn"
  shows "chain (h(d \<mapsto> dn\<lparr>data := it\<rparr>)) a pr p ds = chain h a pr p ds"
  using assms by (induction ds arbitrary: pr p) auto

text \<open>Writing a data node keeps the tree when no leaf list and no leaf membership changes.\<close>

lemma set_data_wf:
  assumes wf: "tree_wf L mm st rt" and ok: "data_ok L st dn"
    and used: "\<exists>j < mm_calls st. \<exists>n. mm j n = Some d"
    and lists: "\<And>a p ds. chain (data_heap st) a None p ds \<Longrightarrow> chain ((data_heap st)(d \<mapsto> dn)) a None p ds"
      "\<And>a. residents (set_data st d dn) a = residents st a"
  shows "tree_wf L mm (set_data st d dn) rt"
proof -
  have leaf: "leaf_ok (set_data st d dn) a n" if "leaf_ok st a n" for a n
    using that lists by (fastforce simp: leaf_ok_def)
  have "node_ok L (set_data st d dn) rt a n" if "node_ok L st rt a n" for a n
    using that leaf by (simp add: node_ok_def set_data_frame)
  moreover have "mem_ok mm (set_data st d dn)"
    using wf used by (auto simp: tree_wf_def mem_ok_def)
  ultimately show ?thesis using wf ok by (auto simp: tree_wf_def set_data_frame)
qed

lemma fresh_data_wf:
  assumes wf: "tree_wf L mm st rt" and new: "data_heap st d = None" "p_map_node dn = None" and ok: "item_ok (data dn)"
    and used: "\<exists>j < mm_calls st. \<exists>n. mm j n = Some d"
  shows "tree_wf L mm (set_data st d dn) rt"
proof (rule set_data_wf [OF wf _ used])
  show "data_ok L st dn" using ok new(2) by (simp add: data_ok_def)
  show "chain ((data_heap st)(d \<mapsto> dn)) a None p ds" if "chain (data_heap st) a None p ds" for a p ds
    by (rule chain_other_leaf [OF that]) (use new in \<open>auto split: if_splits\<close>)
  show "residents (set_data st d dn) a = residents st a" for a
    using new by (auto simp: residents_def)
qed

lemma update_data_wf:
  assumes wf: "tree_wf L mm st rt" and d: "data_heap st d = Some dn" and ok: "item_ok it"
    and stay: "\<And>a n. p_map_node dn = Some a \<Longrightarrow> map_heap st a = Some n \<Longrightarrow> 0 < i_level n \<Longrightarrow>
      fn_b_IsLocInRC (rc n) (loc it)"
  shows "tree_wf L mm (set_data st d (dn\<lparr>data := it\<rparr>)) rt"
proof (rule set_data_wf [OF wf])
  show "data_ok L st (dn\<lparr>data := it\<rparr>)"
    using tree_wf_data [OF wf d] ok stay by (auto simp: data_ok_def split: option.splits)
  show "\<exists>j < mm_calls st. \<exists>n. mm j n = Some d" using wf d by (auto simp: tree_wf_def mem_ok_def)
  show "chain ((data_heap st)(d \<mapsto> dn\<lparr>data := it\<rparr>)) a None p ds" if "chain (data_heap st) a None p ds" for a p ds
    using that chain_upd_data [where h = "data_heap st", OF d] by simp
  show "residents (set_data st d (dn\<lparr>data := it\<rparr>)) a = residents st a" for a
    using d by (auto simp: residents_def)
qed

section \<open>The abstract map of items\<close>

definition items :: "nla_state \<Rightarrow> string \<rightharpoonup> nla_data_item" where
  "items st k =
     (if NUL \<in> set k then None else case ngx_http_lookaround_getdatanode st k of
        Inr (Some d) \<Rightarrow> map_option data (data_heap st d)
      | _ \<Rightarrow> None)"

definition item_update ::
    "int \<Rightarrow> (string \<rightharpoonup> nla_data_item) \<Rightarrow> string \<Rightarrow> nla_2dloc \<Rightarrow> int \<Rightarrow> int \<Rightarrow> string \<rightharpoonup> nla_data_item" where
  "item_update now its k p s t =
     its(k \<mapsto> (case its k of
          None \<Rightarrow> \<lparr>ach_id = k, i_status = s, i_type = t, loc = p, last_update_time = now\<rparr>
        | Some it \<Rightarrow> it\<lparr>loc := p, last_update_time := now\<rparr>))"

lemma getdatanode_eq:
  assumes "g_pNLACoreData st = Some core" "p_id2data_map core = Some sm" "strmap_wf sm"
  shows "ngx_http_lookaround_getdatanode st k = Inr (strmap_abs sm (c_str k))"
  using assms by (simp add: ngx_http_lookaround_getdatanode_def sm_get_ptrvalue_eq)

lemma items_eq:
  assumes "g_pNLACoreData st = Some core" "p_id2data_map core = Some sm" "strmap_wf sm"
  shows "items st k =
    (if NUL \<in> set k then None else Option.bind (strmap_abs sm k) (\<lambda>d. map_option data (data_heap st d)))"
  using getdatanode_eq [OF assms, of k] by (simp add: items_def c_str_id split: option.splits)

lemma ids_node:
  assumes "ids_wf st" "g_pNLACoreData st = Some core" "p_id2data_map core = Some sm" "strmap_abs sm k = Some d"
  shows "\<exists>dn. data_heap st d = Some dn \<and> ach_id (data dn) = k"
  using assms by (auto simp: ids_wf_def)


section \<open>A new item\<close>

lemma sm_put_ptrvalue_calls: "sm_put_ptrvalue mm n m k v = Inr (r, m', n') \<Longrightarrow> n' \<le> n + 2"
  by (auto simp: sm_put_ptrvalue_def append_pair_def bindr_Inr_iff split: option.splits prod.splits if_splits)

text \<open>The root has no owner, and a call of MM that no counter has used leaves room for one more item.\<close>

lemma root_ready:
  assumes wf: "tree_wf L mm st rt" and same: "map_heap st' = map_heap st" and lt: "mm_calls st < mm_calls st'"
  shows "owners_counted st' rt" "unbumped st' l"
  using child_of_unique(3) [OF wf] tree_wf_node [OF wf] lt
  by (fastforce simp: owners_counted_def unbumped_def same node_ok_def)+

definition fresh_item :: "string \<Rightarrow> nla_2dloc \<Rightarrow> int \<Rightarrow> int \<Rightarrow> int \<Rightarrow> nla_data_item" where
  "fresh_item k p s t now = \<lparr>ach_id = k, i_status = s, i_type = t, loc = p, last_update_time = now\<rparr>"

text \<open>
  The room an operation needs: the calls of MM stay within 32 bits (the width of the item
  counters) and there is fuel for every level.
\<close>

definition room :: "int \<Rightarrow> nla_state \<Rightarrow> nat \<Rightarrow> bool" where
  "room L st fuel \<longleftrightarrow> mm_calls st + 3 + 4 * nat L < 2 ^ 32 \<and> nat L < fuel"

text \<open>The id map after \<open>put_id\<close>, whose result nobody looks at: the id is bound or MM had no room.\<close>

definition id_put :: "mm_oracle \<Rightarrow> nat \<Rightarrow> string \<Rightarrow> addr \<Rightarrow> addr StrMap \<Rightarrow> addr StrMap \<Rightarrow> bool" where
  "id_put mm n k d sm sm' \<longleftrightarrow> strmap_abs sm' = (strmap_abs sm)(k \<mapsto> d) \<or>
     sm' = sm \<and> strmap_abs sm k = None \<and> mm_refuses mm n (length k + 16 + 16 * sm_pairs sm)"

lemma put_id_eq:
  assumes sm: "strmap_wf sm" and mm: "mm_contract mm" and k: "NUL \<notin> set k"
  shows "\<exists>r sm' n'. sm_put_ptrvalue mm (Suc n) (Some sm) (Some k) (Some d) = Inr (r, Some sm', n') \<and> strmap_wf sm' \<and>
    Suc n \<le> n' \<and> n' \<le> n + 3 \<and> id_put mm n k d sm sm'"
proof -
  from sm_put_ptrvalue_eq [OF sm mm, of "Suc n" k d] obtain r sm' n' where
    put: "sm_put_ptrvalue mm (Suc n) (Some sm) (Some k) (Some d) = Inr (r, Some sm', n')" "strmap_wf sm'" "Suc n \<le> n'" and
    abs: "r = 1 \<and> strmap_abs sm' = (strmap_abs sm)(k \<mapsto> d) \<or> r = 0 \<and> sm' = sm \<and> strmap_abs sm k = None"
    using k by (auto simp: c_str_id)
  have "mm_refuses mm n (length k + 16 + 16 * sm_pairs sm)" if "r = 0"
    using sm_put_ptrvalue_fail [OF sm put(1) [unfolded that]] by (rule mm_refuses_mono) simp_all
  with put abs sm_put_ptrvalue_calls [OF put(1)] show ?thesis by (auto simp: id_put_def)
qed

text \<open>What creating a node promises: the new node \<open>d\<close>, the id map \<open>sm'\<close>, and nothing else changed.\<close>

definition created :: "int \<Rightarrow> mm_oracle \<Rightarrow> addr \<Rightarrow> nla_state \<Rightarrow> nla_core_data \<Rightarrow> addr StrMap \<Rightarrow> nla_data_item \<Rightarrow>
    nla_state \<Rightarrow> addr \<Rightarrow> addr StrMap \<Rightarrow> nla_data_node \<Rightarrow> bool" where
  "created L mm rt st core sm it st' d sm' dn \<longleftrightarrow> data_heap st d = None \<and> tree_wf L mm st' rt \<and> mm_calls st \<le> mm_calls st' \<and>
     g_pNLACoreData st' = Some (core\<lparr>p_id2data_map := Some sm'\<rparr>) \<and> strmap_wf sm' \<and>
     id_put mm (mm_calls st) (ach_id it) d sm sm' \<and>
     (\<forall>x. x \<noteq> d \<longrightarrow> map_option data (data_heap st' x) = map_option data (data_heap st x)) \<and>
     data_heap st' d = Some dn \<and> data dn = it \<and>
     (p_map_node dn \<noteq> None \<longleftrightarrow> fn_b_IsLocInRC fn_v_InitRootRect (loc it) \<or> L \<le> 0)"

lemma fresh_item_simps [simp]:
  "ach_id (fresh_item k p s t now) = k" "i_status (fresh_item k p s t now) = s" "i_type (fresh_item k p s t now) = t"
  "loc (fresh_item k p s t now) = p" "last_update_time (fresh_item k p s t now) = now"
  by (simp_all add: fresh_item_def)

text \<open>The data node in the heap and the id in the map, before the node is hooked into the tree.\<close>

lemma put_new_node_wf:
  assumes wf: "tree_wf L mm st rt" and mm: "mm_contract mm" "mm (mm_calls st) 80 = Some d" and n: "mm_calls st < n'" and ok: "item_ok it"
  shows "tree_wf L mm ((set_data st d \<lparr>data = it, prev = None, nxt = None, p_map_node = None\<rparr>)\<lparr>mm_calls := n', g_pNLACoreData := c\<rparr>) rt"
proof -
  let ?dn = "\<lparr>data = it, prev = None, nxt = None, p_map_node = None\<rparr>"
  have "data_heap st d = None" using wf mem_ok_fresh [OF _ mm] by (simp add: tree_wf_def)
  have "tree_wf L mm (set_data (st\<lparr>mm_calls := n'\<rparr>) d ?dn) rt"
  proof (rule fresh_data_wf)
    show "tree_wf L mm (st\<lparr>mm_calls := n'\<rparr>) rt" by (rule tree_wf_frame [OF wf]) (use n in auto)
    show "\<exists>j < mm_calls (st\<lparr>mm_calls := n'\<rparr>). \<exists>n. mm j n = Some d" using mm(2) n by (intro exI [of _ "mm_calls st"]) auto
  qed (use \<open>data_heap st d = None\<close> ok in simp_all)
  then show ?thesis by (rule tree_wf_frame) simp_all
qed

lemma create_data_node_wf:
  fixes p :: nla_2dloc
  assumes wf: "tree_wf L mm st rt" and core: "g_pNLACoreData st = Some core" "lock core = 0"
      "p_map_root core = Some rt" "p_id2data_map core = Some sm" and sm: "strmap_wf sm"
    and mm: "mm_contract mm" and L: "is_int32 L" "nMapMaxLevel cf = L" and room: "room L st fuel"
    and arg: "length k < NLA_DATA_ID_MAX_LEN" "NUL \<notin> set k" "is_int32 s" "is_int32 t"
  defines "r \<equiv> create_data_node fuel mm (Some cf) st k p s t"
  shows "r = Inl NullDeref \<and> mm_refuses mm (mm_calls st) 80 \<or>
    (\<exists>st' d sm' dn. r = Inr (st', d) \<and> created L mm rt st core sm (fresh_item k p s t 0) st' d sm' dn)"
proof (cases "mm (mm_calls st) 80")
  case None
  then show ?thesis by (auto simp: r_def create_data_node_def mm_refuses_def)
next
  case (Some d)
  let ?dn = "\<lparr>data = fresh_item k p s t 0, prev = None, nxt = None, p_map_node = None\<rparr>"
  have fresh: "data_heap st d = None" using wf mem_ok_fresh [OF _ mm Some] by (simp add: tree_wf_def)
  from put_id_eq [OF sm mm arg(2), of "mm_calls st" d] obtain r' sm' n' where
    put: "sm_put_ptrvalue mm (Suc (mm_calls st)) (Some sm) (Some k) (Some d) = Inr (r', Some sm', n')"
      "strmap_wf sm'" "Suc (mm_calls st) \<le> n'" "n' \<le> mm_calls st + 3" "id_put mm (mm_calls st) k d sm sm'" by auto
  let ?core = "core\<lparr>lock := 1, p_id2data_map := Some sm'\<rparr>"
  let ?st3 = "(set_data st d ?dn)\<lparr>mm_calls := n', g_pNLACoreData := Some ?core\<rparr>"
  have wf3: "tree_wf L mm ?st3 rt" using put(3) arg by (intro put_new_node_wf [OF wf mm Some]) (simp_all add: item_ok_def is_int64_def)
  from wf obtain n where n: "map_heap st rt = Some n" by (auto simp: tree_wf_def)
  with wf have n0: "i_level n = 0" "rc n = fn_v_InitRootRect" by (auto simp: node_ok_def dest: tree_wf_node)
  let ?add = "ngx_http_lookaround_adddatanode fuel mm (Some cf) ?st3 (Some rt) d"
  have post: "add_post L mm rt ?st3 n d ?dn ?add"
    using root_ready [OF wf, of ?st3] n n0 put(3,4) room by (intro add_wf [OF mm L wf3]) (auto simp: room_def)
  have r: "r = bindr ?add (\<lambda>st4. bindr (nla_unlock st4) (\<lambda>st5. Inr (st5, d)))"
    unfolding r_def create_data_node_def using Some arg(1) core put(1)
    by (simp add: Let_def nla_lock_def put_id_def root_of_def set_data_def fresh_item_def)
  show ?thesis
  proof (cases ?add)
    case (Inl e)
    with post r put(3) show ?thesis by (auto simp: add_post_def intro: mm_refuses_mono simp del: ngx_http_lookaround_adddatanode.simps)
  next
    case (Inr st4)
    let ?st5 = "st4\<lparr>g_pNLACoreData := Some (core\<lparr>p_id2data_map := Some sm'\<rparr>)\<rparr>"
    from post [unfolded Inr] obtain dn where p4: "tree_wf L mm st4 rt" "n' \<le> mm_calls st4" "g_pNLACoreData st4 = Some ?core"
      "\<And>x. map_option data (data_heap st4 x) = map_option data (data_heap ?st3 x)"
      and dn: "data_heap st4 d = Some dn" "p_map_node dn \<noteq> None \<longleftrightarrow> fn_b_IsLocInRC fn_v_InitRootRect p \<or> L \<le> 0"
      by (auto simp: add_post_def n0)
    have "core\<lparr>p_id2data_map := Some sm', lock := 0\<rparr> = core\<lparr>p_id2data_map := Some sm'\<rparr>" using core(2) by (cases core) simp
    then have "r = Inr (?st5, d)" using r Inr p4(3) by (simp add: nla_unlock_def)
    moreover have "tree_wf L mm ?st5 rt" by (rule tree_wf_frame [OF p4(1)]) simp_all
    moreover have "data dn = fresh_item k p s t 0" using p4(4) [of d] dn(1) by simp
    moreover have "map_option data (data_heap st4 x) = map_option data (data_heap st x)" if "x \<noteq> d" for x
      using p4(4) [of x] that by simp
    ultimately have "created L mm rt st core sm (fresh_item k p s t 0) ?st5 d sm' dn"
      using fresh put(2,3,5) p4(2) dn by (auto simp: created_def)
    with \<open>r = Inr (?st5, d)\<close> show ?thesis by blast
  qed
qed


section \<open>Setting an item\<close>

text \<open>The item with id \<open>k\<close> is hooked into a leaf whose rectangle contains \<open>p\<close>.\<close>

definition stays :: "nla_state \<Rightarrow> string \<Rightarrow> nla_2dloc \<Rightarrow> bool" where
  "stays st k p \<longleftrightarrow>
     (case ngx_http_lookaround_getdatanode st k of
        Inr (Some d) \<Rightarrow>
          (case deref (data_heap st) (Some d) of
             Inr dn \<Rightarrow> (case deref (map_heap st) (p_map_node dn) of Inr n \<Rightarrow> fn_b_IsLocInRC (rc n) p | _ \<Rightarrow> False)
           | _ \<Rightarrow> False)
      | _ \<Rightarrow> False)"

lemma nla_wfD:
  assumes "nla_wf L mm st"
  obtains core sm rt where "g_pNLACoreData st = Some core" "lock core = 0" "p_map_root core = Some rt"
    "p_id2data_map core = Some sm" "strmap_wf sm" "tree_wf L mm st rt"
    "\<forall>k d. strmap_abs sm k = Some d \<longrightarrow> (\<exists>dn. data_heap st d = Some dn \<and> ach_id (data dn) = k)"
  using assms by (auto simp: nla_wf_def ids_wf_def)

lemma nla_wfI:
  assumes "g_pNLACoreData st = Some core" "lock core = 0" "p_map_root core = Some rt"
    "p_id2data_map core = Some sm" "strmap_wf sm" "tree_wf L mm st rt"
    "\<And>k d. strmap_abs sm k = Some d \<Longrightarrow> map_option (\<lambda>dn. ach_id (data dn)) (data_heap st d) = Some k"
  shows "nla_wf L mm st"
  using assms by (fastforce simp: nla_wf_def ids_wf_def)

text \<open>Writing item data with the same id and a location of the same leaf.\<close>

lemma update_item_wf:
  assumes wf: "nla_wf L mm st" and d: "data_heap st d = Some dn" and ok: "item_ok it" and id: "ach_id it = ach_id (data dn)"
    and stay: "\<And>a n. p_map_node dn = Some a \<Longrightarrow> map_heap st a = Some n \<Longrightarrow> 0 < i_level n \<Longrightarrow>
      fn_b_IsLocInRC (rc n) (loc it)"
  shows "nla_wf L mm (set_data st d (dn\<lparr>data := it\<rparr>))"
proof -
  obtain core sm rt where c: "g_pNLACoreData st = Some core" "lock core = 0" "p_map_root core = Some rt"
    "p_id2data_map core = Some sm" "strmap_wf sm" "tree_wf L mm st rt"
    "\<forall>k d. strmap_abs sm k = Some d \<longrightarrow> (\<exists>dn. data_heap st d = Some dn \<and> ach_id (data dn) = k)"
    using wf by (rule nla_wfD)
  show ?thesis
    by (rule nla_wfI [OF _ c(2-5)]) (use c id update_data_wf [OF c(6) d ok stay] d in fastforce)+
qed

lemma items_update:
  assumes wf: "nla_wf L mm st" and k: "ngx_http_lookaround_getdatanode st k = Inr (Some d)" "NUL \<notin> set k"
    and d: "data_heap st d = Some dn"
  shows "items (set_data st d (dn\<lparr>data := it\<rparr>)) = (items st)(k \<mapsto> it)"
proof -
  obtain core sm rt where c: "g_pNLACoreData st = Some core" "p_id2data_map core = Some sm" "strmap_wf sm"
    and ids: "\<forall>k d. strmap_abs sm k = Some d \<longrightarrow> (\<exists>dn. data_heap st d = Some dn \<and> ach_id (data dn) = k)"
    using wf by (rule nla_wfD)
  have dk: "strmap_abs sm k = Some d" using k getdatanode_eq [OF c, of k] by (simp add: c_str_id)
  have only: "x = k" if "strmap_abs sm x = Some d" for x
    using ids that dk by (metis option.inject)
  have g: "g_pNLACoreData (set_data st d (dn\<lparr>data := it\<rparr>)) = Some core" using c by simp
  show ?thesis
  proof
    fix x show "items (set_data st d (dn\<lparr>data := it\<rparr>)) x = ((items st)(k \<mapsto> it)) x"
    proof (cases "x = k")
      case True
      then show ?thesis by (simp add: items_eq [OF g c(2,3)] dk k(2))
    next
      case False
      then have "strmap_abs sm x \<noteq> Some d" using only by blast
      with False show ?thesis
        by (cases "strmap_abs sm x") (simp_all add: items_eq [OF c] items_eq [OF g c(2,3)])
    qed
  qed
qed


text \<open>The largest request of MM that setting an item makes.\<close>

definition mm_demand :: "nla_state \<Rightarrow> nat" where
  "mm_demand st = 80 + 16 * (case g_pNLACoreData st of None \<Rightarrow> 0
     | Some core \<Rightarrow> (case p_id2data_map core of None \<Rightarrow> 0 | Some sm \<Rightarrow> sm_pairs sm))"

lemma items_None_getdatanode:
  assumes wf: "nla_wf L mm st" and k: "NUL \<notin> set k" "items st k = None"
  shows "ngx_http_lookaround_getdatanode st k = Inr None"
proof -
  obtain core sm rt where c: "g_pNLACoreData st = Some core" "p_id2data_map core = Some sm" "strmap_wf sm"
    and ids: "\<forall>k d. strmap_abs sm k = Some d \<longrightarrow> (\<exists>dn. data_heap st d = Some dn \<and> ach_id (data dn) = k)"
    using wf by (rule nla_wfD)
  have "strmap_abs sm k = None"
  proof (cases "strmap_abs sm k")
    case (Some d)
    with ids obtain dn where "data_heap st d = Some dn" by blast
    with k Some show ?thesis by (simp add: items_eq [OF c])
  qed
  then show ?thesis using k(1) by (simp add: getdatanode_eq [OF c] c_str_id)
qed

text \<open>A created node leaves the data well formed; the stamp of the time puts the new item into the map.\<close>

lemma created_wf:
  assumes cr: "created L mm rt st core sm it st' d sm' dn" and c: "lock core = 0" "p_map_root core = Some rt"
    and ids: "\<forall>k d. strmap_abs sm k = Some d \<longrightarrow> (\<exists>dn. data_heap st d = Some dn \<and> ach_id (data dn) = k)"
  shows "nla_wf L mm st'"
proof (rule nla_wfI)
  note cr' = cr [unfolded created_def]
  show "g_pNLACoreData st' = Some (core\<lparr>p_id2data_map := Some sm'\<rparr>)" "strmap_wf sm'" "tree_wf L mm st' rt" using cr' by simp_all
  fix j e assume "strmap_abs sm' j = Some e"
  then consider "j = ach_id it" "e = d" | "strmap_abs sm j = Some e" using cr' unfolding id_put_def by (metis fun_upd_apply option.inject)
  then show "map_option (\<lambda>dn. ach_id (data dn)) (data_heap st' e) = Some j"
  proof cases
    case 2
    with ids obtain en where en: "data_heap st e = Some en" "ach_id (data en) = j" by blast
    with cr' have "map_option data (data_heap st' e) = Some (data en)" by (metis option.distinct(1) option.simps(9))
    with en(2) show ?thesis by auto
  qed (use cr' in simp)
qed (use c in simp_all)

lemma created_items:
  fixes it :: nla_data_item
  assumes cr: "created L mm rt st core sm it0 st' d sm' dn" and c: "g_pNLACoreData st = Some core" "p_id2data_map core = Some sm" "strmap_wf sm"
    and ids: "\<forall>k d. strmap_abs sm k = Some d \<longrightarrow> (\<exists>dn. data_heap st d = Some dn \<and> ach_id (data dn) = k)"
    and k: "NUL \<notin> set (ach_id it0)"
  defines "st2 \<equiv> set_data st' d (dn\<lparr>data := it\<rparr>)"
  shows "items st2 = (items st)(ach_id it0 \<mapsto> it) \<or>
    items st2 = items st \<and> mm_refuses mm (mm_calls st) (length (ach_id it0) + 16 + 16 * sm_pairs sm)"
proof -
  note cr' = cr [unfolded created_def]
  have g: "g_pNLACoreData st2 = Some (core\<lparr>p_id2data_map := Some sm'\<rparr>)" and sm': "strmap_wf sm'" using cr' by (simp_all add: st2_def)
  have same: "items st2 x = items st x" if "strmap_abs sm' x = strmap_abs sm x" for x
  proof -
    have "map_option data (data_heap st2 e) = map_option data (data_heap st e)" if e: "strmap_abs sm x = Some e" for e
    proof -
      have "e \<noteq> d" using ids e cr' by (metis option.distinct(1))
      then show ?thesis using cr' by (simp add: st2_def)
    qed
    then show ?thesis by (cases "strmap_abs sm x") (simp_all add: items_eq [OF c] items_eq [OF g _ sm'] that)
  qed
  from cr' consider "strmap_abs sm' = (strmap_abs sm)(ach_id it0 \<mapsto> d)"
    | "sm' = sm" "mm_refuses mm (mm_calls st) (length (ach_id it0) + 16 + 16 * sm_pairs sm)" by (auto simp: id_put_def)
  then show ?thesis
  proof cases
    case 1
    have "data_heap st2 d = Some (dn\<lparr>data := it\<rparr>)" by (simp add: st2_def)
    then have "items st2 (ach_id it0) = Some it" using 1 k by (simp add: items_eq [OF g _ sm'])
    then have "items st2 x = ((items st)(ach_id it0 \<mapsto> it)) x" for x using same [of x] 1 by (cases "x = ach_id it0") simp_all
    then show ?thesis by blast
  qed (use same in blast)
qed

lemma setdataloc_new:
  fixes p :: nla_2dloc
  assumes wf: "nla_wf L mm st" and mm: "mm_contract mm" and L: "is_int32 L" "nMapMaxLevel cf = L" and room: "room L st fuel"
    and arg: "length k < NLA_DATA_ID_MAX_LEN" "NUL \<notin> set k" "is_int32 s" "is_int32 t" "is_int64 now"
    and new: "items st k = None"
  defines "r \<equiv> ngx_http_lookaround_setdataloc fuel mm now (Some cf) st k p s t"
  shows "r = Inl NullDeref \<and> mm_refuses mm (mm_calls st) (mm_demand st) \<or>
    (\<exists>st' d dn. r = Inr st' \<and> nla_wf L mm st' \<and> data_heap st d = None \<and> data_heap st' d = Some dn \<and>
      data dn = fresh_item k p s t now \<and> (p_map_node dn \<noteq> None \<longleftrightarrow> fn_b_IsLocInRC fn_v_InitRootRect p \<or> L \<le> 0) \<and>
      (\<forall>x. x \<noteq> d \<longrightarrow> map_option data (data_heap st' x) = map_option data (data_heap st x)) \<and>
      (items st' = (items st)(k \<mapsto> fresh_item k p s t now) \<or>
       items st' = items st \<and> mm_refuses mm (mm_calls st) (mm_demand st)))"
proof -
  obtain core sm rt where c: "g_pNLACoreData st = Some core" "lock core = 0" "p_map_root core = Some rt"
    "p_id2data_map core = Some sm" "strmap_wf sm" and tree: "tree_wf L mm st rt"
    and ids: "\<forall>k d. strmap_abs sm k = Some d \<longrightarrow> (\<exists>dn. data_heap st d = Some dn \<and> ach_id (data dn) = k)"
    using wf by (rule nla_wfD)
  have dem: "80 \<le> mm_demand st" "length k + 16 + 16 * sm_pairs sm \<le> mm_demand st"
    using arg(1) c by (simp_all add: mm_demand_def)
  have get: "ngx_http_lookaround_getdatanode st k = Inr None" by (rule items_None_getdatanode [OF wf arg(2) new])
  from create_data_node_wf [OF tree c mm L room arg(1-4), of p]
  consider "create_data_node fuel mm (Some cf) st k p s t = Inl NullDeref" "mm_refuses mm (mm_calls st) 80"
    | st' d sm' dn where "create_data_node fuel mm (Some cf) st k p s t = Inr (st', d)"
        "created L mm rt st core sm (fresh_item k p s t 0) st' d sm' dn" by blast
  then show ?thesis
  proof cases
    case 1
    with get dem(1) show ?thesis by (auto simp: r_def ngx_http_lookaround_setdataloc_def intro: mm_refuses_mono)
  next
    case (2 st' d sm' dn)
    note cr = 2(2) [unfolded created_def]
    let ?it = "fresh_item k p s t now" let ?dn = "dn\<lparr>data := ?it\<rparr>" let ?st = "set_data st' d ?dn"
    have r: "r = Inr ?st" using get 2(1) cr by (simp add: r_def ngx_http_lookaround_setdataloc_def fresh_item_def)
    have wf': "nla_wf L mm ?st"
    proof (rule update_item_wf [OF created_wf [OF 2(2) c(2,3) ids], of d dn])
      show "fn_b_IsLocInRC (rc n) (loc ?it)" if "p_map_node dn = Some a" "map_heap st' a = Some n" "0 < i_level n" for a n
        using tree_wf_data [of L mm st' rt d dn] cr that by (simp add: data_ok_def)
    qed (use arg cr in \<open>simp_all add: item_ok_def\<close>)
    from created_items [OF 2(2) c(1,4,5) ids, of ?it] arg(2)
    have "items ?st = (items st)(k \<mapsto> ?it) \<or> items ?st = items st \<and> mm_refuses mm (mm_calls st) (mm_demand st)"
      using mm_refuses_mono [OF _ order_refl dem(2)] by auto
    then show ?thesis using r wf' cr by (intro disjI2 exI [of _ ?st] exI [of _ d] exI [of _ ?dn]) simp
  qed
qed


text \<open>An item that stays in its leaf needs no memory and always succeeds.\<close>

lemma setdataloc_stays:
  assumes wf: "nla_wf L mm st" and k: "NUL \<notin> set k" "stays st k p" and now: "is_int64 now"
  shows "\<exists>st' it. items st k = Some it \<and> ngx_http_lookaround_setdataloc fuel mm' now conf st k p s t = Inr st' \<and>
    nla_wf L mm st' \<and> items st' = (items st)(k \<mapsto> it\<lparr>loc := p, last_update_time := now\<rparr>)"
proof -
  from k(2) obtain d where get: "ngx_http_lookaround_getdatanode st k = Inr (Some d)"
    by (auto simp: stays_def split: sum.split_asm option.split_asm)
  with k(2) obtain dn where d: "data_heap st d = Some dn"
    by (cases "data_heap st d") (auto simp: stays_def)
  from get d k(2) obtain a n where a: "p_map_node dn = Some a" "map_heap st a = Some n" "fn_b_IsLocInRC (rc n) p"
    by (cases "p_map_node dn"; cases "map_heap st (the (p_map_node dn))") (auto simp: stays_def)
  let ?it = "data dn\<lparr>loc := p, last_update_time := now\<rparr>" let ?st = "set_data st d (dn\<lparr>data := ?it\<rparr>)"
  obtain rt where "tree_wf L mm st rt" using wf by (rule nla_wfD)
  then have ok: "item_ok (data dn)" using d by (auto simp: data_ok_def dest: tree_wf_data)
  have "ngx_http_lookaround_setdataloc fuel mm' now conf st k p s t = Inr ?st"
    using get d a by (simp add: ngx_http_lookaround_setdataloc_def move_data_node_def set_loc_def set_data_def)
  moreover have "nla_wf L mm ?st"
    by (rule update_item_wf [OF wf d]) (use ok now a in \<open>auto simp: item_ok_def\<close>)
  moreover have "items ?st = (items st)(k \<mapsto> ?it)" by (rule items_update [OF wf get k(1) d])
  moreover have "items st k = Some (data dn)" using get d k(1) by (simp add: items_def)
  ultimately show ?thesis by blast
qed

lemma setdataloc_refines_new:
  assumes wf: "nla_wf L mm st" and mm: "mm_contract mm" and L: "is_int32 L" "nMapMaxLevel cf = L" and room: "room L st fuel"
    and arg: "length k < NLA_DATA_ID_MAX_LEN" "NUL \<notin> set k" "is_int32 s" "is_int32 t" "is_int64 now" and new: "items st k = None"
    and mem: "\<not> mm_refuses mm (mm_calls st) (mm_demand st)"
  shows "\<exists>st'. ngx_http_lookaround_setdataloc fuel mm now (Some cf) st k p s t = Inr st' \<and> nla_wf L mm st' \<and>
    items st' = (items st)(k \<mapsto> fresh_item k p s t now) \<and> items st' k = Some (fresh_item k p s t now)"
  using setdataloc_new [OF wf mm L room arg new, of p] mem by force

section \<open>The start\<close>

lemma root_tree_wf:
  assumes "map_heap st = Map.empty" "data_heap st = Map.empty" "mm (mm_calls st) 80 = Some a"
  shows "tree_wf L mm (set_map (st\<lparr>mm_calls := Suc (mm_calls st)\<rparr>) a (fn_v_InitRootMapNode zero_map_node)) a"
proof -
  let ?n = "fn_v_InitRootMapNode zero_map_node" let ?st = "set_map (st\<lparr>mm_calls := Suc (mm_calls st)\<rparr>) a ?n"
  have "leaf_ok ?st a ?n" "inner_ok ?st a ?n"
    using assms(2) by (simp_all add: leaf_ok_def inner_ok_def residents_def fn_v_InitRootMapNode_def zero_map_node_def)
  then have "node_ok L ?st a a ?n" by (simp add: node_ok_def fn_v_InitRootMapNode_def zero_map_node_def)
  moreover have "mem_ok mm ?st" using assms by (auto simp: mem_ok_def)
  ultimately show ?thesis using assms(1,2) by (simp add: tree_wf_def)
qed

lemma hash_size_word:
  fixes h :: int
  assumes "0 < h" "h < 2 ^ 31"
  shows "\<exists>w :: 32 word. of_int h = w \<and> unat w = nat h \<and> 0 < w"
proof (intro exI conjI)
  show w: "(of_int h :: 32 word) = of_nat (nat h)" using assms(1) by simp
  have "unat (of_nat n :: 32 word) = n" if "n < 2 ^ 32" for n
    using that by (simp add: unsigned_of_nat take_bit_nat_eq_self)
  then show u: "unat (of_nat (nat h) :: 32 word) = nat h" using assms by (simp add: nat_less_iff del: of_nat_nat)
  show "0 < (of_nat (nat h) :: 32 word)"
    unfolding word_less_nat_alt u unat_0 using assms(1) by simp
qed

lemma InitCoreData_wf:
  assumes empty: "map_heap st = Map.empty" "data_heap st = Map.empty" and lock: "lock core = 0"
    and h: "0 < h" "h < 2 ^ 31" and mem: "\<not> mm_refuses mm (mm_calls st) (80 + 16 * nat h)"
  shows "\<exists>st'. fn_v_InitCoreData mm st core h = Inr st' \<and> nla_wf L mm st' \<and> items st' = Map.empty"
proof -
  have ok: "mm k n \<noteq> None" if "mm_calls st \<le> k" "n \<le> 80 + 16 * nat h" for k n
    using mem that by (auto simp: mm_refuses_def)
  obtain a where a: "mm (mm_calls st) 80 = Some a" using ok [of "mm_calls st" 80] by auto
  let ?st1 = "set_map (st\<lparr>mm_calls := Suc (mm_calls st)\<rparr>) a (fn_v_InitRootMapNode zero_map_node)"
  obtain w :: "32 word" where w: "of_int h = w" "unat w = nat h" "0 < w" using hash_size_word [OF h] by blast
  obtain b c where "mm (Suc (mm_calls st)) 24 = Some b" "mm (Suc (Suc (mm_calls st))) (nat h * 16) = Some c"
    using ok [of "Suc (mm_calls st)" 24] ok [of "Suc (Suc (mm_calls st))" "nat h * 16"] by auto
  then obtain sm :: "addr StrMap" and n' where new: "sm_new mm (Suc (mm_calls st)) w = (Some sm, n')"
    by (simp add: sm_new_def w(2))
  from sm_new_eq [OF new w(3)]
  have sm: "strmap_wf sm" "strmap_abs sm = Map.empty" "n' = mm_calls st + 3" by auto
  let ?core = "core\<lparr>p_map_root := Some a, p_data_head := None, p_id2data_map := Some sm\<rparr>"
  let ?st = "?st1\<lparr>mm_calls := n', g_pNLACoreData := Some ?core\<rparr>"
  have r: "fn_v_InitCoreData mm st core h = Inr ?st" using a new by (simp add: fn_v_InitCoreData_def w(1))
  have "tree_wf L mm ?st1 a" by (rule root_tree_wf [where mm = mm, OF empty a])
  then have "tree_wf L mm ?st a" by (rule tree_wf_frame) (simp_all add: sm(3))
  then have "nla_wf L mm ?st" by (intro nla_wfI [of ?st ?core a sm]) (simp_all add: sm lock)
  moreover have "items ?st = Map.empty"
    by (rule ext) (subst items_eq [of ?st ?core sm], simp_all add: sm(1,2))
  ultimately show ?thesis using r by (intro exI [of _ ?st] conjI)
qed


section \<open>Properties\<close>

text \<open>A server just started on the segment that always has room: the state the examples use.\<close>

definition boot_state :: nla_state where
  "boot_state = \<lparr>map_heap = Map.empty, data_heap = Map.empty, mm_calls = 2, g_pNLACoreData = None\<rparr>"

definition boot_core :: nla_core_data where
  "boot_core = \<lparr>p_map_root = None, p_data_head = None, p_id2data_map = None, lock = 0\<rparr>"

lemma boot_started:
  "\<exists>st. fn_v_InitCoreData mm_segment boot_state boot_core 7 = Inr st \<and> nla_wf L mm_segment st \<and>
     items st = Map.empty \<and> mm_calls st = 5 \<and> mm_demand st = 80"
proof -
  have "\<not> mm_refuses mm_segment (mm_calls boot_state) (80 + 16 * nat 7)" by (rule mm_segment_serves) simp
  from InitCoreData_wf [OF _ _ _ _ _ this, where core = boot_core and L = L]
  obtain st where st: "fn_v_InitCoreData mm_segment boot_state boot_core 7 = Inr st" "nla_wf L mm_segment st" "items st = Map.empty"
    by (auto simp: boot_state_def boot_core_def)
  moreover have "mm_calls st = 5" "mm_demand st = 80" using st(1)
    by (auto simp: fn_v_InitCoreData_def mm_segment_def sm_new_def boot_state_def mm_demand_def sm_pairs_def sum_list_replicate)
  ultimately show ?thesis by blast
qed

text \<open>The server after one item was set.\<close>

definition demo_conf :: ngx_http_lookaround_loc_conf where
  "demo_conf = \<lparr>nMapMaxLevel = 2, nMaxMemBufSize = 0, nHashSize = 7\<rparr>"

definition beijing :: nla_2dloc where "beijing = \<lparr>lat = 39904200, lon = 116407400\<rparr>"

definition car7 :: nla_data_item where "car7 = fresh_item ''car7'' beijing 1 2 1700000000"

lemma one_car:
  "\<exists>st0 st d dn. fn_v_InitCoreData mm_segment boot_state boot_core 7 = Inr st0 \<and>
     ngx_http_lookaround_setdataloc 3 mm_segment 1700000000 (Some demo_conf) st0 ''car7'' beijing 1 2 = Inr st \<and>
     nla_wf 2 mm_segment st \<and> items st = [''car7'' \<mapsto> car7] \<and> data_heap st d = Some dn \<and> data dn = car7 \<and>
     p_map_node dn \<noteq> None \<and> (\<forall>x. x \<noteq> d \<longrightarrow> data_heap st x = None)"
proof -
  obtain st0 where st0: "fn_v_InitCoreData mm_segment boot_state boot_core 7 = Inr st0" "nla_wf 2 mm_segment st0"
    "items st0 = Map.empty" "mm_calls st0 = 5" "mm_demand st0 = 80" using boot_started by blast
  have none: "data_heap st0 = Map.empty"
    using st0(1) by (auto simp: fn_v_InitCoreData_def mm_segment_def sm_new_def boot_state_def)
  have serves: "\<not> mm_refuses mm_segment (mm_calls st0) (mm_demand st0)" using st0 by (simp add: mm_segment_serves)
  have "length ''car7'' < NLA_DATA_ID_MAX_LEN" "NUL \<notin> set ''car7''" "is_int32 1" "is_int32 2" "is_int64 1700000000" "is_int32 2"
      "nMapMaxLevel demo_conf = 2" "room 2 st0 3" "items st0 ''car7'' = None"
    using st0 by (simp_all add: is_int32_def is_int64_def demo_conf_def room_def)
  from setdataloc_new [OF st0(2) mm_contract_segment this(6-8) this(1-5,9), of beijing] serves none st0(3)
  obtain st d dn where "ngx_http_lookaround_setdataloc 3 mm_segment 1700000000 (Some demo_conf) st0 ''car7'' beijing 1 2 = Inr st"
    "nla_wf 2 mm_segment st" "items st = [''car7'' \<mapsto> car7]" "data_heap st d = Some dn" "data dn = car7"
    "p_map_node dn \<noteq> None \<longleftrightarrow> fn_b_IsLocInRC fn_v_InitRootRect beijing \<or> (2::int) \<le> 0"
    "\<forall>x. x \<noteq> d \<longrightarrow> map_option data (data_heap st x) = None"
    by (auto simp: car7_def)
  moreover have "fn_b_IsLocInRC fn_v_InitRootRect beijing" by (simp add: fn_b_IsLocInRC_def fn_v_InitRootRect_def beijing_def)
  ultimately show ?thesis using st0(1) by (intro exI [of _ st0] exI [of _ st] exI [of _ d] exI [of _ dn]) simp
qed

text \<open>
  C1. Setting an item refines the abstract update: on a well formed state, with memory left in MM,
  for an id that is new or whose item stays in its leaf, \<open>setdataloc\<close> terminates without fault,
  keeps the invariant, and the map from ids to items changes exactly as \<open>item_update\<close> says.
\<close>

theorem setdataloc_refines:
  assumes wf: "nla_wf L mm st" and mm: "mm_contract mm" and L: "is_int32 L" "nMapMaxLevel cf = L" and room: "room L st fuel"
    and arg: "length k < NLA_DATA_ID_MAX_LEN" "NUL \<notin> set k" "is_int32 s" "is_int32 t" "is_int64 now"
    and known: "items st k = None \<or> stays st k p"
    and mem: "\<not> mm_refuses mm (mm_calls st) (mm_demand st)"
  shows "\<exists>st'. ngx_http_lookaround_setdataloc fuel mm now (Some cf) st k p s t = Inr st' \<and> nla_wf L mm st' \<and>
    items st' = item_update now (items st) k p s t"
proof (cases "items st k")
  case None
  from setdataloc_refines_new [OF wf mm L room arg None mem, of p] obtain st' where
    "ngx_http_lookaround_setdataloc fuel mm now (Some cf) st k p s t = Inr st'" "nla_wf L mm st'"
    "items st' = (items st)(k \<mapsto> fresh_item k p s t now)" by blast
  with None show ?thesis by (simp add: item_update_def fresh_item_def)
next
  case (Some it)
  with known have "stays st k p" by simp
  from setdataloc_stays [OF wf arg(2) this arg(5), of fuel mm "Some cf" s t] Some show ?thesis
    by (auto simp: item_update_def)
qed


theorem setdataloc_refines_witness:
  "\<exists>st st'. fn_v_InitCoreData mm_segment boot_state boot_core 7 = Inr st \<and>
     ngx_http_lookaround_setdataloc 3 mm_segment 1700000000 (Some demo_conf) st ''car7'' beijing 1 2 = Inr st' \<and>
     items st' = [''car7'' \<mapsto> car7]"
proof -
  obtain st where st: "fn_v_InitCoreData mm_segment boot_state boot_core 7 = Inr st" "nla_wf 2 mm_segment st"
    "items st = Map.empty" "mm_calls st = 5" "mm_demand st = 80" using boot_started by blast
  have "\<exists>st'. ngx_http_lookaround_setdataloc 3 mm_segment 1700000000 (Some demo_conf) st ''car7'' beijing 1 2 = Inr st' \<and>
     nla_wf 2 mm_segment st' \<and> items st' = item_update 1700000000 (items st) ''car7'' beijing 1 2"
    by (rule setdataloc_refines)
       (use st mm_contract_segment mm_segment_serves in \<open>simp_all add: room_def is_int32_def is_int64_def demo_conf_def\<close>)
  with st show ?thesis by (auto simp: item_update_def car7_def fresh_item_def)
qed

text \<open>
  C24. Initialisation establishes the invariant: with memory for the root node and the table, and a
  positive hash size, \<open>fn_v_InitCoreData\<close> ends in a well formed state that holds no item.
\<close>

theorem init_establishes_invariant:
  assumes "map_heap st = Map.empty" "data_heap st = Map.empty" "lock core = 0" "0 < h" "h < 2 ^ 31"
    and "\<not> mm_refuses mm (mm_calls st) (80 + 16 * nat h)"
  shows "\<exists>st'. fn_v_InitCoreData mm st core h = Inr st' \<and> nla_wf L mm st' \<and> items st' = Map.empty"
  using assms by (rule InitCoreData_wf)

theorem init_establishes_invariant_witness:
  "\<exists>st'. fn_v_InitCoreData mm_segment boot_state boot_core 19997 = Inr st' \<and> nla_wf 12 mm_segment st' \<and> items st' = Map.empty"
  by (rule init_establishes_invariant)
     (simp_all add: boot_state_def boot_core_def mm_segment_serves)

end
