(* ===== verification/Nla_Search.thy ===== *)
theory Nla_Search
  imports Nla_Items
begin

text \<open>
  The search over the quad tree. \<open>contents\<close> is the specification: the data nodes below a map
  node, in the order a depth first walk meets them. \<open>search_eq\<close> says that the pruned,
  count limited recursion of \<open>ngx_http_lookaround_get_around_data\<close> prints exactly the first
  \<open>iMaxCount\<close> items of that list that match, \<open>contents_complete\<close> that every item hooked into a
  leaf is in the list of the root, and \<open>put_some_text\<close> what is printed and that a buffer of
  \<open>NLA_DATA_JSON_LEN\<close> bytes per item is never overrun.
\<close>

section \<open>What is below a map node\<close>

inductive contents :: "int \<Rightarrow> nla_state \<Rightarrow> addr \<Rightarrow> addr list \<Rightarrow> bool" for L st where
  leaf: "map_heap st a = Some n \<Longrightarrow> L \<le> i_level n \<Longrightarrow> chain (data_heap st) a None (p_data_node n) ds \<Longrightarrow>
    contents L st a ds"
| bare: "map_heap st a = Some n \<Longrightarrow> i_level n < L \<Longrightarrow> ap_childs n = replicate NLA_MAP_CHILD_COUNT None \<Longrightarrow>
    contents L st a []"
| inner: "map_heap st a = Some n \<Longrightarrow> i_level n < L \<Longrightarrow> ap_childs n = [Some b0, Some b1, Some b2, Some b3] \<Longrightarrow>
    contents L st b0 d0 \<Longrightarrow> contents L st b1 d1 \<Longrightarrow> contents L st b2 d2 \<Longrightarrow> contents L st b3 d3 \<Longrightarrow>
    contents L st a (d0 @ d1 @ d2 @ d3)"

definition item_at :: "nla_state \<Rightarrow> addr \<Rightarrow> nla_data_item" where
  "item_at st d = data (the (data_heap st d))"

lemma four_nth: "length xs = 4 \<Longrightarrow> xs = [xs ! 0, xs ! 1, xs ! 2, xs ! 3]"
  by (simp add: list_eq_iff_nth_eq nth_Cons' less_Suc_eq numeral_eq_Suc)

lemma inner_childs:
  assumes wf: "tree_wf L mm st rt" and a: "map_heap st a = Some n" and lt: "i_level n < L"
    and ne: "ap_childs n \<noteq> replicate NLA_MAP_CHILD_COUNT None"
  obtains b0 b1 b2 b3 where "ap_childs n = [Some b0, Some b1, Some b2, Some b3]"
proof -
  have len: "length (ap_childs n) = 4" and "inner_ok st a n"
    using tree_wf_node [OF wf a] lt by (auto simp: node_ok_def)
  with ne have ch: "child_ok st a n i" if "i < 4" for i using that by (auto simp: inner_ok_def)
  obtain b0 b1 b2 b3 where "ap_childs n ! 0 = Some b0" "ap_childs n ! 1 = Some b1"
    "ap_childs n ! 2 = Some b2" "ap_childs n ! 3 = Some b3"
    using ch [of 0] ch [of 1] ch [of 2] ch [of 3] by (auto simp: child_ok_def)
  with four_nth [OF len] that show thesis by simp
qed

text \<open>Facts on the children of an inner node, as the proofs below use them.\<close>

lemma childs_facts:
  assumes wf: "tree_wf L mm st rt" and a: "map_heap st a = Some n" and cs: "ap_childs n = [Some b0, Some b1, Some b2, Some b3]"
    and i: "i < NLA_MAP_CHILD_COUNT" "b = [b0, b1, b2, b3] ! i"
  shows "\<exists>m. map_heap st b = Some m \<and> i_level m = i_level n + 1 \<and> 0 < i_level m \<and> rc m = child_rc (rc n) i \<and>
    (i_item_count m \<noteq> 0 \<longrightarrow> i_item_count n \<noteq> 0) \<and> rect_ok (rc n)"
proof -
  have "ap_childs n ! i = Some b" using i cs by (auto simp: less_Suc_eq numeral_eq_Suc)
  from child_of_unique(2) [OF wf a i(1) this] tree_wf_node [OF wf a] show ?thesis
    by (auto simp: node_ok_def)
qed

lemma childs_all:
  assumes wf: "tree_wf L mm st rt" and a: "map_heap st a = Some n" and cs: "ap_childs n = [Some b0, Some b1, Some b2, Some b3]"
  obtains m0 m1 m2 m3 where
    "map_heap st b0 = Some m0" "rc m0 = child_rc (rc n) 0" "map_heap st b1 = Some m1" "rc m1 = child_rc (rc n) 1"
    "map_heap st b2 = Some m2" "rc m2 = child_rc (rc n) 2" "map_heap st b3 = Some m3" "rc m3 = child_rc (rc n) 3"
    "\<forall>m \<in> {m0, m1, m2, m3}. i_level m = i_level n + 1 \<and> 0 < i_level m \<and> (i_item_count m \<noteq> 0 \<longrightarrow> i_item_count n \<noteq> 0)"
    "rect_ok (rc n)"
proof -
  note f = childs_facts [OF wf a cs]
  obtain m0 where m0: "map_heap st b0 = Some m0 \<and> i_level m0 = i_level n + 1 \<and> 0 < i_level m0 \<and> rc m0 = child_rc (rc n) 0 \<and>
    (i_item_count m0 \<noteq> 0 \<longrightarrow> i_item_count n \<noteq> 0) \<and> rect_ok (rc n)" using f [of 0 b0] by auto
  obtain m1 where m1: "map_heap st b1 = Some m1 \<and> i_level m1 = i_level n + 1 \<and> 0 < i_level m1 \<and> rc m1 = child_rc (rc n) 1 \<and>
    (i_item_count m1 \<noteq> 0 \<longrightarrow> i_item_count n \<noteq> 0) \<and> rect_ok (rc n)" using f [of 1 b1] by auto
  obtain m2 where m2: "map_heap st b2 = Some m2 \<and> i_level m2 = i_level n + 1 \<and> 0 < i_level m2 \<and> rc m2 = child_rc (rc n) 2 \<and>
    (i_item_count m2 \<noteq> 0 \<longrightarrow> i_item_count n \<noteq> 0) \<and> rect_ok (rc n)" using f [of 2 b2] by auto
  obtain m3 where m3: "map_heap st b3 = Some m3 \<and> i_level m3 = i_level n + 1 \<and> 0 < i_level m3 \<and> rc m3 = child_rc (rc n) 3 \<and>
    (i_item_count m3 \<noteq> 0 \<longrightarrow> i_item_count n \<noteq> 0) \<and> rect_ok (rc n)" using f [of 3 b3] by auto
  from m0 m1 m2 m3 show thesis by (intro that [of m0 m1 m2 m3]) simp_all
qed

lemma contents_exists:
  assumes wf: "tree_wf L mm st rt"
  shows "map_heap st a = Some n \<Longrightarrow> \<exists>ds. contents L st a ds"
proof (induction "nat (L - i_level n)" arbitrary: a n)
  case 0
  with tree_wf_node [OF wf 0(2)] have "leaf_ok st a n" by (auto simp: node_ok_def)
  with 0 show ?case by (auto simp: leaf_ok_def intro: contents.leaf)
next
  case (Suc k)
  then have lt: "i_level n < L" by simp
  show ?case
  proof (cases "ap_childs n = replicate NLA_MAP_CHILD_COUNT None")
    case True
    with Suc.prems lt show ?thesis by (blast intro: contents.bare)
  next
    case False
    obtain b0 b1 b2 b3 where cs: "ap_childs n = [Some b0, Some b1, Some b2, Some b3]"
      using inner_childs [OF wf Suc.prems lt False] .
    have "\<exists>ds. contents L st b ds" if i: "i < NLA_MAP_CHILD_COUNT" "b = [b0, b1, b2, b3] ! i" for i b
    proof -
      from childs_facts [OF wf Suc.prems cs i] obtain m where m: "map_heap st b = Some m" "i_level m = i_level n + 1" by blast
      with Suc.hyps(2) have "k = nat (L - i_level m)" by simp
      then show ?thesis using Suc.hyps(1) m(1) by blast
    qed
    from this [of 0] this [of 1] this [of 2] this [of 3] obtain d0 d1 d2 d3 where
      "contents L st b0 d0" "contents L st b1 d1" "contents L st b2 d2" "contents L st b3 d3" by auto
    with contents.inner [OF Suc.prems lt cs] show ?thesis by blast
  qed
qed

lemma contents_leafD:
  "contents L st a ds \<Longrightarrow> map_heap st a = Some n \<Longrightarrow> L \<le> i_level n \<Longrightarrow> chain (data_heap st) a None (p_data_node n) ds"
  by (erule contents.cases) simp_all

lemma contents_bareD:
  "contents L st a ds \<Longrightarrow> map_heap st a = Some n \<Longrightarrow> i_level n < L \<Longrightarrow> ap_childs n = replicate NLA_MAP_CHILD_COUNT None \<Longrightarrow>
   ds = []"
  by (erule contents.cases) (simp_all add: numeral_eq_Suc)

lemma contents_innerD:
  "contents L st a ds \<Longrightarrow> map_heap st a = Some n \<Longrightarrow> i_level n < L \<Longrightarrow> ap_childs n = [Some b0, Some b1, Some b2, Some b3] \<Longrightarrow>
   \<exists>d0 d1 d2 d3. ds = d0 @ d1 @ d2 @ d3 \<and> contents L st b0 d0 \<and> contents L st b1 d1 \<and> contents L st b2 d2 \<and> contents L st b3 d3"
  by (erule contents.cases) (simp_all add: numeral_eq_Suc, blast)

lemma contents_det: "contents L st a ds \<Longrightarrow> contents L st a ds' \<Longrightarrow> ds' = ds"
proof (induction arbitrary: ds' rule: contents.induct)
  case (leaf a n ds)
  from contents_leafD [OF leaf(4,1,2)] leaf(3) show ?case by (rule chain_unique)
next
  case (bare a n)
  from contents_bareD [OF bare(4,1,2,3)] show ?case .
next
  case (inner a n b0 b1 b2 b3 d0 d1 d2 d3)
  from contents_innerD [OF inner.prems inner(1,2,3)] inner.IH show ?case by metis
qed

lemma contents_node:
  assumes wf: "tree_wf L mm st rt"
  shows "contents L st a ds \<Longrightarrow> d \<in> set ds \<Longrightarrow> data_heap st d \<noteq> None"
proof (induction rule: contents.induct)
  case (leaf a n ds)
  then show ?case by (auto dest: chain_member)
qed auto

text \<open>Everything below a node other than the root lies in its rectangle.\<close>

lemma contents_inside:
  assumes wf: "tree_wf L mm st rt"
  shows "contents L st a ds \<Longrightarrow> map_heap st a = Some n \<Longrightarrow> 0 < i_level n \<Longrightarrow>
    \<forall>d \<in> set ds. fn_b_IsLocInRC (rc n) (loc (item_at st d))"
proof (induction arbitrary: n rule: contents.induct)
  case (leaf a m ds)
  show ?case
  proof
    fix d assume "d \<in> set ds"
    with leaf(3) obtain dn where dn: "data_heap st d = Some dn" "p_map_node dn = Some a" by (blast dest: chain_member)
    with tree_wf_data [OF wf dn(1)] leaf show "fn_b_IsLocInRC (rc n) (loc (item_at st d))"
      by (auto simp: data_ok_def item_at_def)
  qed
next
  case (inner a m b0 b1 b2 b3 d0 d1 d2 d3)
  then have n: "n = m" by simp
  obtain m0 m1 m2 m3 where ms: "map_heap st b0 = Some m0" "rc m0 = child_rc (rc m) 0" "map_heap st b1 = Some m1"
    "rc m1 = child_rc (rc m) 1" "map_heap st b2 = Some m2" "rc m2 = child_rc (rc m) 2" "map_heap st b3 = Some m3"
    "rc m3 = child_rc (rc m) 3" and lev: "\<forall>x \<in> {m0, m1, m2, m3}. i_level x = i_level m + 1 \<and> 0 < i_level x \<and>
      (i_item_count x \<noteq> 0 \<longrightarrow> i_item_count m \<noteq> 0)" and ok: "rect_ok (rc m)"
    using childs_all [OF wf inner(1,3)] .
  have sub: "fn_b_IsLocInRC (rc m) p" if "fn_b_IsLocInRC (child_rc (rc m) i) p" "i < 4" for i p
    using quad.part_subset [OF ok that(2,1)] .
  have "\<forall>d \<in> set d0. fn_b_IsLocInRC (rc m) (loc (item_at st d))" using inner.IH(1) [OF ms(1)] lev ms(2) sub [of 0] by simp
  moreover have "\<forall>d \<in> set d1. fn_b_IsLocInRC (rc m) (loc (item_at st d))" using inner.IH(2) [OF ms(3)] lev ms(4) sub [of 1] by simp
  moreover have "\<forall>d \<in> set d2. fn_b_IsLocInRC (rc m) (loc (item_at st d))" using inner.IH(3) [OF ms(5)] lev ms(6) sub [of 2] by simp
  moreover have "\<forall>d \<in> set d3. fn_b_IsLocInRC (rc m) (loc (item_at st d))" using inner.IH(4) [OF ms(7)] lev ms(8) sub [of 3] by simp
  ultimately show ?case unfolding n by auto
qed simp

lemma contents_zero:
  assumes wf: "tree_wf L mm st rt"
  shows "contents L st a ds \<Longrightarrow> map_heap st a = Some n \<Longrightarrow> i_item_count n = 0 \<Longrightarrow> ds = []"
proof (induction arbitrary: n rule: contents.induct)
  case (leaf a m ds)
  with tree_wf_node [OF wf leaf(1)] have "p_data_node m = None" by (auto simp: node_ok_def leaf_ok_def)
  with leaf show ?case by simp
next
  case (inner a m b0 b1 b2 b3 d0 d1 d2 d3)
  obtain m0 m1 m2 m3 where ms: "map_heap st b0 = Some m0" "map_heap st b1 = Some m1" "map_heap st b2 = Some m2" "map_heap st b3 = Some m3"
    and cnt: "\<forall>x \<in> {m0, m1, m2, m3}. i_level x = i_level m + 1 \<and> 0 < i_level x \<and> (i_item_count x \<noteq> 0 \<longrightarrow> i_item_count m \<noteq> 0)"
    using childs_all [OF wf inner(1,3)] .
  have "i_item_count m = 0" using inner.prems inner(1) by simp
  with cnt have "i_item_count m0 = 0" "i_item_count m1 = 0" "i_item_count m2 = 0" "i_item_count m3 = 0" by simp_all
  then show ?case using inner.IH(1) [OF ms(1)] inner.IH(2) [OF ms(2)] inner.IH(3) [OF ms(3)] inner.IH(4) [OF ms(4)] by simp
qed simp


section \<open>The search on lists\<close>

text \<open>What the search does with a list of matching items: print until the limit is reached.\<close>

primrec put_some :: "int \<Rightarrow> nla_ex_param \<Rightarrow> nla_data_item list \<Rightarrow> nla_ex_param c_result" where
  "put_some k ex [] = Inr ex"
| "put_some k ex (it # its) =
     (if ex_count ex < k then bindr (put_json ex it) (\<lambda>ex'. put_some k ex' its) else Inr ex)"

lemma bindr_cong: "(\<And>x. m = Inr x \<Longrightarrow> f x = g x) \<Longrightarrow> bindr m f = bindr m g"
  by (auto simp: bindr_def split: sum.splits)

lemma bindr_assoc [simp]: "bindr (bindr m f) g = bindr m (\<lambda>x. bindr (f x) g)"
  by (auto simp: bindr_def split: sum.splits)

lemma bindr_Inr [simp]: "bindr m Inr = m"
  by (auto simp: bindr_def split: sum.splits)

lemma put_some_full: "k \<le> ex_count ex \<Longrightarrow> put_some k ex its = Inr ex"
  by (cases its) auto

lemma put_some_append: "put_some k ex (xs @ ys) = bindr (put_some k ex xs) (\<lambda>ex'. put_some k ex' ys)"
  by (induction xs arbitrary: ex) (auto simp: put_some_full)

lemma put_json_conf: "put_json ex it = Inr ex' \<Longrightarrow> p_conf ex' = p_conf ex"
  by (auto simp: put_json_def bindr_Inr_iff split: if_splits)

lemma put_some_conf: "put_some k ex its = Inr ex' \<Longrightarrow> p_conf ex' = p_conf ex"
  by (induction its arbitrary: ex) (auto simp: bindr_Inr_iff put_json_conf split: if_splits)

text \<open>Four printers in a row print the four lists in a row.\<close>

lemma put_some_chain:
  assumes "\<And>e. p_conf e = c \<Longrightarrow> f0 e = put_some k e x0" "\<And>e. p_conf e = c \<Longrightarrow> f1 e = put_some k e x1"
    "\<And>e. p_conf e = c \<Longrightarrow> f2 e = put_some k e x2" "\<And>e. p_conf e = c \<Longrightarrow> f3 e = put_some k e x3" "p_conf ex = c"
  shows "bindr (f0 ex) (\<lambda>e. bindr (f1 e) (\<lambda>e. bindr (f2 e) (\<lambda>e. f3 e))) = put_some k ex (x0 @ x1 @ x2 @ x3)"
proof -
  have 3: "f3 e = put_some k e x3" if "p_conf e = c" for e using assms(4) that .
  have 2: "bindr (f2 e) (\<lambda>e. f3 e) = put_some k e (x2 @ x3)" if "p_conf e = c" for e
    unfolding put_some_append assms(3) [OF that] by (rule bindr_cong) (use 3 that put_some_conf in metis)
  have 1: "bindr (f1 e) (\<lambda>e. bindr (f2 e) (\<lambda>e. f3 e)) = put_some k e (x1 @ x2 @ x3)" if "p_conf e = c" for e
    unfolding put_some_append [of k e x1] assms(2) [OF that] by (rule bindr_cong) (use 2 that put_some_conf in metis)
  show ?thesis
    unfolding put_some_append [of k ex x0] assms(1) [OF assms(5)] by (rule bindr_cong) (use 1 assms(5) put_some_conf in metis)
qed

abbreviation matching :: "nla_state \<Rightarrow> int \<Rightarrow> int \<Rightarrow> nla_rect \<Rightarrow> addr list \<Rightarrow> nla_data_item list" where
  "matching st s t r ds \<equiv> filter (item_selected s t r) (map (item_at st) ds)"

lemma get_around_list_eq:
  "chain (data_heap st) a pr p ds \<Longrightarrow> length ds < fuel \<Longrightarrow>
   get_around_list fuel st p r s t k ex = put_some k ex (matching st s t r ds)"
proof (induction ds arbitrary: pr p fuel ex)
  case Nil
  then show ?case by (cases fuel) auto
next
  case (Cons d ds)
  then obtain f dn where f: "fuel = Suc f" and p: "p = Some d" and dn: "data_heap st d = Some dn"
    and ch: "chain (data_heap st) a (Some d) (nxt dn) ds" by (cases fuel) auto
  have it: "item_at st d = data dn" by (simp add: item_at_def dn)
  have IH: "get_around_list f st (nxt dn) r s t k e = put_some k e (matching st s t r ds)" for e
    using Cons.IH [OF ch] Cons.prems(2) f by simp
  then have IH': "get_around_list f st (nxt dn) r s t k = (\<lambda>e. put_some k e (matching st s t r ds))" by blast
  show ?case by (simp add: f p dn it IH' put_some_full)
qed

text \<open>Pruning and narrowing do not change which items below a child match.\<close>

lemma matching_child:
  assumes "\<forall>d \<in> set ds. fn_b_IsLocInRC c (loc (item_at st d))"
  shows "fn_b_IntersectRc c r = Some r' \<Longrightarrow> matching st s t r' ds = matching st s t r ds"
    and "fn_b_IntersectRc c r = None \<Longrightarrow> matching st s t r ds = []"
proof -
  have sel: "item_selected s t q = (\<lambda>x. ((t = NLA_INVALID_TYPE \<or> t = i_type x) \<and> (s = NLA_INVALID_STATUS \<or> s = i_status x)) \<and>
      fn_b_IsLocInRC q (loc x))" for q by (auto simp: item_selected_def fun_eq_iff)
  have all: "\<forall>x \<in> set (map (item_at st) ds). fn_b_IsLocInRC c (loc x)" using assms by simp
  show "matching st s t r' ds = matching st s t r ds" if "fn_b_IntersectRc c r = Some r'"
    unfolding sel using that all by (rule rect.filter_narrow)
  show "matching st s t r ds = []" if "fn_b_IntersectRc c r = None"
    unfolding sel using that all by (rule rect.filter_pruned)
qed

section \<open>The search on the tree\<close>

text \<open>One turn of the loop over the children.\<close>

definition search_child ::
    "nat \<Rightarrow> nat \<Rightarrow> nla_state \<Rightarrow> ptr \<Rightarrow> nla_rect \<Rightarrow> int \<Rightarrow> int \<Rightarrow> int \<Rightarrow> nla_ex_param \<Rightarrow> nla_ex_param c_result" where
  "search_child lfuel fuel st b r s t k ex =
     bindr (deref (map_heap st) b) (\<lambda>child.
       case fn_b_IntersectRc (rc child) r of
         None \<Rightarrow> Inr ex
       | Some r' \<Rightarrow> ngx_http_lookaround_get_around_data lfuel fuel st b r' s t k ex)"

lemma search_child_eq:
  assumes m: "map_heap st b = Some m" and inside: "\<forall>d \<in> set ds. fn_b_IsLocInRC (rc m) (loc (item_at st d))"
    and IH: "\<And>r. ngx_http_lookaround_get_around_data lfuel fuel st (Some b) r s t k ex = put_some k ex (matching st s t r ds)"
  shows "search_child lfuel fuel st (Some b) r s t k ex = put_some k ex (matching st s t r ds)"
  using matching_child [OF inside] m IH
  by (cases "fn_b_IntersectRc (rc m) r") (simp_all add: search_child_def)

lemma search_inner_eq:
  assumes a: "map_heap st a = Some n" and cf: "p_conf ex = Some cf" and lt: "i_level n < nMapMaxLevel cf"
    and cnt: "i_item_count n \<noteq> 0" and cs: "ap_childs n = [Some b0, Some b1, Some b2, Some b3]"
  shows "ngx_http_lookaround_get_around_data lfuel (Suc fuel) st (Some a) r s t k ex =
    bindr (search_child lfuel fuel st (Some b0) r s t k ex) (\<lambda>ex.
    bindr (search_child lfuel fuel st (Some b1) r s t k ex) (\<lambda>ex.
    bindr (search_child lfuel fuel st (Some b2) r s t k ex) (\<lambda>ex.
      search_child lfuel fuel st (Some b3) r s t k ex)))"
proof -
  have four: "[0..<4] = [0, 1, 2, 3::nat]" by (simp add: upt_rec)
  have "ngx_http_lookaround_get_around_data lfuel (Suc fuel) st (Some a) r s t k ex =
    foldl (\<lambda>x i. bindr x (\<lambda>ex'. search_child lfuel fuel st (ap_childs n ! i) r s t k ex')) (Inr ex) [0..<NLA_MAP_CHILD_COUNT]"
    using a cf lt cnt cs by (simp add: search_child_def cong: option.case_cong)
  then show ?thesis by (simp add: four cs)
qed

lemma search_eq:
  assumes wf: "tree_wf L mm st rt" and L: "nMapMaxLevel cf = L"
  shows "contents L st a ds \<Longrightarrow> map_heap st a = Some n \<Longrightarrow> nat (L - i_level n) < fuel \<Longrightarrow> length ds < lfuel \<Longrightarrow>
    p_conf ex = Some cf \<Longrightarrow>
    ngx_http_lookaround_get_around_data lfuel fuel st (Some a) r s t k ex = put_some k ex (matching st s t r ds)"
proof (induction arbitrary: n fuel r ex rule: contents.induct)
  case (leaf a m ds)
  then obtain f where f: "fuel = Suc f" by (cases fuel) auto
  show ?case
  proof (cases "i_item_count m = 0")
    case True
    with contents_zero [OF wf contents.leaf [OF leaf.hyps] leaf.hyps(1)] leaf show ?thesis by (simp add: f)
  next
    case False
    with leaf L get_around_list_eq [OF leaf(3), of lfuel] show ?thesis by (simp add: f)
  qed
next
  case (bare a m)
  then obtain f where f: "fuel = Suc f" by (cases fuel) auto
  show ?case using bare L by (simp add: f)
next
  case (inner a m b0 b1 b2 b3 d0 d1 d2 d3)
  then have n: "n = m" by simp
  from inner.prems obtain f where f: "fuel = Suc f" by (cases fuel) auto
  show ?case
  proof (cases "i_item_count m = 0")
    case True
    with contents_zero [OF wf contents.inner [OF inner.hyps] inner.hyps(1)] inner.hyps(1) show ?thesis by (simp add: f)
  next
    case False
    obtain m0 m1 m2 m3 where ms: "map_heap st b0 = Some m0" "map_heap st b1 = Some m1" "map_heap st b2 = Some m2"
      "map_heap st b3 = Some m3" and lev: "\<forall>x \<in> {m0, m1, m2, m3}. i_level x = i_level m + 1 \<and> 0 < i_level x \<and>
        (i_item_count x \<noteq> 0 \<longrightarrow> i_item_count m \<noteq> 0)"
      using childs_all [OF wf inner.hyps(1,3)] .
    have fuel: "nat (L - i_level m0) < f" "nat (L - i_level m1) < f" "nat (L - i_level m2) < f" "nat (L - i_level m3) < f"
      using inner.prems(2) inner.hyps(2) lev f n by simp_all
    have pos: "0 < i_level m0" "0 < i_level m1" "0 < i_level m2" "0 < i_level m3" using lev by simp_all
    have len: "length d0 < lfuel" "length d1 < lfuel" "length d2 < lfuel" "length d3 < lfuel"
      using inner.prems(3) by simp_all
    note ins = contents_inside [OF wf]
    have s: "search_child lfuel f st (Some b0) r s t k e = put_some k e (matching st s t r d0)"
      "search_child lfuel f st (Some b1) r s t k e = put_some k e (matching st s t r d1)"
      "search_child lfuel f st (Some b2) r s t k e = put_some k e (matching st s t r d2)"
      "search_child lfuel f st (Some b3) r s t k e = put_some k e (matching st s t r d3)" if e: "p_conf e = Some cf" for e
      using search_child_eq [OF ms(1) ins [OF inner.hyps(4) ms(1) pos(1)] inner.IH(1) [OF ms(1) fuel(1) len(1) e]]
        search_child_eq [OF ms(2) ins [OF inner.hyps(5) ms(2) pos(2)] inner.IH(2) [OF ms(2) fuel(2) len(2) e]]
        search_child_eq [OF ms(3) ins [OF inner.hyps(6) ms(3) pos(3)] inner.IH(3) [OF ms(3) fuel(3) len(3) e]]
        search_child_eq [OF ms(4) ins [OF inner.hyps(7) ms(4) pos(4)] inner.IH(4) [OF ms(4) fuel(4) len(4) e]]
      by simp_all
    show ?thesis
      unfolding f search_inner_eq [OF inner.hyps(1) inner.prems(4) inner.hyps(2) [folded L] False inner.hyps(3)]
        map_append filter_append
      by (rule put_some_chain [OF s inner.prems(4)])
  qed
qed


section \<open>Completeness\<close>

lemma contents_resident: "contents L st a ds \<Longrightarrow> d \<in> set ds \<Longrightarrow> \<exists>x. d \<in> residents st x"
  by (induction rule: contents.induct) (auto simp: residents_def dest: chain_member)

lemma contents_upwards:
  assumes wf: "tree_wf L mm st rt" and rt: "contents L st rt ds"
  shows "contents L st x xs \<Longrightarrow> map_heap st x = Some n \<Longrightarrow> set xs \<subseteq> set ds"
proof (induction "nat (i_level n)" arbitrary: x n xs rule: less_induct)
  case less
  show ?case
  proof (cases "x = rt")
    case True
    with contents_det [OF rt] less.prems(1) show ?thesis by simp
  next
    case False
    with tree_wf_node [OF wf less.prems(2)] have "parent_ok st x n" by (simp add: node_ok_def)
    then obtain p m i where p: "map_heap st p = Some m" "i < NLA_MAP_CHILD_COUNT" "ap_childs m ! i = Some x"
      by (auto simp: parent_ok_def)
    note own = child_of_unique [OF wf p]
    have lev: "i_level n = i_level m + 1" using own(2) less.prems(2) by auto
    have "0 \<le> i_level m" using tree_wf_node [OF wf p(1)] by (simp add: node_ok_def)
    with lev have lt: "nat (i_level m) < nat (i_level n)" by simp
    have "ap_childs m \<noteq> replicate NLA_MAP_CHILD_COUNT None" using p(2,3) by auto
    with inner_childs [OF wf p(1) own(1)] obtain b0 b1 b2 b3 where cs: "ap_childs m = [Some b0, Some b1, Some b2, Some b3]" .
    obtain ps where ps: "contents L st p ps" using contents_exists [OF wf p(1)] by blast
    from contents_innerD [OF ps p(1) own(1) cs] obtain d0 d1 d2 d3 where d: "ps = d0 @ d1 @ d2 @ d3"
      "contents L st b0 d0" "contents L st b1 d1" "contents L st b2 d2" "contents L st b3 d3" by blast
    have "x = b0 \<or> x = b1 \<or> x = b2 \<or> x = b3" using p(2,3) cs by (auto simp: numeral_eq_Suc less_Suc_eq)
    then have "set xs \<subseteq> set ps" using d contents_det [OF less.prems(1)] by auto
    with less.hyps [OF lt ps p(1)] show ?thesis by blast
  qed
qed

lemma contents_complete:
  assumes wf: "tree_wf L mm st rt" and rt: "contents L st rt ds"
  shows "d \<in> set ds \<longleftrightarrow> (\<exists>dn a. data_heap st d = Some dn \<and> p_map_node dn = Some a)"
proof
  assume "d \<in> set ds"
  then show "\<exists>dn a. data_heap st d = Some dn \<and> p_map_node dn = Some a"
    using contents_resident [OF rt] unfolding residents_def by blast
next
  assume "\<exists>dn a. data_heap st d = Some dn \<and> p_map_node dn = Some a"
  then obtain dn a where d: "data_heap st d = Some dn" "p_map_node dn = Some a" by blast
  with tree_wf_data [OF wf d(1)] obtain n where n: "map_heap st a = Some n" "L \<le> i_level n" by (auto simp: data_ok_def)
  with tree_wf_node [OF wf n(1)] obtain es where es: "chain (data_heap st) a None (p_data_node n) es" "set es = residents st a"
    by (auto simp: node_ok_def leaf_ok_def)
  have "d \<in> set es" using es(2) d by (auto simp: residents_def)
  then show "d \<in> set ds" using contents_upwards [OF wf rt contents.leaf [OF n es(1)] n(1)] by blast
qed

text \<open>No item is met twice: items below different children lie in different rectangles.\<close>

lemma contents_distinct:
  assumes wf: "tree_wf L mm st rt"
  shows "contents L st a ds \<Longrightarrow> distinct ds"
proof (induction rule: contents.induct)
  case (leaf a n ds)
  then show ?case by (blast dest: chain_distinct)
next
  case (inner a n b0 b1 b2 b3 d0 d1 d2 d3)
  obtain m0 m1 m2 m3 where ms: "map_heap st b0 = Some m0" "rc m0 = child_rc (rc n) 0" "map_heap st b1 = Some m1"
    "rc m1 = child_rc (rc n) 1" "map_heap st b2 = Some m2" "rc m2 = child_rc (rc n) 2" "map_heap st b3 = Some m3"
    "rc m3 = child_rc (rc n) 3" and lev: "\<forall>x \<in> {m0, m1, m2, m3}. i_level x = i_level n + 1 \<and> 0 < i_level x \<and>
      (i_item_count x \<noteq> 0 \<longrightarrow> i_item_count n \<noteq> 0)" and ok: "rect_ok (rc n)"
    using childs_all [OF wf inner.hyps(1,3)] .
  have pos: "0 < i_level m0" "0 < i_level m1" "0 < i_level m2" "0 < i_level m3" using lev by simp_all
  have idx: "fn_i_GetChildRcIdx (rc n) (loc (item_at st d)) = int i" if "fn_b_IsLocInRC (child_rc (rc n) i) (loc (item_at st d))" "i < 4" for d i
    using that child_rc_contains [OF ok that(2)] by blast
  note ins = contents_inside [OF wf]
  have "\<forall>d \<in> set d0. fn_i_GetChildRcIdx (rc n) (loc (item_at st d)) = 0"
    using ins [OF inner.hyps(4) ms(1) pos(1)] idx [of 0] unfolding ms by simp
  moreover have "\<forall>d \<in> set d1. fn_i_GetChildRcIdx (rc n) (loc (item_at st d)) = 1"
    using ins [OF inner.hyps(5) ms(3) pos(2)] idx [of 1] unfolding ms by simp
  moreover have "\<forall>d \<in> set d2. fn_i_GetChildRcIdx (rc n) (loc (item_at st d)) = 2"
    using ins [OF inner.hyps(6) ms(5) pos(3)] idx [of 2] unfolding ms by simp
  moreover have "\<forall>d \<in> set d3. fn_i_GetChildRcIdx (rc n) (loc (item_at st d)) = 3"
    using ins [OF inner.hyps(7) ms(7) pos(4)] idx [of 3] unfolding ms by simp
  ultimately show ?case using inner.IH by fastforce
qed simp

section \<open>What is printed\<close>

definition item_text :: "nla_data_item \<Rightarrow> string" where
  "item_text it = projr (fn_v_FormatDataItem it)"

definition printable :: "nla_data_item \<Rightarrow> bool" where
  "printable it \<longleftrightarrow> item_ok it \<and> - 100000000 < lat (loc it) \<and> is_int32 (lat (loc it)) \<and>
     - 100000000 < lon (loc it) \<and> is_int32 (lon (loc it))"

lemma FormatDeg_fits: "- 100000000 < d \<Longrightarrow> is_int32 d \<Longrightarrow> length (fn_v_FormatDeg d) < NLA_DEG_MAX_BUF_LEN"
  by (cases "0 \<le> d") (simp_all add: FormatDeg_length_nonneg FormatDeg_length_neg)

lemma printable_text:
  assumes "printable it"
  shows "fn_v_FormatDataItem it = Inr (item_text it)" "length (item_text it) \<le> 156"
proof -
  obtain s where s: "fn_v_FormatDataItem it = Inr s"
    using assms FormatDeg_fits [of "lat (loc it)"] FormatDeg_fits [of "lon (loc it)"]
    by (auto simp: printable_def fn_v_FormatDataItem_def Let_def)
  then show "fn_v_FormatDataItem it = Inr (item_text it)" by (simp add: item_text_def)
  with FormatDataItem_length [of it] assms show "length (item_text it) \<le> 156" by (auto simp: printable_def item_ok_def)
qed

definition json_list :: "nla_data_item list \<Rightarrow> string" where
  "json_list its = concat (map (\<lambda>it. item_text it @ '','') its)"

lemma put_some_text:
  "\<forall>it \<in> set its. printable it \<Longrightarrow> 0 \<le> ex_count ex \<Longrightarrow> k < 2 ^ 31 \<Longrightarrow>
   length (sz_json ex) + 157 * nat (k - ex_count ex) + 1 \<le> json_size ex \<Longrightarrow>
   put_some k ex its = Inr (ex\<lparr>sz_json := sz_json ex @ json_list (take (nat (k - ex_count ex)) its),
     ex_count := ex_count ex + int (length (take (nat (k - ex_count ex)) its))\<rparr>)"
proof (induction its arbitrary: ex)
  case Nil
  then show ?case by (simp add: json_list_def)
next
  case (Cons it its)
  show ?case
  proof (cases "ex_count ex < k")
    case False
    then show ?thesis by (simp add: json_list_def)
  next
    case True
    let ?ex = "ex\<lparr>sz_json := sz_json ex @ item_text it @ '','', ex_count := ex_count ex + 1\<rparr>"
    have it: "printable it" using Cons.prems(1) by simp
    have w: "wrap32 (ex_count ex + 1) = ex_count ex + 1"
      using True Cons.prems(2,3) by (intro wrap32_id) (simp add: is_int32_def)
    have suc: "nat (k - ex_count ex) = Suc (nat (k - (ex_count ex + 1)))" using True by simp
    have room: "length (sz_json ex) + length (item_text it) + 2 \<le> json_size ex"
      using Cons.prems(4) printable_text(2) [OF it] suc by simp
    have put: "put_json ex it = Inr ?ex" using room by (simp add: put_json_def printable_text(1) [OF it] w)
    have "put_some k ?ex its = Inr (?ex\<lparr>sz_json := sz_json ?ex @ json_list (take (nat (k - ex_count ?ex)) its),
       ex_count := ex_count ?ex + int (length (take (nat (k - ex_count ?ex)) its))\<rparr>)"
      using Cons.prems printable_text(2) [OF it] suc by (intro Cons.IH) simp_all
    with True put show ?thesis by (simp add: suc json_list_def del: length_take)
  qed
qed


section \<open>Properties\<close>

lemma distinct_single: "distinct xs \<Longrightarrow> set xs = {x} \<Longrightarrow> xs = [x]"
  by (cases xs; cases "tl xs") auto

text \<open>
  C2. The search is exact: on a well formed state whose items are printable, with room in the
  buffer, there is a list without repetitions of exactly the items hooked into the tree, such that
  the search prints the first \<open>iMaxCount\<close> items of it that have the requested type and status and
  lie in the requested rectangle, for any fuel above the depth and the number of items. It neither
  faults nor overruns the buffer.
\<close>

theorem search_exact:
  assumes wf: "nla_wf L mm st" and core: "g_pNLACoreData st = Some core"
    and cf: "p_conf ex = Some cf" "nMapMaxLevel cf = L"
    and print: "\<forall>d dn. data_heap st d = Some dn \<longrightarrow> printable (data dn)"
    and room: "0 \<le> ex_count ex" "k < 2 ^ 31" "length (sz_json ex) + 157 * nat (k - ex_count ex) + 1 \<le> json_size ex"
  shows "\<exists>ds. distinct ds \<and> (\<forall>d. d \<in> set ds \<longleftrightarrow> (\<exists>dn a. data_heap st d = Some dn \<and> p_map_node dn = Some a)) \<and>
    (\<forall>lfuel fuel. length ds < lfuel \<longrightarrow> nat L < fuel \<longrightarrow>
      (let found = take (nat (k - ex_count ex)) (filter (item_selected s t r) (map (item_at st) ds)) in
       ngx_http_lookaround_get_around_data lfuel fuel st (p_map_root core) r s t k ex =
         Inr (ex\<lparr>sz_json := sz_json ex @ json_list found, ex_count := ex_count ex + int (length found)\<rparr>)))"
proof -
  from wf core obtain rt where rt: "p_map_root core = Some rt" and tree: "tree_wf L mm st rt" by (auto simp: nla_wf_def)
  then obtain n where n: "map_heap st rt = Some n" by (auto simp: tree_wf_def)
  with tree have lev: "i_level n = 0" by (auto simp: node_ok_def dest: tree_wf_node)
  obtain ds where ds: "contents L st rt ds" using contents_exists [OF tree n] by blast
  have "\<forall>it \<in> set (matching st s t r ds). printable it"
    using contents_node [OF tree ds] print by (auto simp: item_at_def)
  note printed = put_some_text [OF this room]
  have "ngx_http_lookaround_get_around_data lfuel fuel st (p_map_root core) r s t k ex = put_some k ex (matching st s t r ds)"
    if "length ds < lfuel" "nat L < fuel" for lfuel fuel
    unfolding rt by (rule search_eq [OF tree cf(2) ds n _ that(1) cf(1)]) (use that(2) lev in simp)
  with printed contents_distinct [OF tree ds] contents_complete [OF tree ds] show ?thesis
    by (intro exI [of _ ds]) (simp add: Let_def)
qed

theorem search_exact_witness:
  "\<exists>st0 st core. fn_v_InitCoreData mm_segment boot_state boot_core 7 = Inr st0 \<and>
     ngx_http_lookaround_setdataloc 3 mm_segment 1700000000 (Some demo_conf) st0 ''car7'' beijing 1 2 = Inr st \<and>
     g_pNLACoreData st = Some core \<and>
     ngx_http_lookaround_get_around_data 2 3 st (p_map_root core) fn_v_InitRootRect (- 1) 2 50
       \<lparr>p_conf = Some demo_conf, sz_json = ''['', json_size = 10000, ex_count = 0\<rparr> =
     Inr \<lparr>p_conf = Some demo_conf, sz_json = ''['' @ item_text car7 @ '','', json_size = 10000, ex_count = 1\<rparr>"
proof -
  let ?ex = "\<lparr>p_conf = Some demo_conf, sz_json = ''['', json_size = 10000, ex_count = 0\<rparr>"
  obtain st0 st d dn where st: "fn_v_InitCoreData mm_segment boot_state boot_core 7 = Inr st0"
    "ngx_http_lookaround_setdataloc 3 mm_segment 1700000000 (Some demo_conf) st0 ''car7'' beijing 1 2 = Inr st"
    "nla_wf 2 mm_segment st" and d: "data_heap st d = Some dn" "data dn = car7" "p_map_node dn \<noteq> None"
    "\<forall>x. x \<noteq> d \<longrightarrow> data_heap st x = None"
    using one_car by blast
  then obtain core where core: "g_pNLACoreData st = Some core" by (auto simp: nla_wf_def)
  have "printable car7" by (simp add: printable_def item_ok_def car7_def fresh_item_def beijing_def is_int32_def is_int64_def)
  then have print: "\<forall>x xn. data_heap st x = Some xn \<longrightarrow> printable (data xn)" using d by (metis option.distinct(1) option.inject)
  have sel: "item_selected (- 1) 2 fn_v_InitRootRect car7"
    by (simp add: item_selected_def fn_b_IsLocInRC_def fn_v_InitRootRect_def car7_def fresh_item_def beijing_def)
  have cf: "p_conf ?ex = Some demo_conf" "nMapMaxLevel demo_conf = 2" by (simp_all add: demo_conf_def)
  from search_exact [OF st(3) core cf print, of 50 "- 1" 2 fn_v_InitRootRect]
  obtain ds where ds: "distinct ds" "\<forall>x. x \<in> set ds \<longleftrightarrow> (\<exists>xn a. data_heap st x = Some xn \<and> p_map_node xn = Some a)"
    "\<forall>lfuel fuel. length ds < lfuel \<longrightarrow> 2 < fuel \<longrightarrow>
      ngx_http_lookaround_get_around_data lfuel fuel st (p_map_root core) fn_v_InitRootRect (- 1) 2 50 ?ex =
        Inr (?ex\<lparr>sz_json := sz_json ?ex @ json_list (take 50 (matching st (- 1) 2 fn_v_InitRootRect ds)),
          ex_count := int (length (take 50 (matching st (- 1) 2 fn_v_InitRootRect ds)))\<rparr>)"
    by (auto simp: Let_def)
  have "set ds = {d}" using ds(2) d by (auto; metis option.distinct(1))
  with ds(1) have "ds = [d]" by (rule distinct_single)
  then have "ngx_http_lookaround_get_around_data 2 3 st (p_map_root core) fn_v_InitRootRect (- 1) 2 50 ?ex =
      Inr \<lparr>p_conf = Some demo_conf, sz_json = ''['' @ item_text car7 @ '','', json_size = 10000, ex_count = 1\<rparr>"
    using ds(3) d(1,2) sel by (simp add: json_list_def item_at_def)
  with st core show ?thesis by blast
qed

end
