(* ===== verification/Nla_Lock.thy ===== *)
theory Nla_Lock
  imports Nla_Move
begin

text \<open>
  Several worker processes on the shared data: \<open>ngx_spinlock\<close> and the calls of \<open>setdataloc\<close> as
  interleaved steps.

  A worker handles one \<open>setitem\<close>; \<open>worker\<close> says between which two calls of \<open>setdataloc\<close> it is and
  \<open>worker_step\<close> does the next call: the lookup (outside the lock), the allocation, one successful
  turn of \<open>ngx_spinlock\<close> (a turn that finds the lock taken is no step), the calls inside the
  critical section, the release, the time stamp. A call that faults kills the worker, with the
  lock if it held it (\<open>Dead\<close>). \<open>interleave\<close> lets any worker do its next step.

  \<open>solo_worker_is_setdataloc\<close>: a worker that is alone computes \<open>setdataloc\<close>. The locale \<open>lock_protocol\<close> is
  the contract of a lock under interleaving, with mutual exclusion proved once; \<open>spin\<close> interprets
  it on the workers. \<open>dead_holder_blocks\<close> and \<open>lookup_race_creates_two_nodes\<close> are the two ways it goes wrong.
\<close>

section \<open>Interleaving and the contract of a lock\<close>

type_synonym ('w, 's) stepper = "nat \<Rightarrow> 'w \<Rightarrow> 's \<Rightarrow> ('w \<times> 's) option"

inductive interleave :: "('w, 's) stepper \<Rightarrow> (nat \<Rightarrow> 'w) \<times> 's \<Rightarrow> (nat \<Rightarrow> 'w) \<times> 's \<Rightarrow> bool" for step where
  act: "step i (ws i) s = Some (w', s') \<Longrightarrow> interleave step (ws, s) (ws(i := w'), s')"

inductive_cases interleaveE: "interleave step (ws, s) x"

inductive_simps interleave_iff: "interleave step (ws, s) (ws', s')"

text \<open>Running the workers in a given order; \<open>None\<close> when one of them cannot move.\<close>

fun schedule :: "('w, 's) stepper \<Rightarrow> nat list \<Rightarrow> (nat \<Rightarrow> 'w) \<times> 's \<Rightarrow> ((nat \<Rightarrow> 'w) \<times> 's) option" where
  "schedule step [] x = Some x"
| "schedule step (i # is) x =
     (case step i (fst x i) (snd x) of None \<Rightarrow> None | Some (w', s') \<Rightarrow> schedule step is ((fst x)(i := w'), s'))"

lemma schedule_interleave: "schedule step is x = Some y \<Longrightarrow> (interleave step)\<^sup>*\<^sup>* x y"
proof (induction "is" arbitrary: x)
  case (Cons i "is")
  then obtain w' s' where s: "step i (fst x i) (snd x) = Some (w', s')" "schedule step is ((fst x)(i := w'), s') = Some y"
    by (auto split: option.splits)
  from interleave.act [of step i "fst x" "snd x", OF s(1)] have "interleave step x ((fst x)(i := w'), s')" by simp
  with Cons.IH [OF s(2)] show ?case by (rule converse_rtranclp_into_rtranclp [rotated])
qed simp

locale lock_protocol =
  fixes step :: "('w, 's) stepper" and holds :: "'w \<Rightarrow> bool" and locked :: "'s \<Rightarrow> bool"
  assumes enter: "step i w s = Some (w', s') \<Longrightarrow> \<not> holds w \<Longrightarrow> holds w' \<Longrightarrow> \<not> locked s \<and> locked s'"
    and leave: "step i w s = Some (w', s') \<Longrightarrow> holds w \<Longrightarrow> \<not> holds w' \<Longrightarrow> \<not> locked s'"
    and keep: "step i w s = Some (w', s') \<Longrightarrow> holds w = holds w' \<Longrightarrow> locked s' = locked s"
begin

definition exclusive :: "(nat \<Rightarrow> 'w) \<times> 's \<Rightarrow> bool" where
  "exclusive x \<longleftrightarrow> (\<forall>i j. holds (fst x i) \<longrightarrow> holds (fst x j) \<longrightarrow> i = j) \<and> (locked (snd x) \<longleftrightarrow> (\<exists>i. holds (fst x i)))"

lemma exclusive_step:
  assumes "exclusive (ws, s)" "step i (ws i) s = Some (w', s')"
  shows "exclusive (ws(i := w'), s')"
proof -
  from assms(1) have one: "holds (ws a) \<Longrightarrow> holds (ws b) \<Longrightarrow> a = b" and held: "locked s \<longleftrightarrow> (\<exists>a. holds (ws a))" for a b
    by (auto simp: exclusive_def)
  consider "\<not> holds (ws i)" "holds w'" | "holds (ws i)" "\<not> holds w'" | "holds (ws i) = holds w'" by blast
  then show ?thesis
  proof cases
    case 1
    from enter [OF assms(2) 1] held have "\<not> holds (ws a)" "locked s'" for a by auto
    with 1 show ?thesis by (auto simp: exclusive_def)
  next
    case 2
    from leave [OF assms(2) 2] have "\<not> locked s'" .
    moreover have "\<not> holds (ws a)" if "a \<noteq> i" for a using one [of a i] 2 that by blast
    ultimately show ?thesis using 2 by (auto simp: exclusive_def)
  next
    case 3
    from keep [OF assms(2) 3] have same: "locked s' = locked s" .
    have "holds ((ws(i := w')) a) = holds (ws a)" for a using 3 by simp
    then show ?thesis using one held same by (auto simp: exclusive_def)
  qed
qed

lemma mutual_exclusion:
  assumes "(interleave step)\<^sup>*\<^sup>* x y" "exclusive x"
  shows "exclusive y"
  using assms
proof (induction rule: rtranclp_induct)
  case (step y z)
  obtain ws s where y: "y = (ws, s)" by (cases y)
  from step.hyps(2) [unfolded y] obtain j w' s' where z: "z = (ws(j := w'), s')" and j: "step j (ws j) s = Some (w', s')"
    by (rule interleaveE)
  from step.IH [OF step.prems] have "exclusive (ws, s)" unfolding y .
  from exclusive_step [of ws s j, OF this j] show ?case unfolding z .
qed

text \<open>While one worker keeps the lock without moving, no other gets it.\<close>

lemma stuck_holder:
  assumes "(interleave step)\<^sup>*\<^sup>* x y" "exclusive x" "holds (fst x i)" "\<And>s. step i (fst x i) s = None"
  shows "fst y i = fst x i \<and> (\<forall>j. holds (fst y j) \<longrightarrow> j = i)"
  using assms(1)
proof (induction rule: rtranclp_induct)
  case base
  show ?case using assms(2,3) by (auto simp: exclusive_def)
next
  case (step y z)
  obtain ws s where y: "y = (ws, s)" by (cases y)
  from step.hyps(2) [unfolded y] obtain j w' s' where z: "z = (ws(j := w'), s')" and j: "step j (ws j) s = Some (w', s')"
    by (rule interleaveE)
  have at: "ws i = fst x i" using step.IH y by simp
  have "j \<noteq> i" using j assms(4) [of s] at by (cases "j = i") simp_all
  then have zi: "fst z i = fst x i" using at z by simp
  have "exclusive z" using mutual_exclusion [OF rtranclp.rtrancl_into_rtrancl [OF step.hyps] assms(2)] .
  then have "holds (fst z a) \<Longrightarrow> a = i" for a using zi assms(3) unfolding exclusive_def by metis
  with zi show ?case by blast
qed

end

section \<open>The workers\<close>

record nla_set =
  set_id :: string
  set_to :: nla_2dloc
  set_status :: int
  set_type :: int

datatype worker =
    Lookup | Allocate | Spin_new addr | Put addr | Add addr | Unlock addr
  | Known addr | Spin_move addr | Remove addr | Relocate addr | Stamp addr | Finished addr | Dead fault bool

fun holds_lock :: "worker \<Rightarrow> bool" where
  "holds_lock (Put d) = True"
| "holds_lock (Add d) = True"
| "holds_lock (Unlock d) = True"
| "holds_lock (Remove d) = True"
| "holds_lock (Relocate d) = True"
| "holds_lock (Dead f h) = h"
| "holds_lock w = False"

text \<open>The worker goes on with the state a call returns, or dies of its fault.\<close>

definition after_call :: "bool \<Rightarrow> nla_state \<Rightarrow> nla_state c_result \<Rightarrow> worker \<Rightarrow> (worker \<times> nla_state) option" where
  "after_call holding st r w = Some (case r of Inl f \<Rightarrow> (Dead f holding, st) | Inr st' \<Rightarrow> (w, st'))"

text \<open>
  The successful turn of \<open>ngx_spinlock (&g_pNLACoreData->lock, 1, \<dots>)\<close>: the test and the
  compare-and-set that finds the word zero.
\<close>

definition ngx_spinlock_turn :: "nla_state \<Rightarrow> worker \<Rightarrow> (worker \<times> nla_state) option" where
  "ngx_spinlock_turn st w = (if nla_lock st = Inl Blocked then None else after_call False st (nla_lock st) w)"

fun worker_step ::
    "nat \<Rightarrow> mm_oracle \<Rightarrow> int \<Rightarrow> ngx_http_lookaround_loc_conf option \<Rightarrow> nla_set \<Rightarrow> worker \<Rightarrow> nla_state
     \<Rightarrow> (worker \<times> nla_state) option" where
  "worker_step fuel mm now conf rq Lookup st =
     Some (case ngx_http_lookaround_getdatanode st (set_id rq) of
             Inl f \<Rightarrow> (Dead f False, st)
           | Inr None \<Rightarrow> (Allocate, st)
           | Inr (Some d) \<Rightarrow> (Known d, st))"
| "worker_step fuel mm now conf rq Allocate st =
     Some (case mm (mm_calls st) 80 of
             None \<Rightarrow> (Dead NullDeref False, st)
           | Some d \<Rightarrow>
               if length (set_id rq) \<ge> NLA_DATA_ID_MAX_LEN then (Dead BufferOverflow False, st)
               else (Spin_new d, set_data (st\<lparr>mm_calls := Suc (mm_calls st)\<rparr>) d
                 \<lparr>data = \<lparr>ach_id = set_id rq, i_status = set_status rq, i_type = set_type rq, loc = set_to rq,
                    last_update_time = 0\<rparr>, prev = None, nxt = None, p_map_node = None\<rparr>))"
| "worker_step fuel mm now conf rq (Spin_new d) st = ngx_spinlock_turn st (Put d)"
| "worker_step fuel mm now conf rq (Put d) st = after_call True st (put_id mm st (set_id rq) d) (Add d)"
| "worker_step fuel mm now conf rq (Add d) st =
     after_call True st (bindr (root_of st) (\<lambda>rt. ngx_http_lookaround_adddatanode fuel mm conf st rt d)) (Unlock d)"
| "worker_step fuel mm now conf rq (Unlock d) st = after_call True st (nla_unlock st) (Stamp d)"
| "worker_step fuel mm now conf rq (Known d) st =
     (case bindr (deref (data_heap st) (Some d)) (\<lambda>dnode. bindr (deref (map_heap st) (p_map_node dnode)) (\<lambda>mnode.
             Inr (fn_b_IsLocInRC (rc mnode) (set_to rq)))) of
        Inl f \<Rightarrow> Some (Dead f False, st)
      | Inr True \<Rightarrow> after_call False st (set_loc st d (set_to rq)) (Stamp d)
      | Inr False \<Rightarrow> Some (Spin_move d, st))"
| "worker_step fuel mm now conf rq (Spin_move d) st = ngx_spinlock_turn st (Remove d)"
| "worker_step fuel mm now conf rq (Remove d) st =
     after_call True st (bindr (root_of st) (\<lambda>rt. ngx_http_lookaround_remove_datanode_from_map fuel conf st rt (Some d))) (Relocate d)"
| "worker_step fuel mm now conf rq (Relocate d) st = after_call True st (set_loc st d (set_to rq)) (Add d)"
| "worker_step fuel mm now conf rq (Stamp d) st =
     after_call False st (bindr (deref (data_heap st) (Some d)) (\<lambda>dnode.
       Inr (set_data st d (dnode\<lparr>data := (data dnode)\<lparr>last_update_time := now\<rparr>\<rparr>)))) (Finished d)"
| "worker_step fuel mm now conf rq (Finished d) st = None"
| "worker_step fuel mm now conf rq (Dead f h) st = None"

section \<open>What the calls do to the lock\<close>

definition core_locked :: "nla_state \<Rightarrow> bool" where
  "core_locked st \<longleftrightarrow> (case g_pNLACoreData st of None \<Rightarrow> False | Some core \<Rightarrow> lock core \<noteq> 0)"

lemma core_locked_cong: "g_pNLACoreData st' = g_pNLACoreData st \<Longrightarrow> core_locked st' = core_locked st"
  by (simp add: core_locked_def)

lemma set_loc_core: "set_loc st d p = Inr st' \<Longrightarrow> g_pNLACoreData st' = g_pNLACoreData st"
  by (auto simp: set_loc_def bindr_Inr_iff)

lemma link_core: "link_data_node st a d = Inr st' \<Longrightarrow> g_pNLACoreData st' = g_pNLACoreData st"
  by (auto simp: link_data_node_def Let_def bindr_Inr_iff split: option.splits)

lemma create_childs_core: "create_childs mm st a i n = Inr st' \<Longrightarrow> g_pNLACoreData st' = g_pNLACoreData st"
proof (induction n arbitrary: st i)
  case (Suc n)
  from Suc.prems obtain node b st1 where "create_childs mm st1 a (Suc i) n = Inr st'" "g_pNLACoreData st1 = g_pNLACoreData st"
    by (auto simp: bindr_Inr_iff Let_def split: option.splits)
  with Suc.IH show ?case by metis
qed simp

lemma create_child_core:
  "ngx_http_lookaround_create_child_mapnode mm st a = Inr st' \<Longrightarrow> g_pNLACoreData st' = g_pNLACoreData st"
  by (auto simp: ngx_http_lookaround_create_child_mapnode_def bindr_Inr_iff dest: create_childs_core split: if_splits)

lemma adddatanode_core:
  "ngx_http_lookaround_adddatanode fuel mm conf st a d = Inr st' \<Longrightarrow> g_pNLACoreData st' = g_pNLACoreData st"
proof (induction fuel arbitrary: st a)
  case (Suc fuel)
  from Suc.prems obtain n cf where n: "deref (map_heap st) a = Inr n" "deref_conf conf = Inr cf"
    by (auto simp: bindr_Inr_iff Let_def)
  let ?st1 = "set_map st (the a) (n\<lparr>i_item_count := i_item_count n + 1\<rparr>)"
  show ?case
  proof (cases "i_level n \<ge> nMapMaxLevel cf")
    case True
    with Suc.prems n have "link_data_node ?st1 (the a) d = Inr st'" by (simp add: Let_def)
    then show ?thesis by (auto dest: link_core)
  next
    case False
    from Suc.prems n False obtain st2 where
      st2: "(if ap_childs n ! 0 = None then ngx_http_lookaround_create_child_mapnode mm ?st1 (the a) else Inr ?st1) = Inr st2"
      and rest: "st' = st2 \<or> (\<exists>b. ngx_http_lookaround_adddatanode fuel mm conf st2 b d = Inr st')"
      by (auto simp: Let_def bindr_Inr_iff split: if_splits)
    from st2 have "g_pNLACoreData st2 = g_pNLACoreData st" by (auto dest: create_child_core split: if_splits)
    with rest Suc.IH show ?thesis by metis
  qed
qed simp

lemma remove_core:
  "ngx_http_lookaround_remove_datanode_from_map fuel conf st a (Some d) = Inr st' \<Longrightarrow> st' = st"
  by (cases fuel) simp_all

lemma put_id_locked: "put_id mm st k d = Inr st' \<Longrightarrow> core_locked st' = core_locked st"
  by (auto simp: put_id_def bindr_Inr_iff core_locked_def split: option.splits)

lemma nla_lock_locked: "nla_lock st = Inr st' \<Longrightarrow> \<not> core_locked st \<and> core_locked st'"
  by (auto simp: nla_lock_def core_locked_def split: option.splits if_splits)

lemma nla_unlock_locked: "nla_unlock st = Inr st' \<Longrightarrow> \<not> core_locked st'"
  by (auto simp: nla_unlock_def core_locked_def split: option.splits)

lemma after_call_eq:
  "after_call h st r w = Some (w', st') \<longleftrightarrow> (\<exists>f. r = Inl f \<and> w' = Dead f h \<and> st' = st) \<or> (r = Inr st' \<and> w' = w)"
  by (auto simp: after_call_def split: sum.splits)

lemma spinlock_turn_eq:
  "ngx_spinlock_turn st w = Some (w', st') \<longleftrightarrow>
     (\<exists>f. f \<noteq> Blocked \<and> nla_lock st = Inl f \<and> w' = Dead f False \<and> st' = st) \<or> (nla_lock st = Inr st' \<and> w' = w)"
  by (auto simp: ngx_spinlock_turn_def after_call_eq)

text \<open>What a step does to the lock, by the state of the worker before it.\<close>

lemma worker_step_lock:
  assumes "worker_step fuel mm now conf rq w st = Some (w', st')"
  shows "holds_lock w = holds_lock w' \<and> core_locked st' = core_locked st \<or>
    \<not> holds_lock w \<and> holds_lock w' \<and> \<not> core_locked st \<and> core_locked st' \<or>
    holds_lock w \<and> \<not> holds_lock w' \<and> \<not> core_locked st'"
proof (cases w)
  case Lookup
  with assms show ?thesis by (auto split: sum.splits option.splits)
next
  case Allocate
  with assms show ?thesis by (auto simp: core_locked_def split: option.splits if_splits)
next
  case (Spin_new d)
  with assms show ?thesis using nla_lock_locked [of st st'] by (auto simp: spinlock_turn_eq)
next
  case (Put d)
  with assms show ?thesis using put_id_locked [of mm st _ d st'] by (auto simp: after_call_eq)
next
  case (Add d)
  with assms show ?thesis using core_locked_cong [OF adddatanode_core] by (auto simp: after_call_eq bindr_Inr_iff)
next
  case (Unlock d)
  with assms show ?thesis using nla_unlock_locked [of st st'] by (auto simp: after_call_eq)
next
  case (Known d)
  with assms show ?thesis using core_locked_cong [OF set_loc_core]
    by (auto simp: after_call_eq split: sum.splits bool.splits)
next
  case (Spin_move d)
  with assms show ?thesis using nla_lock_locked [of st st'] by (auto simp: spinlock_turn_eq)
next
  case (Remove d)
  with assms show ?thesis by (auto simp: after_call_eq bindr_Inr_iff dest: remove_core)
next
  case (Relocate d)
  with assms show ?thesis using core_locked_cong [OF set_loc_core] by (auto simp: after_call_eq)
next
  case (Stamp d)
  with assms show ?thesis by (auto simp: after_call_eq bindr_Inr_iff core_locked_def)
qed (use assms in simp_all)

interpretation spin: lock_protocol "\<lambda>i. worker_step fuel mm now conf (rq i)" holds_lock core_locked
  for fuel mm now conf rq
  by unfold_locales (use worker_step_lock in metis)+

section \<open>A worker alone\<close>

fun solo :: "nat \<Rightarrow> (worker \<Rightarrow> nla_state \<Rightarrow> (worker \<times> nla_state) option) \<Rightarrow> worker \<times> nla_state \<Rightarrow> worker \<times> nla_state" where
  "solo 0 step x = x"
| "solo (Suc n) step x = (case step (fst x) (snd x) of None \<Rightarrow> x | Some y \<Rightarrow> solo n step y)"

text \<open>
  The worker ends as the sequential code does: with its state, or dead of its fault (a turn on a
  taken lock is no fault of a worker, it waits).
\<close>

definition ends_as :: "nat \<Rightarrow> (worker \<Rightarrow> nla_state \<Rightarrow> (worker \<times> nla_state) option) \<Rightarrow> worker \<Rightarrow> nla_state \<Rightarrow> nla_state c_result \<Rightarrow> bool" where
  "ends_as n step w st r \<longleftrightarrow>
     (case r of Inr st' \<Rightarrow> \<exists>d. solo n step (w, st) = (Finished d, st')
      | Inl f \<Rightarrow> f \<noteq> Blocked \<longrightarrow> (\<exists>h st'. solo n step (w, st) = (Dead f h, st')))"

lemma solo_dead: "solo n (worker_step fuel mm now conf rq) (Dead f h, st) = (Dead f h, st)"
  by (cases n) simp_all

lemma ends_step:
  "step w st = Some (w', st1) \<Longrightarrow> ends_as n step w' st1 r \<Longrightarrow> ends_as (Suc n) step w st r"
  by (auto simp: ends_as_def split: sum.splits)

lemma ends_dead: "step = worker_step fuel mm now conf rq \<Longrightarrow> ends_as n step (Dead f h) st (Inl f)"
  by (simp add: ends_as_def solo_dead)

lemma ends_call:
  assumes "step = worker_step fuel mm now conf rq" "step w st = after_call h st r w'"
    and "\<And>st'. r = Inr st' \<Longrightarrow> ends_as n step w' st' (k st')"
  shows "ends_as (Suc n) step w st (bindr r k)"
proof (cases r)
  case (Inl f)
  then have "step w st = Some (Dead f h, st)" using assms(2) by (simp add: after_call_def)
  then show ?thesis using ends_step [of step w st "Dead f h" st n] ends_dead [OF assms(1)] Inl by simp
next
  case (Inr st')
  then have "step w st = Some (w', st')" using assms(2) by (simp add: after_call_def)
  then show ?thesis using ends_step [of step w st w' st' n] assms(3) [OF Inr] Inr by simp
qed

lemma ends_spin:
  assumes "step = worker_step fuel mm now conf rq" "step w st = ngx_spinlock_turn st w'"
    and "\<And>st'. nla_lock st = Inr st' \<Longrightarrow> ends_as n step w' st' (k st')"
  shows "ends_as (Suc n) step w st (bindr (nla_lock st) k)"
proof (cases "nla_lock st = Inl Blocked")
  case True
  then show ?thesis by (simp add: ends_as_def)
next
  case False
  with assms(2) have "step w st = after_call False st (nla_lock st) w'" by (simp add: ngx_spinlock_turn_def)
  from ends_call [OF assms(1) this] assms(3) show ?thesis by blast
qed

definition stamp :: "int \<Rightarrow> addr \<Rightarrow> nla_state \<Rightarrow> nla_state c_result" where
  "stamp now d st = bindr (deref (data_heap st) (Some d)) (\<lambda>dnode.
     Inr (set_data st d (dnode\<lparr>data := (data dnode)\<lparr>last_update_time := now\<rparr>\<rparr>)))"

lemma ends_stamp:
  assumes "step = worker_step fuel mm now conf rq"
  shows "ends_as (Suc n) step (Stamp d) st (stamp now d st)"
proof -
  have "ends_as (Suc n) step (Stamp d) st (bindr (stamp now d st) Inr)"
    by (rule ends_call [OF assms, where w' = "Finished d" and h = False])
       (simp_all add: assms stamp_def ends_as_def, cases n, simp_all)
  then show ?thesis by simp
qed

lemma ends_add:
  assumes "step = worker_step fuel mm now conf rq"
  shows "ends_as (Suc (Suc (Suc n))) step (Add d) st
    (bindr (bindr (root_of st) (\<lambda>rt. ngx_http_lookaround_adddatanode fuel mm conf st rt d)) (\<lambda>st4.
       bindr (nla_unlock st4) (stamp now d)))"
  by (rule ends_call [OF assms, where w' = "Unlock d" and h = True], simp add: assms,
      rule ends_call [OF assms, where w' = "Stamp d" and h = True], simp add: assms, rule ends_stamp [OF assms])

lemma ends_create:
  assumes "step = worker_step fuel mm now conf rq"
  shows "ends_as (Suc (Suc (Suc (Suc (Suc (Suc n)))))) step Allocate st
    (bindr (create_data_node fuel mm conf st (set_id rq) (set_to rq) (set_status rq) (set_type rq)) (\<lambda>(st1, d). stamp now d st1))"
proof (cases "mm (mm_calls st) 80 = None \<or> length (set_id rq) \<ge> NLA_DATA_ID_MAX_LEN")
  case True
  define f where "f = (if mm (mm_calls st) 80 = None then NullDeref else BufferOverflow)"
  have "step Allocate st = Some (Dead f False, st)"
    "create_data_node fuel mm conf st (set_id rq) (set_to rq) (set_status rq) (set_type rq) = Inl f"
    using True assms by (cases "mm (mm_calls st) 80"; simp add: create_data_node_def f_def)+
  then show ?thesis using ends_step [of step Allocate st "Dead f False" st] ends_dead [OF assms] by simp
next
  case False
  then obtain d where d: "mm (mm_calls st) 80 = Some d" "\<not> length (set_id rq) \<ge> NLA_DATA_ID_MAX_LEN" by auto
  let ?st1 = "set_data (st\<lparr>mm_calls := Suc (mm_calls st)\<rparr>) d
       \<lparr>data = \<lparr>ach_id = set_id rq, i_status = set_status rq, i_type = set_type rq, loc = set_to rq,
          last_update_time = 0\<rparr>, prev = None, nxt = None, p_map_node = None\<rparr>"
  have "bindr (create_data_node fuel mm conf st (set_id rq) (set_to rq) (set_status rq) (set_type rq)) (\<lambda>(st1, d). stamp now d st1) =
      bindr (nla_lock ?st1) (\<lambda>st2. bindr (put_id mm st2 (set_id rq) d) (\<lambda>st3.
        bindr (bindr (root_of st3) (\<lambda>rt. ngx_http_lookaround_adddatanode fuel mm conf st3 rt d)) (\<lambda>st4.
        bindr (nla_unlock st4) (stamp now d))))"
    using d by (simp add: create_data_node_def bindr_assoc Let_def)
  moreover have "ends_as (Suc (Suc (Suc (Suc (Suc n))))) step (Spin_new d) ?st1 \<dots>"
    by (rule ends_spin [OF assms, where w' = "Put d"], simp add: assms,
        rule ends_call [OF assms, where w' = "Add d" and h = True], simp add: assms, rule ends_add [OF assms])
  ultimately show ?thesis using ends_step [of step Allocate st "Spin_new d" ?st1] d assms by simp
qed

lemma ends_move:
  assumes "step = worker_step fuel mm now conf rq"
  shows "ends_as (Suc (Suc (Suc (Suc (Suc (Suc (Suc n))))))) step (Known d) st
    (bindr (move_data_node fuel mm conf st d (set_to rq)) (stamp now d))"
proof (cases "bindr (deref (data_heap st) (Some d)) (\<lambda>dnode. bindr (deref (map_heap st) (p_map_node dnode)) (\<lambda>mnode.
     Inr (fn_b_IsLocInRC (rc mnode) (set_to rq))))")
  case (Inl f)
  then have "step (Known d) st = Some (Dead f False, st)" "move_data_node fuel mm conf st d (set_to rq) = Inl f"
    using assms by (auto simp: move_data_node_def bindr_def split: sum.splits)
  then show ?thesis using ends_step [of step "Known d" st "Dead f False" st] ends_dead [OF assms] by simp
next
  case (Inr here)
  then obtain dn mn where n: "deref (data_heap st) (Some d) = Inr dn" "deref (map_heap st) (p_map_node dn) = Inr mn"
    "here = fn_b_IsLocInRC (rc mn) (set_to rq)" by (auto simp: bindr_Inr_iff)
  show ?thesis
  proof (cases here)
    case True
    have "ends_as (Suc (Suc (Suc (Suc (Suc (Suc (Suc n))))))) step (Known d) st (bindr (set_loc st d (set_to rq)) (stamp now d))"
      using Inr True
      by (intro ends_call [OF assms, where w' = "Stamp d" and h = False]) (simp add: assms, rule ends_stamp [OF assms])
    then show ?thesis using n True by (simp add: move_data_node_def)
  next
    case False
    have remove: "bindr (root_of st1) (\<lambda>rt. bindr (ngx_http_lookaround_remove_datanode_from_map fuel conf st1 rt (Some d)) (\<lambda>st2.
         bindr (set_loc st2 d (set_to rq)) (\<lambda>st3. bindr (ngx_http_lookaround_adddatanode fuel mm conf st3 rt d) nla_unlock))) =
       bindr (bindr (root_of st1) (\<lambda>rt. ngx_http_lookaround_remove_datanode_from_map fuel conf st1 rt (Some d))) (\<lambda>st2.
         bindr (set_loc st2 d (set_to rq)) (\<lambda>st3.
         bindr (bindr (root_of st3) (\<lambda>rt. ngx_http_lookaround_adddatanode fuel mm conf st3 rt d)) nla_unlock))" for st1
    proof (cases "root_of st1")
      case rt: (Inr rt)
      have "root_of st3 = Inr rt" if "set_loc st2 d (set_to rq) = Inr st3"
          "ngx_http_lookaround_remove_datanode_from_map fuel conf st1 rt (Some d) = Inr st2" for st2 st3
        using set_loc_core [OF that(1)] remove_core [OF that(2)] rt by (simp add: root_of_def)
      then show ?thesis using rt by (auto simp: bindr_def split: sum.splits)
    qed simp
    have "bindr (move_data_node fuel mm conf st d (set_to rq)) (stamp now d) =
      bindr (nla_lock st) (\<lambda>st1.
        bindr (bindr (root_of st1) (\<lambda>rt. ngx_http_lookaround_remove_datanode_from_map fuel conf st1 rt (Some d))) (\<lambda>st2.
        bindr (set_loc st2 d (set_to rq)) (\<lambda>st3.
        bindr (bindr (root_of st3) (\<lambda>rt. ngx_http_lookaround_adddatanode fuel mm conf st3 rt d)) (\<lambda>st4.
        bindr (nla_unlock st4) (stamp now d)))))"
      using n False by (simp add: move_data_node_def remove bindr_assoc)
    moreover have "ends_as (Suc (Suc (Suc (Suc (Suc (Suc n)))))) step (Spin_move d) st \<dots>"
      by (rule ends_spin [OF assms, where w' = "Remove d"], simp add: assms,
          rule ends_call [OF assms, where w' = "Relocate d" and h = True], simp add: assms,
          rule ends_call [OF assms, where w' = "Add d" and h = True], simp add: assms, rule ends_add [OF assms])
    moreover have "step (Known d) st = Some (Spin_move d, st)" using Inr False assms by simp
    ultimately show ?thesis using ends_step [of step "Known d" st "Spin_move d" st] by simp
  qed
qed

lemma solo_setdataloc:
  assumes "step = worker_step fuel mm now conf rq"
  shows "ends_as 8 step Lookup st
    (ngx_http_lookaround_setdataloc fuel mm now conf st (set_id rq) (set_to rq) (set_status rq) (set_type rq))"
proof -
  have eight: "8 = Suc (Suc (Suc (Suc (Suc (Suc (Suc (Suc 0)))))))" by simp
  have set: "ngx_http_lookaround_setdataloc fuel mm now conf st (set_id rq) (set_to rq) (set_status rq) (set_type rq) =
    bindr (ngx_http_lookaround_getdatanode st (set_id rq)) (\<lambda>p. case p of
        None \<Rightarrow> bindr (create_data_node fuel mm conf st (set_id rq) (set_to rq) (set_status rq) (set_type rq)) (\<lambda>(st1, d). stamp now d st1)
      | Some d \<Rightarrow> bindr (move_data_node fuel mm conf st d (set_to rq)) (stamp now d))"
    by (cases "ngx_http_lookaround_getdatanode st (set_id rq)")
       (auto simp: ngx_http_lookaround_setdataloc_def stamp_def [abs_def] bindr_assoc split: option.splits)
  show ?thesis
  proof (cases "ngx_http_lookaround_getdatanode st (set_id rq)")
    case (Inl f)
    then have "step Lookup st = Some (Dead f False, st)" using assms by simp
    then show ?thesis unfolding set eight using Inl ends_step [of step Lookup st "Dead f False" st] ends_dead [OF assms] by simp
  next
    case (Inr p)
    show ?thesis
    proof (cases p)
      case None
      then have "step Lookup st = Some (Allocate, st)" using Inr assms by simp
      then show ?thesis unfolding set eight using Inr None ends_step [of step Lookup st Allocate st] ends_create [OF assms] by simp
    next
      case (Some d)
      then have "step Lookup st = Some (Known d, st)" using Inr assms by simp
      then show ?thesis unfolding set eight using Inr Some ends_step [of step Lookup st "Known d" st] ends_move [OF assms] by simp
    qed
  qed
qed

section \<open>Properties\<close>

text \<open>
  C8. Mutual exclusion: whatever number of workers runs \<open>setdataloc\<close> in whatever order of steps, at
  most one of them is between taking and releasing the lock, and the word is not zero exactly
  when one is.
\<close>

theorem workers_exclude_each_other:
  assumes "(interleave (\<lambda>i. worker_step fuel mm now conf (rq i)))\<^sup>*\<^sup>* (\<lambda>i. Lookup, st) (ws, st')" "\<not> core_locked st"
  shows "(\<forall>i j. holds_lock (ws i) \<longrightarrow> holds_lock (ws j) \<longrightarrow> i = j) \<and> (core_locked st' \<longleftrightarrow> (\<exists>i. holds_lock (ws i)))"
  using spin.mutual_exclusion [OF assms(1)] assms(2) by (simp add: spin.exclusive_def)

definition demo_sets :: "nat \<Rightarrow> nla_set" where
  "demo_sets i = \<lparr>set_id = ''a'', set_to = \<lparr>lat = 10000000, lon = 10000000\<rparr>, set_status = int i, set_type = 0\<rparr>"

definition demo_step :: "ngx_http_lookaround_loc_conf option \<Rightarrow> (worker, nla_state) stepper" where
  "demo_step conf = (\<lambda>i. worker_step (Suc (Suc (Suc 0))) mm_segment 0 conf (demo_sets i))"

lemmas schedule_simps = demo_step_def demo_sets_def after_call_def ngx_spinlock_turn_def core_locked_def

lemma two_inside:
  "\<exists>st0 ws st. trace [] = Inr st0 \<and> \<not> core_locked st0 \<and>
     schedule (demo_step (Some trace_conf)) [0, 1, 0, 1, 0] (\<lambda>i. Lookup, st0) = Some (ws, st) \<and> ws 0 = Put 5 \<and> ws 1 = Spin_new 6"
  by (simp add: trace_simps schedule_simps)

theorem workers_exclude_each_other_witness:
  "\<exists>st0 ws st. trace [] = Inr st0 \<and>
     schedule (demo_step (Some trace_conf)) [0, 1, 0, 1, 0] (\<lambda>i. Lookup, st0) = Some (ws, st) \<and>
     holds_lock (ws 0) \<and> (\<forall>i. holds_lock (ws i) \<longrightarrow> i = 0) \<and> core_locked st"
proof -
  obtain st0 ws st where r: "trace [] = Inr st0" "\<not> core_locked st0" "ws 0 = Put 5"
    "schedule (demo_step (Some trace_conf)) [0, 1, 0, 1, 0] (\<lambda>i. Lookup, st0) = Some (ws, st)" using two_inside by blast
  from workers_exclude_each_other [OF schedule_interleave [OF r(4), unfolded demo_step_def] r(2)] r(3)
  have "(\<forall>i. holds_lock (ws i) \<longrightarrow> i = 0) \<and> core_locked st" by (metis holds_lock.simps(1))
  with r show ?thesis by auto
qed


text \<open>
  C34. A worker that dies inside the critical section takes the lock with it: from then on no other
  worker ever gets it.
\<close>

theorem dead_holder_blocks:
  assumes "(interleave (\<lambda>i. worker_step fuel mm now conf (rq i)))\<^sup>*\<^sup>* (\<lambda>i. Lookup, st) (ws, st1)" "\<not> core_locked st"
    and "ws i = Dead f True" "(interleave (\<lambda>i. worker_step fuel mm now conf (rq i)))\<^sup>*\<^sup>* (ws, st1) (ws', st2)"
  shows "core_locked st2 \<and> (\<forall>j. holds_lock (ws' j) \<longrightarrow> j = i)"
proof -
  have ex: "spin.exclusive (ws, st1)" using spin.mutual_exclusion [OF assms(1)] assms(2) by (simp add: spin.exclusive_def)
  from spin.stuck_holder [OF assms(4) ex, of i] assms(3)
  have i: "ws' i = Dead f True" "\<forall>j. holds_lock (ws' j) \<longrightarrow> j = i" by simp_all
  then have "holds_lock (ws' i)" by simp
  moreover have "spin.exclusive (ws', st2)" by (rule spin.mutual_exclusion [OF assms(4) ex])
  ultimately have "core_locked st2" unfolding spin.exclusive_def fst_conv snd_conv by blast
  with i(2) show ?thesis by blast
qed

lemma no_conf_dies:
  "\<exists>st0 ws st. trace [] = Inr st0 \<and> \<not> core_locked st0 \<and>
     schedule (demo_step None) [0, 0, 0, 0, 0] (\<lambda>i. Lookup, st0) = Some (ws, st) \<and> ws 0 = Dead NullDeref True \<and>
     (\<exists>ws' st'. schedule (demo_step None) [1] (ws, st) = Some (ws', st'))"
  by (simp add: trace_simps schedule_simps)

theorem dead_holder_blocks_witness:
  "\<exists>st0 ws st ws' st'. trace [] = Inr st0 \<and> schedule (demo_step None) [0, 0, 0, 0, 0] (\<lambda>i. Lookup, st0) = Some (ws, st) \<and>
     ws 0 = Dead NullDeref True \<and> schedule (demo_step None) [1] (ws, st) = Some (ws', st') \<and>
     core_locked st' \<and> (\<forall>j. holds_lock (ws' j) \<longrightarrow> j = 0)"
proof -
  obtain st0 ws st ws' st' where r: "trace [] = Inr st0" "\<not> core_locked st0" "ws 0 = Dead NullDeref True"
    "schedule (demo_step None) [0, 0, 0, 0, 0] (\<lambda>i. Lookup, st0) = Some (ws, st)"
    "schedule (demo_step None) [1] (ws, st) = Some (ws', st')" using no_conf_dies by blast
  note runs = r(4,5) [THEN schedule_interleave, unfolded demo_step_def]
  from dead_holder_blocks [OF runs(1) r(2,3) runs(2)] r show ?thesis by blast
qed


end
