(* ===== verification/Ngx_String.thy ===== *)
theory Ngx_String
  imports Nla_Geo
begin

text \<open>
  The string routines of \<^verbatim>\<open>src/nginx/src/core/ngx_string.c\<close> that the module and the request
  parser call: numbers, comparisons that ignore case, searches. An \<open>ngx_str_t\<close> (data and
  length) is a \<open>string\<close>; a NUL terminated argument is a \<open>string\<close> too, whose end reads as NUL
  (\<open>cur\<close>). \<open>ngx_int_t\<close> and its relatives have 64 bits: additions and products go through \<open>wrap64\<close>,
  and \<open>NGX_ERROR\<close> is -1.

  The lemmas give each routine its meaning: \<open>ngx_atoi\<close> is the decimal value reduced to 64 bits,
  \<open>ngx_atofp\<close> reads back what \<open>fn_v_FormatDeg\<close> printed, the comparisons decide equality of the
  lower case strings, \<open>ngx_strlcasestrn\<close> finds the first occurrence.
\<close>

abbreviation (input) NGX_OK :: int where "NGX_OK \<equiv> 0"
abbreviation (input) NGX_ERROR :: int where "NGX_ERROR \<equiv> - 1"
abbreviation (input) NGX_AGAIN :: int where "NGX_AGAIN \<equiv> - 2"
abbreviation (input) NGX_DONE :: int where "NGX_DONE \<equiv> - 4"
abbreviation (input) NGX_DECLINED :: int where "NGX_DECLINED \<equiv> - 5"

section \<open>Characters\<close>

definition ngx_tolower :: "char \<Rightarrow> char" where
  "ngx_tolower c = (if CHR ''A'' \<le> c \<and> c \<le> CHR ''Z'' then char_or_0x20 c else c)"

definition cur :: "string \<Rightarrow> char" where
  "cur s = (case s of [] \<Rightarrow> NUL | c # _ \<Rightarrow> c)"

lemma cur_simps [simp]: "cur [] = NUL" "cur (c # s) = c"
  by (simp_all add: cur_def)

section \<open>Copies\<close>

fun ngx_strlow :: "string \<Rightarrow> nat \<Rightarrow> string c_result" where
  "ngx_strlow src 0 = Inr []"
| "ngx_strlow [] (Suc n) = Inl BufferOverflow"
| "ngx_strlow (c # src) (Suc n) = bindr (ngx_strlow src n) (\<lambda>dst. Inr (ngx_tolower c # dst))"

text \<open>The bytes written to \<open>dst\<close>; the pointer returned is at the last of them.\<close>

fun cpystrn_loop :: "string \<Rightarrow> nat \<Rightarrow> string" where
  "cpystrn_loop src 0 = [NUL]"
| "cpystrn_loop src (Suc n) = (if cur src = NUL then [NUL] else cur src # cpystrn_loop (tl src) n)"

definition ngx_cpystrn :: "string \<Rightarrow> nat \<Rightarrow> string" where
  "ngx_cpystrn src n = (if n = 0 then [] else cpystrn_loop src (n - 1))"

section \<open>Comparisons\<close>

function ngx_strcasecmp :: "string \<Rightarrow> string \<Rightarrow> int" where
  "ngx_strcasecmp s1 s2 =
     (let c1 = ngx_tolower (cur s1); c2 = ngx_tolower (cur s2) in
      if c1 = c2 then (if c1 \<noteq> NUL then ngx_strcasecmp (tl s1) (tl s2) else 0)
      else of_char c1 - of_char c2)"
  by pat_completeness auto
termination
proof (relation "measure (\<lambda>(s1, s2). length s1)")
  fix s1 s2 :: string and x xa
  assume "x = ngx_tolower (cur s1)" "x \<noteq> NUL"
  then have "s1 \<noteq> []" by (auto simp: ngx_tolower_def)
  then show "((tl s1, tl s2), s1, s2) \<in> measure (\<lambda>(s1, s2). length s1)" by simp
qed simp

declare ngx_strcasecmp.simps [simp del]

fun ngx_strncasecmp :: "string \<Rightarrow> string \<Rightarrow> nat \<Rightarrow> int" where
  "ngx_strncasecmp s1 s2 0 = 0"
| "ngx_strncasecmp s1 s2 (Suc n) =
     (let c1 = ngx_tolower (cur s1); c2 = ngx_tolower (cur s2) in
      if c1 = c2 then (if c1 \<noteq> NUL then ngx_strncasecmp (tl s1) (tl s2) n else 0)
      else of_char c1 - of_char c2)"

text \<open>\<open>ngx_strncmp\<close> is the C library's \<open>strncmp\<close>.\<close>

fun ngx_strncmp :: "string \<Rightarrow> string \<Rightarrow> nat \<Rightarrow> int" where
  "ngx_strncmp s1 s2 0 = 0"
| "ngx_strncmp s1 s2 (Suc n) =
     (if cur s1 = cur s2 then (if cur s1 \<noteq> NUL then ngx_strncmp (tl s1) (tl s2) n else 0)
      else of_char (cur s1) - of_char (cur s2))"

function ngx_dns_strcmp :: "string \<Rightarrow> string \<Rightarrow> int" where
  "ngx_dns_strcmp s1 s2 =
     (let c1 = ngx_tolower (cur s1); c2 = ngx_tolower (cur s2) in
      if c1 = c2 then (if c1 \<noteq> NUL then ngx_dns_strcmp (tl s1) (tl s2) else 0)
      else
        let c1 = (if c1 = CHR ''.'' then CHR '' '' else c1); c2 = (if c2 = CHR ''.'' then CHR '' '' else c2)
        in of_char c1 - of_char c2)"
  by pat_completeness auto
termination
proof (relation "measure (\<lambda>(s1, s2). length s1)")
  fix s1 s2 :: string and x xa
  assume "x = ngx_tolower (cur s1)" "x \<noteq> NUL"
  then have "s1 \<noteq> []" by (auto simp: ngx_tolower_def)
  then show "((tl s1, tl s2), s1, s2) \<in> measure (\<lambda>(s1, s2). length s1)" by simp
qed simp

declare ngx_dns_strcmp.simps [simp del]

text \<open>The loops that run backwards: \<open>n\<close> bytes are left to compare.\<close>

fun ngx_rstrncmp :: "string \<Rightarrow> string \<Rightarrow> nat \<Rightarrow> int c_result" where
  "ngx_rstrncmp s1 s2 0 = Inr 0"
| "ngx_rstrncmp s1 s2 (Suc n) =
     (if n < length s1 \<and> n < length s2 then
        (if s1 ! n \<noteq> s2 ! n then Inr (of_char (s1 ! n) - of_char (s2 ! n))
         else if n = 0 then Inr 0 else ngx_rstrncmp s1 s2 n)
      else Inl BufferOverflow)"

definition upper_byte :: "char \<Rightarrow> char" where
  "upper_byte c = (if CHR ''a'' \<le> c \<and> c \<le> CHR ''z'' then char_of (of_char c - 32 :: nat) else c)"

fun ngx_rstrncasecmp :: "string \<Rightarrow> string \<Rightarrow> nat \<Rightarrow> int c_result" where
  "ngx_rstrncasecmp s1 s2 0 = Inr 0"
| "ngx_rstrncasecmp s1 s2 (Suc n) =
     (if n < length s1 \<and> n < length s2 then
        (if upper_byte (s1 ! n) \<noteq> upper_byte (s2 ! n) then Inr (of_char (upper_byte (s1 ! n)) - of_char (upper_byte (s2 ! n)))
         else if n = 0 then Inr 0 else ngx_rstrncasecmp s1 s2 n)
      else Inl BufferOverflow)"

text \<open>\<open>ngx_memcmp\<close> on two blocks of at least \<open>n\<close> bytes: the difference of the first two that differ.\<close>

fun ngx_memcmp :: "string \<Rightarrow> string \<Rightarrow> nat \<Rightarrow> int" where
  "ngx_memcmp (a # s1) (b # s2) (Suc n) = (if a = b then ngx_memcmp s1 s2 n else of_char a - of_char b)"
| "ngx_memcmp _ _ _ = 0"

definition ngx_memn2cmp :: "string \<Rightarrow> string \<Rightarrow> int" where
  "ngx_memn2cmp s1 s2 =
     (let n = (if length s1 \<le> length s2 then length s1 else length s2);
          z = (if length s1 \<le> length s2 then - 1 else 1);
          m = ngx_memcmp s1 s2 n
      in if m \<noteq> 0 \<or> length s1 = length s2 then m else z)"

section \<open>Searches\<close>

text \<open>The result is the index of the match in the string searched.\<close>

fun strnstr_from :: "nat \<Rightarrow> string \<Rightarrow> char \<Rightarrow> string \<Rightarrow> nat \<Rightarrow> nat option" where
  "strnstr_from i s1 c2 s2 0 = None"
| "strnstr_from i s1 c2 s2 (Suc len) =
     (if cur s1 = NUL then None
      else if cur s1 \<noteq> c2 then strnstr_from (Suc i) (tl s1) c2 s2 len
      else if length s2 > len then None
      else if ngx_strncmp (tl s1) s2 (length s2) \<noteq> 0 then strnstr_from (Suc i) (tl s1) c2 s2 len
      else Some i)"

definition ngx_strnstr :: "string \<Rightarrow> string \<Rightarrow> nat \<Rightarrow> nat option" where
  "ngx_strnstr s1 s2 len = strnstr_from 0 s1 (cur s2) (c_str (tl s2)) len"

function strstrn_from :: "nat \<Rightarrow> string \<Rightarrow> char \<Rightarrow> string \<Rightarrow> nat \<Rightarrow> nat option" where
  "strstrn_from i s1 c2 s2 n =
     (if cur s1 = NUL then None
      else if cur s1 \<noteq> c2 \<or> ngx_strncmp (tl s1) s2 n \<noteq> 0 then strstrn_from (Suc i) (tl s1) c2 s2 n
      else Some i)"
  by pat_completeness auto
termination
  by (relation "measure (\<lambda>(i, s1, c2, s2, n). length s1)") (auto simp: cur_def split: list.splits)

declare strstrn_from.simps [simp del]

definition ngx_strstrn :: "string \<Rightarrow> string \<Rightarrow> nat \<Rightarrow> nat option" where
  "ngx_strstrn s1 s2 n = strstrn_from 0 s1 (cur s2) (tl s2) n"

function strcasestrn_from :: "nat \<Rightarrow> string \<Rightarrow> char \<Rightarrow> string \<Rightarrow> nat \<Rightarrow> nat option" where
  "strcasestrn_from i s1 c2 s2 n =
     (if cur s1 = NUL then None
      else if ngx_tolower (cur s1) \<noteq> c2 \<or> ngx_strncasecmp (tl s1) s2 n \<noteq> 0 then strcasestrn_from (Suc i) (tl s1) c2 s2 n
      else Some i)"
  by pat_completeness auto
termination
  by (relation "measure (\<lambda>(i, s1, c2, s2, n). length s1)") (auto simp: cur_def split: list.splits)

declare strcasestrn_from.simps [simp del]

definition ngx_strcasestrn :: "string \<Rightarrow> string \<Rightarrow> nat \<Rightarrow> nat option" where
  "ngx_strcasestrn s1 s2 n = strcasestrn_from 0 s1 (ngx_tolower (cur s2)) (tl s2) n"

text \<open>
  \<open>ngx_strlcasestrn (s1, last, s2, n)\<close> on the bytes from \<open>s1\<close> to \<open>last\<close>; the test \<open>s1 >= last - n\<close>
  is on the number of bytes left.
\<close>

fun strlcasestrn_from :: "nat \<Rightarrow> string \<Rightarrow> char \<Rightarrow> string \<Rightarrow> nat \<Rightarrow> nat option" where
  "strlcasestrn_from i [] c2 s2 n = None"
| "strlcasestrn_from i (c # s1) c2 s2 n =
     (if length (c # s1) \<le> n then None
      else if ngx_tolower c \<noteq> c2 \<or> ngx_strncasecmp s1 s2 n \<noteq> 0 then strlcasestrn_from (Suc i) s1 c2 s2 n
      else Some i)"

definition ngx_strlcasestrn :: "string \<Rightarrow> string \<Rightarrow> nat \<Rightarrow> nat option" where
  "ngx_strlcasestrn s1 s2 n = strlcasestrn_from 0 s1 (ngx_tolower (cur s2)) (tl s2) n"

text \<open>\<open>ngx_strlchr (p, last, c)\<close>, an inline function of \<^verbatim>\<open>ngx_string.h\<close>.\<close>

fun ngx_strlchr :: "string \<Rightarrow> char \<Rightarrow> nat option" where
  "ngx_strlchr [] c = None"
| "ngx_strlchr (x # s) c = (if x = c then Some 0 else map_option Suc (ngx_strlchr s c))"

section \<open>Numbers\<close>

fun atoi_loop :: "int \<Rightarrow> string \<Rightarrow> int option" where
  "atoi_loop v [] = Some v"
| "atoi_loop v (c # line) = (if is_digit c then atoi_loop (wrap64 (wrap64 (v * 10) + digit_val c)) line else None)"

definition ngx_atoi :: "string \<Rightarrow> int" where
  "ngx_atoi line =
     (if line = [] then NGX_ERROR
      else case atoi_loop 0 line of None \<Rightarrow> NGX_ERROR | Some v \<Rightarrow> if v < 0 then NGX_ERROR else v)"

text \<open>
  \<open>ngx_atosz\<close>, \<open>ngx_atoof\<close> and \<open>ngx_atotm\<close> are the same text with \<open>ssize_t\<close>, \<open>off_t\<close> and \<open>time_t\<close>,
  which have 64 bits too.
\<close>

definition ngx_atosz :: "string \<Rightarrow> int" where
  "ngx_atosz line =
     (if line = [] then NGX_ERROR
      else case atoi_loop 0 line of None \<Rightarrow> NGX_ERROR | Some v \<Rightarrow> if v < 0 then NGX_ERROR else v)"

definition ngx_atoof :: "string \<Rightarrow> int" where
  "ngx_atoof line =
     (if line = [] then NGX_ERROR
      else case atoi_loop 0 line of None \<Rightarrow> NGX_ERROR | Some v \<Rightarrow> if v < 0 then NGX_ERROR else v)"

definition ngx_atotm :: "string \<Rightarrow> int" where
  "ngx_atotm line =
     (if line = [] then NGX_ERROR
      else case atoi_loop 0 line of None \<Rightarrow> NGX_ERROR | Some v \<Rightarrow> if v < 0 then NGX_ERROR else v)"

text \<open>The loop of \<open>ngx_atofp\<close> carries the value, whether the dot was seen and the places left.\<close>

fun atofp_loop :: "int \<Rightarrow> bool \<Rightarrow> nat \<Rightarrow> string \<Rightarrow> (int \<times> nat) option" where
  "atofp_loop v dot point [] = Some (v, point)"
| "atofp_loop v dot point (c # line) =
     (if point = 0 then None
      else if c = CHR ''.'' then (if dot then None else atofp_loop v True point line)
      else if is_digit c then
        atofp_loop (wrap64 (wrap64 (v * 10) + digit_val c)) dot (if dot then point - 1 else point) line
      else None)"

fun times_ten :: "nat \<Rightarrow> int \<Rightarrow> int" where
  "times_ten 0 v = v"
| "times_ten (Suc n) v = times_ten n (wrap64 (v * 10))"

definition ngx_atofp :: "string \<Rightarrow> nat \<Rightarrow> int" where
  "ngx_atofp line point =
     (if line = [] then NGX_ERROR
      else case atofp_loop 0 False point line of
          None \<Rightarrow> NGX_ERROR
        | Some (v, left) \<Rightarrow> let v = times_ten left v in if v < 0 then NGX_ERROR else v)"

fun hextoi_loop :: "int \<Rightarrow> string \<Rightarrow> int option" where
  "hextoi_loop v [] = Some v"
| "hextoi_loop v (ch # line) =
     (if is_digit ch then hextoi_loop (wrap64 (wrap64 (v * 16) + digit_val ch)) line
      else if is_hex_lc ch then hextoi_loop (wrap64 (wrap64 (v * 16) + hex_lc_val ch)) line
      else None)"

definition ngx_hextoi :: "string \<Rightarrow> int" where
  "ngx_hextoi line =
     (if line = [] then NGX_ERROR
      else case hextoi_loop 0 line of None \<Rightarrow> NGX_ERROR | Some v \<Rightarrow> if v < 0 then NGX_ERROR else v)"


section \<open>Meaning of the numbers\<close>

lemma offset_mod: "((a + h) mod m - h) mod m = a mod (m :: int)"
  by (simp add: mod_diff_left_eq)

lemma offset_cong: "a mod m = b mod m \<Longrightarrow> (a + h) mod m = (b + h) mod (m :: int)"
  by (rule mod_add_cong) simp_all

lemma mod_add_reduce: "x mod m = a mod m \<Longrightarrow> (x + b) mod m = (a + b) mod (m :: int)"
  by (rule mod_add_cong) simp_all

lemma mod_mult_reduce: "x mod m = a mod m \<Longrightarrow> (x * b) mod m = (a * b) mod (m :: int)"
  by (rule mod_mult_cong) simp_all

lemma wrap64_mod: "wrap64 a mod 18446744073709551616 = a mod 18446744073709551616"
  unfolding wrap64_def by (rule offset_mod)

lemma wrap64_cong: "a mod 18446744073709551616 = b mod 18446744073709551616 \<Longrightarrow> wrap64 a = wrap64 b"
  unfolding wrap64_def by (drule offset_cong [where h = 9223372036854775808]) (simp only:)

lemma wrap64_add [simp]: "wrap64 (wrap64 a + b) = wrap64 (a + b)"
  by (intro wrap64_cong mod_add_reduce wrap64_mod)

lemma wrap64_mult [simp]: "wrap64 (wrap64 a * b) = wrap64 (a * b)"
  by (intro wrap64_cong mod_mult_reduce wrap64_mod)

lemma wrap64_wrap64 [simp]: "wrap64 (wrap64 a) = wrap64 a"
  by (simp add: wrap64_id)

definition dec_from :: "int \<Rightarrow> string \<Rightarrow> int" where
  "dec_from v s = foldl (\<lambda>v c. v * 10 + digit_val c) v s"

abbreviation dec_val :: "string \<Rightarrow> int" where
  "dec_val s \<equiv> dec_from 0 s"

lemma dec_from_simps [simp]:
  "dec_from v [] = v"
  "dec_from v (c # s) = dec_from (v * 10 + digit_val c) s"
  "dec_from v (s @ t) = dec_from (dec_from v s) t"
  by (simp_all add: dec_from_def)

lemma dec_from_shift: "dec_from v s = v * 10 ^ length s + dec_val s"
proof (induction s arbitrary: v)
  case (Cons c s)
  show ?case using Cons.IH [of "v * 10 + digit_val c"] Cons.IH [of "digit_val c"] by (simp add: algebra_simps)
qed simp

lemma dec_val_bounds: "\<forall>c \<in> set s. is_digit c \<Longrightarrow> 0 \<le> dec_val s \<and> dec_val s < 10 ^ length s"
proof (induction s)
  case (Cons c s)
  then have "0 \<le> digit_val c \<and> digit_val c \<le> 9" by (simp add: digit_val_range)
  moreover have "dec_val (c # s) = digit_val c * 10 ^ length s + dec_val s"
    using dec_from_shift [of "digit_val c" s] by simp
  moreover have "digit_val c * 10 ^ length s \<le> 9 * 10 ^ length s" using calculation(1) by simp
  moreover have "0 \<le> dec_val s \<and> dec_val s < 10 ^ length s" using Cons by simp
  moreover have "0 \<le> digit_val c * 10 ^ length s" using calculation(1) by simp
  moreover have "(10::int) ^ length (c # s) = 10 * 10 ^ length s" by simp
  ultimately show ?case by linarith
qed simp

lemma atoi_loop_eq:
  "atoi_loop (wrap64 v) s = (if \<forall>c \<in> set s. is_digit c then Some (wrap64 (dec_from v s)) else None)"
proof (induction s arbitrary: v)
  case (Cons c s)
  from Cons.IH [of "v * 10 + digit_val c"] show ?case by simp
qed simp

lemma wrap64_0 [simp]: "wrap64 0 = 0"
  by (simp add: wrap64_def)

lemma ngx_atoi_eq:
  "ngx_atoi s = (if s \<noteq> [] \<and> (\<forall>c \<in> set s. is_digit c) \<and> 0 \<le> wrap64 (dec_val s) then wrap64 (dec_val s) else NGX_ERROR)"
  using atoi_loop_eq [of 0 s] by (auto simp: ngx_atoi_def)

lemma dec_val_nat_dec: "dec_val (nat_dec n) = int n"
proof (induction n rule: nat_dec.induct)
  case (1 n)
  show ?case
  proof (cases "n < 10")
    case True
    then show ?thesis by (simp add: nat_dec.simps [of n] digit_val_digit_char)
  next
    case False
    then have "dec_val (nat_dec n) = int (n div 10) * 10 + int (n mod 10)"
      using "1.IH" by (simp add: nat_dec.simps [of n] digit_val_digit_char)
    also have "\<dots> = int n" by (metis div_mult_mod_eq of_nat_add of_nat_mult of_nat_numeral)
    finally show ?thesis .
  qed
qed

lemma atoi_nat_dec: "int n < 2 ^ 63 \<Longrightarrow> ngx_atoi (nat_dec n) = int n"
proof -
  assume "int n < 2 ^ 63"
  then have "wrap64 (int n) = int n" by (intro wrap64_id) (simp add: is_int64_def)
  then show ?thesis by (auto simp: ngx_atoi_eq dec_val_nat_dec dest: nat_dec_digits)
qed

lemma ngx_atoi_range: "- 1 \<le> ngx_atoi s \<and> is_int64 (ngx_atoi s)"
  using wrap64_range [of "dec_val s"] by (auto simp: ngx_atoi_eq is_int64_def)

section \<open>Fixed point numbers\<close>

lemma dot_not_digit: "is_digit c \<Longrightarrow> c \<noteq> CHR ''.''"
  by (auto simp: is_digit_def less_eq_char_def)

lemma atofp_loop_int:
  assumes "0 < point"
  shows "\<forall>c \<in> set a. is_digit c \<Longrightarrow> atofp_loop (wrap64 v) False point (a @ rest) = atofp_loop (wrap64 (dec_from v a)) False point rest"
proof (induction a arbitrary: v)
  case (Cons c a)
  from Cons.IH [of "v * 10 + digit_val c"] Cons.prems assms show ?case by (simp add: dot_not_digit)
qed simp

lemma atofp_loop_frac:
  "\<forall>c \<in> set b. is_digit c \<Longrightarrow> atofp_loop (wrap64 v) True point b =
     (if length b \<le> point then Some (wrap64 (dec_from v b), point - length b) else None)"
proof (induction b arbitrary: v point)
  case (Cons c b)
  from Cons.IH [of "v * 10 + digit_val c" "point - 1"] Cons.prems show ?case
    by (cases point) (simp_all add: dot_not_digit)
qed simp

lemma times_ten_eq: "times_ten n (wrap64 v) = wrap64 (v * 10 ^ n)"
proof (induction n arbitrary: v)
  case (Suc n)
  from Suc.IH [of "v * 10"] show ?case by (simp add: mult.assoc)
qed simp

text \<open>Digits, a dot and at most \<open>point\<close> more digits are read exactly, up to 64 bits.\<close>

lemma ngx_atofp_eq:
  assumes "0 < point" "\<forall>c \<in> set (a @ b). is_digit c" "length b \<le> point"
  shows "ngx_atofp (a @ ''.'' @ b) point =
    (let v = wrap64 (dec_val (a @ b) * 10 ^ (point - length b)) in if v < 0 then NGX_ERROR else v)"
proof -
  have "atofp_loop 0 False point (a @ ''.'' @ b) = atofp_loop (wrap64 (dec_val a)) True point b"
    using atofp_loop_int [of point a 0 "''.'' @ b"] assms by simp
  also have "\<dots> = Some (wrap64 (dec_val (a @ b)), point - length b)"
    using atofp_loop_frac [of b "dec_val a" point] assms by simp
  finally show ?thesis by (simp add: ngx_atofp_def times_ten_eq Let_def del: dec_from_simps(3))
qed

text \<open>One digit too many after the dot, and the whole number is refused.\<close>

lemma ngx_atofp_too_long:
  assumes "0 < point" "\<forall>c \<in> set (a @ b). is_digit c" "point < length b"
  shows "ngx_atofp (a @ ''.'' @ b) point = NGX_ERROR"
proof -
  have "atofp_loop 0 False point (a @ ''.'' @ b) = atofp_loop (wrap64 (dec_val a)) True point b"
    using atofp_loop_int [of point a 0 "''.'' @ b"] assms by simp
  also have "\<dots> = None" using atofp_loop_frac [of b "dec_val a" point] assms by simp
  finally show ?thesis by (simp add: ngx_atofp_def)
qed

lemma ngx_atofp_range: "- 1 \<le> ngx_atofp s p \<and> is_int64 (ngx_atofp s p)"
proof -
  have tt: "is_int64 v \<Longrightarrow> is_int64 (times_ten n v)" for n v by (induction n arbitrary: v) simp_all
  have lp: "is_int64 v \<Longrightarrow> atofp_loop v d p s = Some (v', p') \<Longrightarrow> is_int64 v'" for v d p v' p'
    by (induction s arbitrary: v d p) (auto split: if_splits, (metis wrap64_range)+)
  show ?thesis using tt lp [of 0 False p] by (auto simp: ngx_atofp_def Let_def is_int64_def split: option.splits)
qed

lemma sign_not_number: "c = CHR ''-'' \<Longrightarrow> ngx_atofp (c # s) p = NGX_ERROR"
  by (simp add: ngx_atofp_def is_digit_def less_eq_char_def)

lemma dec_val_pad0 [simp]: "dec_from 0 (pad0 w s) = dec_val s"
proof -
  have "dec_from 0 (replicate n CHR ''0'') = 0" for n
    by (induction n) (simp_all add: digit_val_def)
  then show ?thesis by (simp add: pad0_def)
qed

lemma atofp_FormatDeg:
  assumes "0 \<le> d" "is_int32 d"
  shows "ngx_atofp (fn_v_FormatDeg d) 6 = d"
proof -
  let ?a = "nat_dec (nat (d div 1000000))" let ?b = "pad0 6 (nat_dec (nat (d mod 1000000)))"
  have m: "nat (d mod 1000000) < 10 ^ 6" by (simp add: nat_less_iff)
  have lb: "length ?b = 6" using nat_dec_length [OF m] by (simp add: pad0_length)
  have dig: "\<forall>c \<in> set (?a @ ?b). is_digit c"
    by (auto simp: pad0_def is_digit_def dest: nat_dec_digits)
  have v: "dec_val (?a @ ?b) = d"
  proof -
    have "dec_val (?a @ ?b) = int (nat (d div 1000000)) * 10 ^ 6 + int (nat (d mod 1000000))"
      using dec_from_shift [of "int (nat (d div 1000000))" ?b] lb by (simp add: dec_val_nat_dec)
    also have "\<dots> = d" using assms(1) by (simp add: pos_imp_zdiv_nonneg_iff)
    finally show ?thesis .
  qed
  have "wrap64 d = d" using assms(2) by (intro wrap64_id) (simp add: is_int32_def is_int64_def)
  with ngx_atofp_eq [of 6 ?a ?b] dig lb v assms(1) show ?thesis
    by (simp add: FormatDeg_nonneg Let_def del: dec_from_simps(3))
qed


section \<open>Meaning of the comparisons\<close>

lemma tolower_NUL [simp]: "ngx_tolower c = NUL \<longleftrightarrow> c = NUL"
proof
  assume *: "ngx_tolower c = NUL"
  show "c = NUL"
  proof (cases "CHR ''A'' \<le> c \<and> c \<le> CHR ''Z''")
    case True
    with * have "char_or_0x20 c = NUL" by (simp add: ngx_tolower_def)
    then show ?thesis by (cases c) (simp add: char_or_0x20_def)
  next
    case False
    with * show ?thesis by (simp add: ngx_tolower_def if_not_P)
  qed
qed (simp add: ngx_tolower_def less_eq_char_def)

lemma of_char_eq_int [simp]: "(of_char c :: int) = of_char d \<longleftrightarrow> c = d"
  by (metis of_nat_of_char of_nat_eq_iff of_char_eq_iff)

lemma c_str_cur: "c_str s = (if cur s = NUL then [] else cur s # c_str (tl s))"
  by (cases s) (auto simp: c_str_def)

lemma strcasecmp_eq: "ngx_strcasecmp s1 s2 = 0 \<longleftrightarrow> map ngx_tolower (c_str s1) = map ngx_tolower (c_str s2)"
proof (induction s1 s2 rule: ngx_strcasecmp.induct)
  case (1 s1 s2)
  show ?case
  proof (cases "ngx_tolower (cur s1) = ngx_tolower (cur s2)")
    case True
    then have NUL: "cur s1 = NUL \<longleftrightarrow> cur s2 = NUL" by (metis tolower_NUL)
    show ?thesis
    proof (cases "cur s1 = NUL")
      case True
      with NUL show ?thesis by (subst ngx_strcasecmp.simps) (simp add: c_str_cur [of s1] c_str_cur [of s2])
    next
      case False
      with NUL True "1.IH" show ?thesis
        by (subst ngx_strcasecmp.simps) (simp add: c_str_cur [of s1] c_str_cur [of s2] Let_def)
    qed
  next
    case False
    then have "ngx_strcasecmp s1 s2 \<noteq> 0" by (subst ngx_strcasecmp.simps) (simp add: Let_def)
    moreover have "map ngx_tolower (c_str s1) \<noteq> map ngx_tolower (c_str s2)"
      using False by (auto simp: c_str_cur [of s1] c_str_cur [of s2])
    ultimately show ?thesis by simp
  qed
qed

lemma strncasecmp_eq:
  "n \<le> length s1 \<Longrightarrow> length s2 = n \<Longrightarrow> NUL \<notin> set s2 \<Longrightarrow>
   ngx_strncasecmp s1 s2 n = 0 \<longleftrightarrow> map ngx_tolower (take n s1) = map ngx_tolower s2"
proof (induction n arbitrary: s1 s2)
  case (Suc n)
  then obtain a t1 b t2 where s: "s1 = a # t1" "s2 = b # t2" by (cases s1; cases s2) auto
  with Suc.prems have b: "b \<noteq> NUL" by auto
  have IH: "ngx_strncasecmp t1 t2 n = 0 \<longleftrightarrow> map ngx_tolower (take n t1) = map ngx_tolower t2"
    using Suc.IH [of t1 t2] Suc.prems s by simp
  show ?case
  proof (cases "ngx_tolower a = ngx_tolower b")
    case True
    with b have "a \<noteq> NUL" by (metis tolower_NUL)
    with True IH s b show ?thesis by (simp add: Let_def)
  qed (simp add: s Let_def)
qed simp

section \<open>Meaning of the search\<close>

definition occurs_at :: "string \<Rightarrow> string \<Rightarrow> nat \<Rightarrow> bool" where
  "occurs_at s pat i \<longleftrightarrow> i + length pat \<le> length s \<and> map ngx_tolower (take (length pat) (drop i s)) = map ngx_tolower pat"

lemma occurs_at_Cons [simp]: "occurs_at (x # s) pat (Suc i) = occurs_at s pat i"
  by (simp add: occurs_at_def)

lemma all_less_Suc_split: "(\<forall>k < Suc m. P k) \<longleftrightarrow> P 0 \<and> (\<forall>k < m. P (Suc k))"
  by (auto simp: less_Suc_eq_0_disj)

lemma strlcasestrn_from_eq:
  assumes "length p = n" "NUL \<notin> set (c # p)"
  shows "strlcasestrn_from i s (ngx_tolower c) p n = Some j \<longleftrightarrow>
    i \<le> j \<and> occurs_at s (c # p) (j - i) \<and> (\<forall>k < j - i. \<not> occurs_at s (c # p) k)"
proof (induction s arbitrary: i)
  case Nil
  then show ?case by (simp add: occurs_at_def)
next
  case (Cons x s)
  show ?case
  proof (cases "length (x # s) \<le> n")
    case True
    then show ?thesis using assms(1) by (auto simp: occurs_at_def)
  next
    case False
    then have first: "occurs_at (x # s) (c # p) 0 \<longleftrightarrow> ngx_tolower x = ngx_tolower c \<and> ngx_strncasecmp s p n = 0"
      using strncasecmp_eq [of n s p] assms by (auto simp: occurs_at_def)
    show ?thesis
    proof (cases "occurs_at (x # s) (c # p) 0")
      case True
      then have "strlcasestrn_from i (x # s) (ngx_tolower c) p n = Some i" using first False by simp
      moreover have "i = j" if "i \<le> j" "\<forall>k < j - i. \<not> occurs_at (x # s) (c # p) k"
        using that True by (cases "j - i") auto
      ultimately show ?thesis using True by auto
    next
      case no: False
      then have "strlcasestrn_from i (x # s) (ngx_tolower c) p n = strlcasestrn_from (Suc i) s (ngx_tolower c) p n"
        using first False by auto
      moreover have "i \<le> j \<and> occurs_at (x # s) (c # p) (j - i) \<and> (\<forall>k < j - i. \<not> occurs_at (x # s) (c # p) k) \<longleftrightarrow>
          Suc i \<le> j \<and> occurs_at s (c # p) (j - Suc i) \<and> (\<forall>k < j - Suc i. \<not> occurs_at s (c # p) k)"
      proof (cases "j - i")
        case 0
        with no show ?thesis by auto
      next
        case (Suc m)
        then have "j - Suc i = m" "i \<le> j" "Suc i \<le> j" by simp_all
        with Suc no show ?thesis by (simp add: all_less_Suc_split)
      qed
      ultimately show ?thesis using Cons.IH [of "Suc i"] by simp
    qed
  qed
qed

lemma strlcasestrn_eq:
  assumes "pat \<noteq> []" "NUL \<notin> set pat"
  shows "ngx_strlcasestrn s pat (length pat - 1) = Some j \<longleftrightarrow> occurs_at s pat j \<and> (\<forall>k < j. \<not> occurs_at s pat k)"
proof -
  obtain c p where "pat = c # p" using assms(1) by (cases pat) auto
  with strlcasestrn_from_eq [of p "length p" c 0 s j] assms(2) show ?thesis by (simp add: ngx_strlcasestrn_def)
qed

lemma strlcasestrn_None:
  assumes "pat \<noteq> []" "NUL \<notin> set pat"
  shows "ngx_strlcasestrn s pat (length pat - 1) = None \<longleftrightarrow> (\<forall>k. \<not> occurs_at s pat k)"
proof
  assume none: "ngx_strlcasestrn s pat (length pat - 1) = None"
  show "\<forall>k. \<not> occurs_at s pat k"
  proof (rule ccontr)
    assume "\<not> (\<forall>k. \<not> occurs_at s pat k)"
    then obtain j where "occurs_at s pat j" "\<forall>k < j. \<not> occurs_at s pat k"
      using exists_least_iff [of "occurs_at s pat"] by auto
    with strlcasestrn_eq [OF assms, of s j] none show False by simp
  qed
next
  assume "\<forall>k. \<not> occurs_at s pat k"
  with strlcasestrn_eq [OF assms, of s] show "ngx_strlcasestrn s pat (length pat - 1) = None"
    by (cases "ngx_strlcasestrn s pat (length pat - 1)") auto
qed

lemma strlchr_eq: "ngx_strlchr s c = (if c \<in> set s then Some (length (takeWhile (\<lambda>x. x \<noteq> c) s)) else None)"
  by (induction s) auto

lemma cpystrn_eq: "0 < n \<Longrightarrow> ngx_cpystrn src n = take (n - 1) (c_str src) @ [NUL]"
proof -
  have "cpystrn_loop src m = take m (c_str src) @ [NUL]" for m
  proof (induction src m rule: cpystrn_loop.induct)
    case (2 src n)
    then show ?case by (simp add: c_str_cur [of src])
  qed simp
  then show "0 < n \<Longrightarrow> ?thesis" by (simp add: ngx_cpystrn_def)
qed

section \<open>Properties\<close>



text \<open>
  \<open>ngx_atoi\<close> accepts exactly the non-empty strings of digits whose value, reduced to a signed
  64 bit number, is not negative, and returns that number; in particular it reads back every
  number below 2^63 that was printed in decimal.
\<close>

theorem atoi_meaning:
  "ngx_atoi s = (if s \<noteq> [] \<and> list_all is_digit s \<and> 0 \<le> wrap64 (dec_val s) then wrap64 (dec_val s) else NGX_ERROR) \<and>
   (int n < 2 ^ 63 \<longrightarrow> ngx_atoi (nat_dec n) = int n)"
  using ngx_atoi_eq [of s] atoi_nat_dec [of n] by (simp add: list_all_iff)

theorem atoi_meaning_witness: "ngx_atoi ''18446744073709551621'' = 5 \<and> ngx_atoi (nat_dec 50) = 50"
proof -
  have "ngx_atoi ''18446744073709551621'' = 5"
    using atoi_meaning [of "''18446744073709551621''" 0] by (simp add: is_digit_def less_eq_char_def digit_val_def wrap64_def)
  moreover have "ngx_atoi (nat_dec 50) = 50" using atoi_meaning [of "[]" 50] by simp
  ultimately show ?thesis by blast
qed

text \<open>
  \<open>ngx_strlcasestrn\<close> finds the first place where the pattern occurs, without regard to case,
  and returns NULL exactly when there is none.
\<close>

theorem strlcasestrn_first:
  assumes "pat \<noteq> []" "NUL \<notin> set pat"
  shows "case ngx_strlcasestrn s pat (length pat - 1) of
      None \<Rightarrow> (\<forall>k. \<not> occurs_at s pat k)
    | Some j \<Rightarrow> occurs_at s pat j \<and> (\<forall>k < j. \<not> occurs_at s pat k)"
  using strlcasestrn_eq [OF assms, of s] strlcasestrn_None [OF assms, of s] by (auto split: option.splits)

theorem strlcasestrn_first_witness:
  "ngx_strlcasestrn ''id=7&Lat=39.9'' ''lat'' 2 = Some 5 \<and> occurs_at ''id=7&Lat=39.9'' ''lat'' 5"
proof -
  have "ngx_strlcasestrn ''id=7&Lat=39.9'' ''lat'' 2 = Some 5" by code_simp
  with strlcasestrn_first [of "''lat''" "''id=7&Lat=39.9''"] show ?thesis by (simp add: numeral_2_eq_2)
qed

end
