(* ===== verification/Ngx_Http_Parse.thy ===== *)
theory Ngx_Http_Parse
  imports Ngx_String "HOL-Library.Sublist"
begin

text \<open>
  The request line parser of \<^verbatim>\<open>src/nginx/src/http/ngx_http_parse.c\<close>, the step from the parsed
  line to URI and arguments (\<open>ngx_http_process_request_uri\<close> of \<^verbatim>\<open>ngx_http_request.c\<close>) and the
  lookup of an argument (\<open>ngx_http_arg\<close>).

  The parser is a byte machine: \<open>request_line_step\<close> is the body of its loop, one definition per
  group of states, and \<open>run_steps\<close> the loop. Pointers into the buffer are indices, \<open>None\<close> is
  \<open>NULL\<close>; \<open>goto done\<close> is \<open>RL_done\<close>, a \<open>return\<close> of an error code \<open>RL_return\<close>. \<open>http_major\<close> and
  \<open>http_minor\<close> are bit fields of 16 bits. The Windows branches (\<open>NGX_WIN32\<close>) are left out.

  \<open>request_line\<close> interprets the contract \<open>resumable\<close>; \<open>parse_get_line\<close> says what is parsed from a
  plain GET request, \<open>http_arg_eq\<close> that \<open>ngx_http_arg\<close> returns the first argument of that name.
\<close>

section \<open>Data\<close>

datatype request_line_state =
    sw_start | sw_method | sw_spaces_before_uri | sw_schema | sw_schema_slash | sw_schema_slash_slash
  | sw_host_start | sw_host | sw_host_end | sw_host_ip_literal | sw_port | sw_host_http_09
  | sw_after_slash_in_uri | sw_check_uri | sw_check_uri_http_09 | sw_uri | sw_http_09
  | sw_http_H | sw_http_HT | sw_http_HTT | sw_http_HTTP | sw_first_major_digit | sw_major_digit
  | sw_first_minor_digit | sw_minor_digit | sw_spaces_after_digit | sw_almost_done

text \<open>The members of \<open>ngx_http_request_t\<close> the parser reads and writes.\<close>

record ngx_http_request =
  rstate :: request_line_state
  r_method :: nat
  request_start :: "nat option"
  request_end :: "nat option"
  method_end :: "nat option"
  schema_start :: "nat option"
  schema_end :: "nat option"
  host_start :: "nat option"
  host_end :: "nat option"
  port_end :: "nat option"
  uri_start :: "nat option"
  uri_end :: "nat option"
  uri_ext :: "nat option"
  args_start :: "nat option"
  http_protocol :: "nat option"
  http_major :: nat
  http_minor :: nat
  http_version :: nat
  complex_uri :: bool
  quoted_uri :: bool
  plus_in_uri :: bool
  space_in_uri :: bool

datatype rl_exit = RL_done | RL_return int

abbreviation (input) NGX_HTTP_UNKNOWN :: nat where "NGX_HTTP_UNKNOWN \<equiv> 0x1"
abbreviation (input) NGX_HTTP_GET :: nat where "NGX_HTTP_GET \<equiv> 0x2"
abbreviation (input) NGX_HTTP_HEAD :: nat where "NGX_HTTP_HEAD \<equiv> 0x4"
abbreviation (input) NGX_HTTP_POST :: nat where "NGX_HTTP_POST \<equiv> 0x8"
abbreviation (input) NGX_HTTP_PUT :: nat where "NGX_HTTP_PUT \<equiv> 0x10"
abbreviation (input) NGX_HTTP_DELETE :: nat where "NGX_HTTP_DELETE \<equiv> 0x20"
abbreviation (input) NGX_HTTP_MKCOL :: nat where "NGX_HTTP_MKCOL \<equiv> 0x40"
abbreviation (input) NGX_HTTP_COPY :: nat where "NGX_HTTP_COPY \<equiv> 0x80"
abbreviation (input) NGX_HTTP_MOVE :: nat where "NGX_HTTP_MOVE \<equiv> 0x100"
abbreviation (input) NGX_HTTP_OPTIONS :: nat where "NGX_HTTP_OPTIONS \<equiv> 0x200"
abbreviation (input) NGX_HTTP_PROPFIND :: nat where "NGX_HTTP_PROPFIND \<equiv> 0x400"
abbreviation (input) NGX_HTTP_PROPPATCH :: nat where "NGX_HTTP_PROPPATCH \<equiv> 0x800"
abbreviation (input) NGX_HTTP_LOCK :: nat where "NGX_HTTP_LOCK \<equiv> 0x1000"
abbreviation (input) NGX_HTTP_UNLOCK :: nat where "NGX_HTTP_UNLOCK \<equiv> 0x2000"
abbreviation (input) NGX_HTTP_PATCH :: nat where "NGX_HTTP_PATCH \<equiv> 0x4000"
abbreviation (input) NGX_HTTP_TRACE :: nat where "NGX_HTTP_TRACE \<equiv> 0x8000"

abbreviation (input) NGX_HTTP_PARSE_INVALID_METHOD :: int where "NGX_HTTP_PARSE_INVALID_METHOD \<equiv> 10"
abbreviation (input) NGX_HTTP_PARSE_INVALID_REQUEST :: int where "NGX_HTTP_PARSE_INVALID_REQUEST \<equiv> 11"
abbreviation (input) NGX_HTTP_PARSE_INVALID_09_METHOD :: int where "NGX_HTTP_PARSE_INVALID_09_METHOD \<equiv> 12"

text \<open>A request as \<open>ngx_http_init_request\<close> leaves it.\<close>

definition fresh_request :: ngx_http_request where
  "fresh_request = \<lparr>rstate = sw_start, r_method = NGX_HTTP_UNKNOWN, request_start = None, request_end = None,
     method_end = None, schema_start = None, schema_end = None, host_start = None, host_end = None, port_end = None,
     uri_start = None, uri_end = None, uri_ext = None, args_start = None, http_protocol = None,
     http_major = 0, http_minor = 0, http_version = 1000,
     complex_uri = False, quoted_uri = False, plus_in_uri = False, space_in_uri = False\<rparr>"

section \<open>The table of usual characters\<close>

definition usual :: "nat list" where
  "usual = [0xffffdbfe, 0x7fff37d6, 0xffffffff, 0xffffffff, 0xffffffff, 0xffffffff, 0xffffffff, 0xffffffff]"

definition usual_char :: "char \<Rightarrow> bool" where
  "usual_char ch \<longleftrightarrow> bit (usual ! (of_char ch div 32)) (of_char ch mod 32)"

section \<open>The states\<close>

definition is_method_char :: "char \<Rightarrow> bool" where
  "is_method_char ch \<longleftrightarrow> CHR ''A'' \<le> ch \<and> ch \<le> CHR ''Z'' \<or> ch = CHR ''_''"

definition http_method :: "string \<Rightarrow> nat \<Rightarrow> nat" where
  "http_method m old =
     (if length m = 3 then
        (if m = ''GET'' then NGX_HTTP_GET else if m = ''PUT'' then NGX_HTTP_PUT else old)
      else if length m = 4 then
        (if m ! 1 = CHR ''O'' then
           (if m = ''POST'' then NGX_HTTP_POST else if m = ''COPY'' then NGX_HTTP_COPY
            else if m = ''MOVE'' then NGX_HTTP_MOVE else if m = ''LOCK'' then NGX_HTTP_LOCK else old)
         else if m = ''HEAD'' then NGX_HTTP_HEAD else old)
      else if length m = 5 then
        (if m = ''TRACE'' then NGX_HTTP_TRACE else if m = ''PATCH'' then NGX_HTTP_PATCH
         else if m = ''MKCOL'' then NGX_HTTP_MKCOL else old)
      else if length m = 6 then
        (if m = ''DELETE'' then NGX_HTTP_DELETE else if m = ''UNLOCK'' then NGX_HTTP_UNLOCK else old)
      else if length m = 7 then (if m = ''OPTIONS'' then NGX_HTTP_OPTIONS else old)
      else if length m = 8 then (if m = ''PROPFIND'' then NGX_HTTP_PROPFIND else old)
      else if length m = 9 then (if m = ''PROPPATCH'' then NGX_HTTP_PROPPATCH else old)
      else old)"

definition step_method :: "string \<Rightarrow> nat \<Rightarrow> ngx_http_request \<Rightarrow> (ngx_http_request, rl_exit) ctl" where
  "step_method b p r =
     (let ch = b ! p in
      if rstate r = sw_start then
        let r = r\<lparr>request_start := Some p\<rparr> in
        if ch = CR \<or> ch = LF then Next r
        else if \<not> is_method_char ch then Stop (RL_return NGX_HTTP_PARSE_INVALID_METHOD) r
        else Next (r\<lparr>rstate := sw_method\<rparr>)
      else
        if ch = CHR '' '' then
          let m = the (request_start r) in
          Next (r\<lparr>method_end := Some (p - 1), r_method := http_method (take (p - m) (drop m b)) (r_method r),
            rstate := sw_spaces_before_uri\<rparr>)
        else if \<not> is_method_char ch then Stop (RL_return NGX_HTTP_PARSE_INVALID_METHOD) r
        else Next r)"

abbreviation (input) rl_bad :: "ngx_http_request \<Rightarrow> (ngx_http_request, rl_exit) ctl" where
  "rl_bad r \<equiv> Stop (RL_return NGX_HTTP_PARSE_INVALID_REQUEST) r"

definition step_schema :: "char \<Rightarrow> nat \<Rightarrow> ngx_http_request \<Rightarrow> (ngx_http_request, rl_exit) ctl" where
  "step_schema ch p r =
     (if rstate r = sw_spaces_before_uri then
        (if ch = CHR ''/'' then Next (r\<lparr>uri_start := Some p, rstate := sw_after_slash_in_uri\<rparr>)
         else if is_alpha_lc ch then Next (r\<lparr>schema_start := Some p, rstate := sw_schema\<rparr>)
         else if ch = CHR '' '' then Next r
         else rl_bad r)
      else if rstate r = sw_schema then
        (if is_alpha_lc ch then Next r
         else if ch = CHR '':'' then Next (r\<lparr>schema_end := Some p, rstate := sw_schema_slash\<rparr>)
         else rl_bad r)
      else if rstate r = sw_schema_slash then
        (if ch = CHR ''/'' then Next (r\<lparr>rstate := sw_schema_slash_slash\<rparr>) else rl_bad r)
      else
        (if ch = CHR ''/'' then Next (r\<lparr>rstate := sw_host_start\<rparr>) else rl_bad r))"

text \<open>The case \<open>sw_host_end\<close>, which \<open>sw_host_start\<close> and \<open>sw_host\<close> fall through to.\<close>

definition host_end_case :: "char \<Rightarrow> nat \<Rightarrow> ngx_http_request \<Rightarrow> (ngx_http_request, rl_exit) ctl" where
  "host_end_case ch p r =
     (let r = r\<lparr>host_end := Some p\<rparr> in
      if ch = CHR '':'' then Next (r\<lparr>rstate := sw_port\<rparr>)
      else if ch = CHR ''/'' then Next (r\<lparr>uri_start := Some p, rstate := sw_after_slash_in_uri\<rparr>)
      else if ch = CHR '' '' then
        Next (r\<lparr>uri_start := map_option (\<lambda>e. e + 1) (schema_end r), uri_end := map_option (\<lambda>e. e + 2) (schema_end r),
          rstate := sw_host_http_09\<rparr>)
      else rl_bad r)"

definition host_case :: "char \<Rightarrow> nat \<Rightarrow> ngx_http_request \<Rightarrow> (ngx_http_request, rl_exit) ctl" where
  "host_case ch p r =
     (if is_alpha_lc ch then Next r
      else if is_digit ch \<or> ch = CHR ''.'' \<or> ch = CHR ''-'' then Next r
      else host_end_case ch p r)"

definition step_host :: "char \<Rightarrow> nat \<Rightarrow> ngx_http_request \<Rightarrow> (ngx_http_request, rl_exit) ctl" where
  "step_host ch p r =
     (if rstate r = sw_host_start then
        let r = r\<lparr>host_start := Some p\<rparr> in
        if ch = CHR ''['' then Next (r\<lparr>rstate := sw_host_ip_literal\<rparr>)
        else host_case ch p (r\<lparr>rstate := sw_host\<rparr>)
      else if rstate r = sw_host then host_case ch p r
      else host_end_case ch p r)"

definition step_ip_literal :: "char \<Rightarrow> ngx_http_request \<Rightarrow> (ngx_http_request, rl_exit) ctl" where
  "step_ip_literal ch r =
     (if is_digit ch then Next r
      else if is_alpha_lc ch then Next r
      else if ch = CHR '':'' then Next r
      else if ch = CHR '']'' then Next (r\<lparr>rstate := sw_host_end\<rparr>)
      else if ch \<in> set ''-._~'' then Next r
      else if ch \<in> set ''!$&'' \<or> ch = CHR 0x27 \<or> ch \<in> set ''()*+,;='' then Next r
      else rl_bad r)"

definition step_port :: "char \<Rightarrow> nat \<Rightarrow> ngx_http_request \<Rightarrow> (ngx_http_request, rl_exit) ctl" where
  "step_port ch p r =
     (if is_digit ch then Next r
      else if ch = CHR ''/'' then Next (r\<lparr>port_end := Some p, uri_start := Some p, rstate := sw_after_slash_in_uri\<rparr>)
      else if ch = CHR '' '' then
        Next (r\<lparr>port_end := Some p, uri_start := map_option (\<lambda>e. e + 1) (schema_end r),
          uri_end := map_option (\<lambda>e. e + 2) (schema_end r), rstate := sw_host_http_09\<rparr>)
      else rl_bad r)"

definition step_host_http_09 :: "char \<Rightarrow> nat \<Rightarrow> ngx_http_request \<Rightarrow> (ngx_http_request, rl_exit) ctl" where
  "step_host_http_09 ch p r =
     (if ch = CHR '' '' then Next r
      else if ch = CR then Next (r\<lparr>http_minor := 9, rstate := sw_almost_done\<rparr>)
      else if ch = LF then Stop RL_done (r\<lparr>http_minor := 9\<rparr>)
      else if ch = CHR ''H'' then Next (r\<lparr>http_protocol := Some p, rstate := sw_http_H\<rparr>)
      else rl_bad r)"

definition step_after_slash_in_uri :: "char \<Rightarrow> nat \<Rightarrow> ngx_http_request \<Rightarrow> (ngx_http_request, rl_exit) ctl" where
  "step_after_slash_in_uri ch p r =
     (if usual_char ch then Next (r\<lparr>rstate := sw_check_uri\<rparr>)
      else if ch = CHR '' '' then Next (r\<lparr>uri_end := Some p, rstate := sw_check_uri_http_09\<rparr>)
      else if ch = CR then Next (r\<lparr>uri_end := Some p, http_minor := 9, rstate := sw_almost_done\<rparr>)
      else if ch = LF then Stop RL_done (r\<lparr>uri_end := Some p, http_minor := 9\<rparr>)
      else if ch = CHR ''.'' then Next (r\<lparr>complex_uri := True, rstate := sw_uri\<rparr>)
      else if ch = CHR ''%'' then Next (r\<lparr>quoted_uri := True, rstate := sw_uri\<rparr>)
      else if ch = CHR ''/'' then Next (r\<lparr>complex_uri := True, rstate := sw_uri\<rparr>)
      else if ch = CHR ''?'' then Next (r\<lparr>args_start := Some (p + 1), rstate := sw_uri\<rparr>)
      else if ch = CHR ''#'' then Next (r\<lparr>complex_uri := True, rstate := sw_uri\<rparr>)
      else if ch = CHR ''+'' then Next (r\<lparr>plus_in_uri := True\<rparr>)
      else if ch = NUL then rl_bad r
      else Next (r\<lparr>rstate := sw_check_uri\<rparr>))"

definition step_check_uri :: "char \<Rightarrow> nat \<Rightarrow> ngx_http_request \<Rightarrow> (ngx_http_request, rl_exit) ctl" where
  "step_check_uri ch p r =
     (if usual_char ch then Next r
      else if ch = CHR ''/'' then Next (r\<lparr>uri_ext := None, rstate := sw_after_slash_in_uri\<rparr>)
      else if ch = CHR ''.'' then Next (r\<lparr>uri_ext := Some (p + 1)\<rparr>)
      else if ch = CHR '' '' then Next (r\<lparr>uri_end := Some p, rstate := sw_check_uri_http_09\<rparr>)
      else if ch = CR then Next (r\<lparr>uri_end := Some p, http_minor := 9, rstate := sw_almost_done\<rparr>)
      else if ch = LF then Stop RL_done (r\<lparr>uri_end := Some p, http_minor := 9\<rparr>)
      else if ch = CHR ''%'' then Next (r\<lparr>quoted_uri := True, rstate := sw_uri\<rparr>)
      else if ch = CHR ''?'' then Next (r\<lparr>args_start := Some (p + 1), rstate := sw_uri\<rparr>)
      else if ch = CHR ''#'' then Next (r\<lparr>complex_uri := True, rstate := sw_uri\<rparr>)
      else if ch = CHR ''+'' then Next (r\<lparr>plus_in_uri := True\<rparr>)
      else if ch = NUL then rl_bad r
      else Next r)"

text \<open>
  The states \<open>sw_check_uri_http_09\<close> and \<open>sw_http_09\<close> after a space; \<open>back\<close> is the state to return to
  when the space turns out to belong to the URI. The byte after the space is not looked at again.
\<close>

definition step_space_after_uri ::
    "request_line_state \<Rightarrow> char \<Rightarrow> nat \<Rightarrow> ngx_http_request \<Rightarrow> (ngx_http_request, rl_exit) ctl" where
  "step_space_after_uri back ch p r =
     (if ch = CHR '' '' then Next r
      else if ch = CR then Next (r\<lparr>http_minor := 9, rstate := sw_almost_done\<rparr>)
      else if ch = LF then Stop RL_done (r\<lparr>http_minor := 9\<rparr>)
      else if ch = CHR ''H'' then Next (r\<lparr>http_protocol := Some p, rstate := sw_http_H\<rparr>)
      else Next (r\<lparr>space_in_uri := True, rstate := back\<rparr>))"

definition step_uri :: "char \<Rightarrow> nat \<Rightarrow> ngx_http_request \<Rightarrow> (ngx_http_request, rl_exit) ctl" where
  "step_uri ch p r =
     (if usual_char ch then Next r
      else if ch = CHR '' '' then Next (r\<lparr>uri_end := Some p, rstate := sw_http_09\<rparr>)
      else if ch = CR then Next (r\<lparr>uri_end := Some p, http_minor := 9, rstate := sw_almost_done\<rparr>)
      else if ch = LF then Stop RL_done (r\<lparr>uri_end := Some p, http_minor := 9\<rparr>)
      else if ch = CHR ''#'' then Next (r\<lparr>complex_uri := True\<rparr>)
      else if ch = NUL then rl_bad r
      else Next r)"

text \<open>The letters of \<open>HTTP/\<close>.\<close>

definition step_http :: "char \<Rightarrow> ngx_http_request \<Rightarrow> (ngx_http_request, rl_exit) ctl" where
  "step_http ch r =
     (if rstate r = sw_http_H then (if ch = CHR ''T'' then Next (r\<lparr>rstate := sw_http_HT\<rparr>) else rl_bad r)
      else if rstate r = sw_http_HT then (if ch = CHR ''T'' then Next (r\<lparr>rstate := sw_http_HTT\<rparr>) else rl_bad r)
      else if rstate r = sw_http_HTT then (if ch = CHR ''P'' then Next (r\<lparr>rstate := sw_http_HTTP\<rparr>) else rl_bad r)
      else (if ch = CHR ''/'' then Next (r\<lparr>rstate := sw_first_major_digit\<rparr>) else rl_bad r))"

abbreviation digit_nat :: "char \<Rightarrow> nat" where
  "digit_nat ch \<equiv> of_char ch - 48"

definition step_version :: "char \<Rightarrow> ngx_http_request \<Rightarrow> (ngx_http_request, rl_exit) ctl" where
  "step_version ch r =
     (if rstate r = sw_first_major_digit then
        (if ch < CHR ''1'' \<or> ch > CHR ''9'' then rl_bad r
         else Next (r\<lparr>http_major := digit_nat ch, rstate := sw_major_digit\<rparr>))
      else if rstate r = sw_major_digit then
        (if ch = CHR ''.'' then Next (r\<lparr>rstate := sw_first_minor_digit\<rparr>)
         else if \<not> is_digit ch then rl_bad r
         else Next (r\<lparr>http_major := (http_major r * 10 + digit_nat ch) mod 65536\<rparr>))
      else if rstate r = sw_first_minor_digit then
        (if \<not> is_digit ch then rl_bad r
         else Next (r\<lparr>http_minor := digit_nat ch, rstate := sw_minor_digit\<rparr>))
      else
        (if ch = CR then Next (r\<lparr>rstate := sw_almost_done\<rparr>)
         else if ch = LF then Stop RL_done r
         else if ch = CHR '' '' then Next (r\<lparr>rstate := sw_spaces_after_digit\<rparr>)
         else if \<not> is_digit ch then rl_bad r
         else Next (r\<lparr>http_minor := (http_minor r * 10 + digit_nat ch) mod 65536\<rparr>)))"

definition step_line_end :: "char \<Rightarrow> nat \<Rightarrow> ngx_http_request \<Rightarrow> (ngx_http_request, rl_exit) ctl" where
  "step_line_end ch p r =
     (if rstate r = sw_spaces_after_digit then
        (if ch = CHR '' '' then Next r
         else if ch = CR then Next (r\<lparr>rstate := sw_almost_done\<rparr>)
         else if ch = LF then Stop RL_done r
         else rl_bad r)
      else
        let r = r\<lparr>request_end := Some (p - 1)\<rparr> in
        if ch = LF then Stop RL_done r else rl_bad r)"

section \<open>The parser\<close>

definition request_line_step :: "string \<Rightarrow> nat \<Rightarrow> ngx_http_request \<Rightarrow> (ngx_http_request, rl_exit) ctl" where
  "request_line_step b p r =
     (let ch = b ! p in
      case rstate r of
        sw_start \<Rightarrow> step_method b p r
      | sw_method \<Rightarrow> step_method b p r
      | sw_spaces_before_uri \<Rightarrow> step_schema ch p r
      | sw_schema \<Rightarrow> step_schema ch p r
      | sw_schema_slash \<Rightarrow> step_schema ch p r
      | sw_schema_slash_slash \<Rightarrow> step_schema ch p r
      | sw_host_start \<Rightarrow> step_host ch p r
      | sw_host \<Rightarrow> step_host ch p r
      | sw_host_end \<Rightarrow> step_host ch p r
      | sw_host_ip_literal \<Rightarrow> step_ip_literal ch r
      | sw_port \<Rightarrow> step_port ch p r
      | sw_host_http_09 \<Rightarrow> step_host_http_09 ch p r
      | sw_after_slash_in_uri \<Rightarrow> step_after_slash_in_uri ch p r
      | sw_check_uri \<Rightarrow> step_check_uri ch p r
      | sw_check_uri_http_09 \<Rightarrow> step_space_after_uri sw_check_uri ch p r
      | sw_uri \<Rightarrow> step_uri ch p r
      | sw_http_09 \<Rightarrow> step_space_after_uri sw_uri ch p r
      | sw_http_H \<Rightarrow> step_http ch r
      | sw_http_HT \<Rightarrow> step_http ch r
      | sw_http_HTT \<Rightarrow> step_http ch r
      | sw_http_HTTP \<Rightarrow> step_http ch r
      | sw_first_major_digit \<Rightarrow> step_version ch r
      | sw_major_digit \<Rightarrow> step_version ch r
      | sw_first_minor_digit \<Rightarrow> step_version ch r
      | sw_minor_digit \<Rightarrow> step_version ch r
      | sw_spaces_after_digit \<Rightarrow> step_line_end ch p r
      | sw_almost_done \<Rightarrow> step_line_end ch p r)"

text \<open>The code after the label \<open>done\<close>.\<close>

definition request_line_done :: "nat \<Rightarrow> ngx_http_request \<Rightarrow> int \<times> ngx_http_request" where
  "request_line_done p r =
     (let r = (if request_end r = None then r\<lparr>request_end := Some p\<rparr> else r);
          r = r\<lparr>http_version := http_major r * 1000 + http_minor r, rstate := sw_start\<rparr>
      in (if http_version r = 9 \<and> r_method r \<noteq> NGX_HTTP_GET then NGX_HTTP_PARSE_INVALID_09_METHOD else NGX_OK, r))"

text \<open>The result code, \<open>b->pos\<close> and the request.\<close>

definition ngx_http_parse_request_line :: "string \<Rightarrow> nat \<Rightarrow> ngx_http_request \<Rightarrow> int \<times> nat \<times> ngx_http_request" where
  "ngx_http_parse_request_line b pos r =
     (case run_steps request_line_step b pos r of
        (p, r', None) \<Rightarrow> (NGX_AGAIN, p, r')
      | (p, r', Some (RL_return c)) \<Rightarrow> (c, pos, r'\<lparr>rstate := rstate r\<rparr>)
      | (p, r', Some RL_done) \<Rightarrow> (case request_line_done p r' of (c, r'') \<Rightarrow> (c, p + 1, r'')))"


section \<open>From the line to the URI\<close>

text \<open>
  \<open>ngx_http_parse_complex_uri\<close> decodes and normalises a URI with dots, double slashes or escapes.
  \<open>cu_out\<close> is what was written to \<open>r->uri.data\<close>. A quoted character is handled in the state that
  was left for it, so that state is carried along (\<open>quoted_state\<close>), with the first digit
  (\<open>decoded\<close>).
\<close>

datatype cu_plain = CU_usual | CU_slash | CU_dot | CU_dot_dot

datatype cu_state = Plain cu_plain | Quoted cu_plain | Quoted_second cu_plain nat

record cu_rec =
  cu_out :: string
  cu_ext :: "nat option"
  cu_args :: "nat option"
  cu_plus :: bool
  cu_quoted :: bool

datatype cu_next = Advance cu_state cu_rec | Again char cu_plain cu_rec | CU_done cu_rec | CU_args cu_rec | CU_bad

abbreviation (input) emit :: "char \<Rightarrow> cu_rec \<Rightarrow> cu_rec" where
  "emit ch s \<equiv> s\<lparr>cu_out := cu_out s @ [ch]\<rparr>"

fun back_to_slash :: "string \<Rightarrow> nat \<Rightarrow> nat option" where
  "back_to_slash out 0 = (if out ! 0 = CHR ''/'' then Some 0 else None)"
| "back_to_slash out (Suc i) = (if out ! Suc i = CHR ''/'' then Some (Suc i) else back_to_slash out i)"

text \<open>What the four plain states share, once a character is not usual; \<open>p\<close> is past it.\<close>

definition cu_special :: "cu_plain \<Rightarrow> char \<Rightarrow> nat \<Rightarrow> cu_rec \<Rightarrow> cu_next" where
  "cu_special q ch p s =
     (if ch = CHR ''%'' then Advance (Quoted q) s
      else if ch = CHR ''?'' then CU_args (s\<lparr>cu_args := Some p\<rparr>)
      else if ch = CHR ''#'' then CU_done s
      else if ch = CHR ''+'' then Advance (Plain CU_usual) (emit ch (s\<lparr>cu_plus := True\<rparr>))
      else Advance (Plain CU_usual) (emit ch s))"

definition cu_plain_step :: "bool \<Rightarrow> cu_plain \<Rightarrow> char \<Rightarrow> nat \<Rightarrow> cu_rec \<Rightarrow> cu_next" where
  "cu_plain_step merge_slashes q ch p s =
     (if usual_char ch then Advance (Plain CU_usual) (emit ch s)
      else case q of
        CU_usual \<Rightarrow>
          (if ch = CHR ''/'' then Advance (Plain CU_slash) (emit ch (s\<lparr>cu_ext := None\<rparr>))
           else if ch = CHR ''.'' then Advance (Plain CU_usual) (emit ch (s\<lparr>cu_ext := Some (length (cu_out s) + 1)\<rparr>))
           else cu_special q ch p s)
      | CU_slash \<Rightarrow>
          (if ch = CHR ''/'' then Advance (Plain CU_slash) (if merge_slashes then s else emit ch s)
           else if ch = CHR ''.'' then Advance (Plain CU_dot) (emit ch s)
           else cu_special q ch p s)
      | CU_dot \<Rightarrow>
          (if ch = CHR ''/'' then Advance (Plain CU_slash) (s\<lparr>cu_out := butlast (cu_out s)\<rparr>)
           else if ch = CHR ''.'' then Advance (Plain CU_dot_dot) (emit ch s)
           else cu_special q ch p s)
      | CU_dot_dot \<Rightarrow>
          (if ch = CHR ''/'' then
             (if length (cu_out s) < 5 then CU_bad
              else case back_to_slash (cu_out s) (length (cu_out s) - 5) of
                  None \<Rightarrow> CU_bad
                | Some i \<Rightarrow> Advance (Plain CU_slash) (s\<lparr>cu_out := take (i + 1) (cu_out s)\<rparr>))
           else cu_special q ch p s))"

definition cu_quoted_step :: "cu_plain \<Rightarrow> char \<Rightarrow> cu_rec \<Rightarrow> cu_next" where
  "cu_quoted_step q ch s =
     (let s = s\<lparr>cu_quoted := True\<rparr> in
      if is_digit ch then Advance (Quoted_second q (of_char ch - 48)) s
      else if is_hex_lc ch then Advance (Quoted_second q (of_char (char_or_0x20 ch) - 97 + 10)) s
      else CU_bad)"

definition cu_second_step :: "cu_plain \<Rightarrow> nat \<Rightarrow> char \<Rightarrow> cu_rec \<Rightarrow> cu_next" where
  "cu_second_step q decoded ch s =
     (if is_digit ch then
        (let ch' = char_of (decoded * 16 + (of_char ch - 48)) in
         if ch' = CHR ''%'' \<or> ch' = CHR ''#'' then Advance (Plain CU_usual) (emit ch' s)
         else if ch' = NUL then CU_bad
         else Again ch' q s)
      else if is_hex_lc ch then
        (let ch' = char_of (decoded * 16 + (of_char (char_or_0x20 ch) - 97 + 10)) in
         if ch' = CHR ''?'' then Advance (Plain CU_usual) (emit ch' s)
         else if ch' = CHR ''+'' then Again ch' q (s\<lparr>cu_plus := True\<rparr>)
         else Again ch' q s)
      else CU_bad)"

definition cu_step :: "bool \<Rightarrow> cu_state \<Rightarrow> char \<Rightarrow> nat \<Rightarrow> cu_rec \<Rightarrow> cu_next" where
  "cu_step merge_slashes st ch p s =
     (case st of
        Plain q \<Rightarrow> cu_plain_step merge_slashes q ch p s
      | Quoted q \<Rightarrow> cu_quoted_step q ch s
      | Quoted_second q d \<Rightarrow> cu_second_step q d ch s)"

text \<open>The loop \<open>while (p <= r->uri_end)\<close>; \<open>e\<close> is \<open>r->uri_end\<close> and \<open>ch\<close> the byte before \<open>p\<close>.\<close>

lemma cu_step_Again:
  "cu_step m st ch p s = Again ch' q s' \<Longrightarrow> \<exists>q' d. st = Quoted_second q' d"
  by (cases st) (auto simp: cu_step_def cu_plain_step_def cu_special_def cu_quoted_step_def Let_def
      split: cu_plain.splits if_splits option.splits)

function cu_loop :: "bool \<Rightarrow> string \<Rightarrow> nat \<Rightarrow> nat \<Rightarrow> char \<Rightarrow> cu_state \<Rightarrow> cu_rec \<Rightarrow> (nat \<times> bool \<times> cu_rec) option" where
  "cu_loop m b e p ch st s =
     (if p \<le> e then
        (case cu_step m st ch p s of
           Advance st' s' \<Rightarrow> cu_loop m b e (Suc p) (b ! p) st' s'
         | Again ch' q s' \<Rightarrow> cu_loop m b e p ch' (Plain q) s'
         | CU_done s' \<Rightarrow> Some (p, False, s')
         | CU_args s' \<Rightarrow> Some (p, True, s')
         | CU_bad \<Rightarrow> None)
      else Some (p, False, s))"
  by pat_completeness auto
termination
  by (relation "measure (\<lambda>(m, b, e, p, ch, st, s). 2 * (Suc e - p) + (case st of Quoted_second _ _ \<Rightarrow> 1 | _ \<Rightarrow> 0))")
     (auto split: cu_state.splits dest!: cu_step_Again)

declare cu_loop.simps [simp del]

definition slice :: "string \<Rightarrow> nat \<Rightarrow> nat \<Rightarrow> string" where
  "slice b i j = take (j - i) (drop i b)"

text \<open>The strings that processing the URI leaves in the request.\<close>

record http_uri =
  r_uri :: string
  r_unparsed_uri :: string
  r_exten :: string
  r_args :: string
  valid_unparsed_uri :: bool

text \<open>
  The result is the URI, its extension and, when a \<open>#\<close> cut them, the arguments; and the request
  with the members the parser changed. \<open>NGX_HTTP_PARSE_INVALID_REQUEST\<close> is \<open>None\<close>.
\<close>

definition ngx_http_parse_complex_uri ::
    "bool \<Rightarrow> string \<Rightarrow> ngx_http_request \<Rightarrow> (string \<times> string \<times> string \<times> ngx_http_request) option" where
  "ngx_http_parse_complex_uri merge_slashes b r =
     (let start = the (uri_start r); e = the (uri_end r) in
      case cu_loop merge_slashes b e (Suc start) (b ! start) (Plain CU_usual)
             \<lparr>cu_out = [], cu_ext = None, cu_args = None, cu_plus = plus_in_uri r, cu_quoted = quoted_uri r\<rparr> of
        None \<Rightarrow> None
      | Some (p, to_args, s) \<Rightarrow>
          let cut = (if to_args then ngx_strlchr (slice b p e) (CHR ''#'') else None);
              ext = (case cu_ext s of None \<Rightarrow> [] | Some i \<Rightarrow> drop i (cu_out s));
              cut_args = (case cut of None \<Rightarrow> [] | Some k \<Rightarrow> slice b (the (cu_args s)) (p + k));
              start' = (case cut of None \<Rightarrow> cu_args s | Some k \<Rightarrow> None)
          in Some (cu_out s, ext, cut_args,
               r\<lparr>uri_ext := None, args_start := start', plus_in_uri := cu_plus s, quoted_uri := cu_quoted s\<rparr>))"

definition ngx_http_process_request_uri :: "bool \<Rightarrow> string \<Rightarrow> ngx_http_request \<Rightarrow> (ngx_http_request \<times> http_uri) option" where
  "ngx_http_process_request_uri merge_slashes b r =
     (let start = the (uri_start r); e = the (uri_end r);
          len = (case args_start r of Some a \<Rightarrow> a - 1 - start | None \<Rightarrow> e - start)
      in case (if complex_uri r \<or> quoted_uri r then ngx_http_parse_complex_uri merge_slashes b r
               else Some (take len (drop start b), [], [], r)) of
           None \<Rightarrow> None
         | Some (u, ext, cut_args, r') \<Rightarrow>
             let ext' = (case uri_ext r' of None \<Rightarrow> ext
                   | Some x \<Rightarrow> slice b x (case args_start r' of Some a \<Rightarrow> a - 1 | None \<Rightarrow> e));
                 as = (case args_start r' of Some a \<Rightarrow> if e > a then slice b a e else cut_args | None \<Rightarrow> cut_args)
             in Some (r', \<lparr>r_uri = u, r_unparsed_uri = slice b start e, r_exten = ext', r_args = as,
                  valid_unparsed_uri = \<not> space_in_uri r'\<rparr>))"

section \<open>Arguments\<close>

text \<open>\<open>ngx_http_arg\<close> on the string \<open>r->args\<close>; \<open>p\<close> is an index into it.\<close>

function http_arg_loop :: "string \<Rightarrow> string \<Rightarrow> nat \<Rightarrow> string option" where
  "http_arg_loop args name p =
     (if p < length args then
        (case ngx_strlcasestrn (take (length args - 1 - p) (drop p args)) name (length name - 1) of
           None \<Rightarrow> None
         | Some off \<Rightarrow>
             let p = p + off; len = length name in
             if (p = 0 \<or> args ! (p - 1) = CHR ''&'') \<and> args ! (p + len) = CHR ''='' then
               let data = p + len + 1;
                   end' = (case ngx_strlchr (drop p args) (CHR ''&'') of None \<Rightarrow> length args | Some k \<Rightarrow> p + k)
               in Some (take (end' - data) (drop data args))
             else http_arg_loop args name (Suc p))
      else None)"
  by pat_completeness auto
termination
  by (relation "measure (\<lambda>(args, name, p). length args - p)") auto

declare http_arg_loop.simps [simp del]

text \<open>\<open>NGX_DECLINED\<close> is \<open>None\<close>, \<open>NGX_OK\<close> with \<open>*value\<close> is \<open>Some\<close>.\<close>

definition ngx_http_arg :: "string \<Rightarrow> string \<Rightarrow> string option" where
  "ngx_http_arg args name = (if length args = 0 then None else http_arg_loop args name 0)"

definition ngx_http_split_args :: "string \<Rightarrow> string \<times> string" where
  "ngx_http_split_args uri =
     (case ngx_strlchr uri (CHR ''?'') of Some p \<Rightarrow> (take p uri, drop (p + 1) uri) | None \<Rightarrow> (uri, []))"

subsection \<open>Meaning\<close>

definition arg_here :: "string \<Rightarrow> string \<Rightarrow> bool" where
  "arg_here name s \<longleftrightarrow> length name < length s \<and> map ngx_tolower (take (length name) s) = map ngx_tolower name \<and>
     s ! length name = CHR ''=''"

text \<open>The specification: the first place after a separator where name and \<open>=\<close> stand.\<close>

fun arg_scan :: "string \<Rightarrow> bool \<Rightarrow> string \<Rightarrow> string option" where
  "arg_scan name sep [] = None"
| "arg_scan name sep (c # s) =
     (if sep \<and> arg_here name (c # s) then Some (takeWhile (\<lambda>x. x \<noteq> CHR ''&'') (drop (length name) s))
      else arg_scan name (c = CHR ''&'') s)"

lemma arg_scan_skip:
  "\<forall>k < j. \<not> arg_here name (drop k s) \<Longrightarrow> j \<le> length s \<Longrightarrow>
   arg_scan name sep s = arg_scan name (if j = 0 then sep else s ! (j - 1) = CHR ''&'') (drop j s)"
proof (induction j arbitrary: s sep)
  case (Suc j)
  then obtain c t where s: "s = c # t" by (cases s) auto
  have "\<not> arg_here name (c # t)" using Suc.prems(1) s by (auto dest: spec [of _ 0])
  moreover have "\<forall>k < j. \<not> arg_here name (drop k t)" using Suc.prems(1) s by auto
  ultimately show ?case using Suc.IH [of t "c = CHR ''&''"] Suc.prems(2) s by (cases j) simp_all
qed simp

lemma arg_scan_end: "length s \<le> length name \<Longrightarrow> arg_scan name sep s = None"
  by (induction s arbitrary: sep) (auto simp: arg_here_def)

text \<open>A place found in the string without its last byte is a place where \<open>=\<close> can follow.\<close>

lemma occurs_region:
  assumes "p < length args"
  shows "occurs_at (take (length args - 1 - p) (drop p args)) name k \<longleftrightarrow>
    k + length name < length (drop p args) \<and> map ngx_tolower (take (length name) (drop k (drop p args))) = map ngx_tolower name"
proof -
  let ?s = "drop p args"
  have len: "length (take (length args - 1 - p) ?s) = length ?s - 1" using assms by simp
  have "take (length name) (drop k (take (length args - 1 - p) ?s)) = take (length name) (drop k ?s)"
    if "k + length name \<le> length ?s - 1"
    using that by (simp add: drop_take take_take min_def)
  then show ?thesis using len assms by (auto simp: occurs_at_def)
qed

lemma takeWhile_region:
  assumes "CHR ''&'' \<notin> set (take m s)" "m \<le> length s"
  shows "take ((case ngx_strlchr s (CHR ''&'') of None \<Rightarrow> length s | Some k \<Rightarrow> k) - m) (drop m s) =
    takeWhile (\<lambda>x. x \<noteq> CHR ''&'') (drop m s)"
proof -
  have split: "takeWhile (\<lambda>x. x \<noteq> CHR ''&'') s = take m s @ takeWhile (\<lambda>x. x \<noteq> CHR ''&'') (drop m s)"
    using takeWhile_append2 [of "take m s" "\<lambda>x. x \<noteq> CHR ''&''" "drop m s"] assms(1) by (metis append_take_drop_id)
  have len: "(case ngx_strlchr s (CHR ''&'') of None \<Rightarrow> length s | Some k \<Rightarrow> k) = length (takeWhile (\<lambda>x. x \<noteq> CHR ''&'') s)"
    by (auto simp: strlchr_eq intro: takeWhile_eq_all_conv [THEN iffD2, THEN arg_cong, symmetric])
  have pre: "take (length (takeWhile P t)) t = takeWhile P t" for P and t :: string
    by (metis takeWhile_eq_take)
  show ?thesis unfolding len using pre [of "\<lambda>x. x \<noteq> CHR ''&''" "drop m s"] arg_cong [OF split, of length] assms(2)
    by (simp add: min_def)
qed

lemma tolower_amp: "ngx_tolower c = CHR ''&'' \<longleftrightarrow> c = CHR ''&''"
proof
  assume *: "ngx_tolower c = CHR ''&''"
  show "c = CHR ''&''"
  proof (cases "CHR ''A'' \<le> c \<and> c \<le> CHR ''Z''")
    case True
    with * have "char_or_0x20 c = CHR ''&''" by (simp add: ngx_tolower_def)
    with True show ?thesis by (cases c) (auto simp: char_or_0x20_def less_eq_char_def of_char_def of_bool_def split: if_splits)
  next
    case False
    with * show ?thesis by (simp add: ngx_tolower_def if_not_P)
  qed
qed (simp add: ngx_tolower_def less_eq_char_def)

lemma arg_here_no_amp:
  assumes "arg_here name s" "CHR ''&'' \<notin> set name"
  shows "CHR ''&'' \<notin> set (take (length name + 1) s)"
proof -
  from assms(1) have len: "length name < length s" and eq: "map ngx_tolower (take (length name) s) = map ngx_tolower name"
    and end': "s ! length name = CHR ''=''" by (auto simp: arg_here_def)
  have "CHR ''&'' \<notin> set (take (length name) s)"
  proof
    assume "CHR ''&'' \<in> set (take (length name) s)"
    then have "ngx_tolower CHR ''&'' \<in> set (map ngx_tolower name)" by (metis eq image_eqI set_map)
    then show False using assms(2) tolower_amp by (metis (no_types, lifting) imageE set_map)
  qed
  then show ?thesis using len end' by (simp add: take_Suc_conv_app_nth)
qed

abbreviation arg_region :: "string \<Rightarrow> nat \<Rightarrow> string" where
  "arg_region args p \<equiv> take (length args - 1 - p) (drop p args)"

abbreviation arg_sep :: "string \<Rightarrow> nat \<Rightarrow> bool" where
  "arg_sep args p \<equiv> p = 0 \<or> args ! (p - 1) = CHR ''&''"

lemma arg_here_occurs: "p < length args \<Longrightarrow> arg_here name (drop k (drop p args)) \<Longrightarrow> occurs_at (arg_region args p) name k"
  unfolding occurs_region by (auto simp: arg_here_def)

lemma arg_scan_none:
  assumes "p < length args" "name \<noteq> []" "NUL \<notin> set name" "ngx_strlcasestrn (arg_region args p) name (length name - 1) = None"
  shows "arg_scan name sep (drop p args) = None"
proof -
  have "\<forall>k < length (drop p args). \<not> arg_here name (drop k (drop p args))"
    using arg_here_occurs [OF assms(1)] strlcasestrn_None [OF assms(2,3)] assms(4) by blast
  from arg_scan_skip [OF this] show ?thesis by simp
qed

text \<open>Up to the first place where the name stands the specification finds nothing either.\<close>

lemma arg_scan_found:
  assumes p: "p < length args" and name: "name \<noteq> []" "NUL \<notin> set name"
    and found: "ngx_strlcasestrn (arg_region args p) name (length name - 1) = Some off"
  shows "p + off + length name < length args"
    and "arg_here name (drop (p + off) args) \<longleftrightarrow> args ! (p + off + length name) = CHR ''=''"
    and "arg_scan name (arg_sep args p) (drop p args) = arg_scan name (arg_sep args (p + off)) (drop (p + off) args)"
proof -
  let ?s = "drop p args" let ?q = "p + off" let ?t = "drop ?q args"
  have at: "occurs_at (arg_region args p) name off" and first: "\<forall>k < off. \<not> occurs_at (arg_region args p) name k"
    using found strlcasestrn_eq [OF name] by blast+
  from at have q: "?q + length name < length args" and eq: "map ngx_tolower (take (length name) ?t) = map ngx_tolower name"
    unfolding occurs_region [OF p] by (auto simp: add.commute)
  show "p + off + length name < length args" by (rule q)
  show "arg_here name ?t \<longleftrightarrow> args ! (?q + length name) = CHR ''=''" using q eq by (auto simp: arg_here_def)
  have "\<forall>k < off. \<not> arg_here name (drop k ?s)" using first arg_here_occurs [OF p] by blast
  moreover have "off \<le> length ?s" using q by simp
  ultimately have "arg_scan name (arg_sep args p) ?s =
      arg_scan name (if off = 0 then arg_sep args p else ?s ! (off - 1) = CHR ''&'') (drop off ?s)"
    by (rule arg_scan_skip)
  moreover have "?s ! (off - 1) = args ! (?q - 1)" if "off \<noteq> 0" using that q by simp
  moreover have "drop off ?s = ?t" by (simp add: add.commute)
  ultimately show "arg_scan name (arg_sep args p) ?s = arg_scan name (arg_sep args ?q) ?t" by (cases "off = 0") simp_all
qed

lemma http_arg_loop_eq:
  assumes name: "name \<noteq> []" "NUL \<notin> set name" "CHR ''&'' \<notin> set name"
  shows "p \<le> length args \<Longrightarrow> http_arg_loop args name p = arg_scan name (arg_sep args p) (drop p args)"
proof (induction "length args - p" arbitrary: p rule: less_induct)
  case less
  consider "\<not> p < length args" | "p < length args" "ngx_strlcasestrn (arg_region args p) name (length name - 1) = None"
    | off where "p < length args" "ngx_strlcasestrn (arg_region args p) name (length name - 1) = Some off" by fastforce
  then show ?case
  proof cases
    case 1
    with less.prems show ?thesis by (simp add: http_arg_loop.simps)
  next
    case 2
    with arg_scan_none [OF 2(1) name(1,2) 2(2)] show ?thesis by (simp add: http_arg_loop.simps)
  next
    case (3 off)
    let ?q = "p + off" let ?t = "drop ?q args"
    note q = arg_scan_found [OF 3(1) name(1,2) 3(2)]
    have t: "?t = args ! ?q # drop (Suc ?q) args" using q(1) by (simp add: Cons_nth_drop_Suc)
    show ?thesis
    proof (cases "arg_sep args ?q \<and> args ! (?q + length name) = CHR ''=''")
      case True
      with q(2) have h: "arg_here name ?t" by simp
      have "http_arg_loop args name p = Some (take ((case ngx_strlchr ?t (CHR ''&'') of None \<Rightarrow> length ?t | Some k \<Rightarrow> k) -
          (length name + 1)) (drop (length name + 1) ?t))"
        using 3 True q(1) by (subst http_arg_loop.simps) (simp add: Let_def algebra_simps split: option.splits)
      also have "\<dots> = Some (takeWhile (\<lambda>x. x \<noteq> CHR ''&'') (drop (length name + 1) ?t))"
        using takeWhile_region [OF arg_here_no_amp [OF h name(3)]] q(1) by simp
      also have "\<dots> = arg_scan name (arg_sep args p) (drop p args)" unfolding q(3) using True h t by simp
      finally show ?thesis .
    next
      case False
      then have "http_arg_loop args name p = http_arg_loop args name (Suc ?q)"
        using 3 by (subst http_arg_loop.simps) (auto simp: Let_def)
      also have "\<dots> = arg_scan name (args ! ?q = CHR ''&'') (drop (Suc ?q) args)" using less.hyps [of "Suc ?q"] q(1) 3(1) by simp
      also have "\<dots> = arg_scan name (arg_sep args p) (drop p args)"
        using False q(2) unfolding q(3) t arg_scan.simps by auto
      finally show ?thesis .
    qed
  qed
qed

lemma http_arg_eq:
  assumes "name \<noteq> []" "NUL \<notin> set name" "CHR ''&'' \<notin> set name"
  shows "ngx_http_arg args name = arg_scan name True args"
  using http_arg_loop_eq [OF assms, of 0 args] by (cases args) (auto simp: ngx_http_arg_def)


section \<open>Cutting the input anywhere\<close>

lemma request_line_step_prefix: "p < length b \<Longrightarrow> request_line_step (b @ c) p r = request_line_step b p r"
proof -
  assume p: "p < length b"
  have "take (p - m) (drop m (b @ c)) = take (p - m) (drop m b)" for m using p by simp
  then have "step_method (b @ c) p r = step_method b p r" using p by (simp add: step_method_def nth_append Let_def)
  with p show ?thesis by (cases "rstate r") (simp_all add: request_line_step_def nth_append)
qed

interpretation request_line: resumable request_line_step
  by unfold_locales (rule request_line_step_prefix)

section \<open>A plain GET request\<close>

lemma usual_char_iff:
  "usual_char c \<longleftrightarrow> c \<notin> {NUL, LF, CR, CHR '' '', CHR ''#'', CHR ''%'', CHR ''+'', CHR ''.'', CHR ''/'', CHR ''?''}"
proof (cases c)
  case (Char b0 b1 b2 b3 b4 b5 b6 b7)
  show ?thesis unfolding Char
    by (cases b7; cases b6; cases b5; cases b4; cases b3; cases b2; cases b1; cases b0)
       (simp_all add: usual_char_def usual_def bit_0)
qed

lemma run_steps_stay:
  "(\<And>q. p \<le> q \<Longrightarrow> q < p + n \<Longrightarrow> step b q r = Next r) \<Longrightarrow> p + n \<le> length b \<Longrightarrow>
   run_steps step b p r = run_steps step b (p + n) r"
proof (induction n)
  case (Suc n)
  then have "run_steps step b p r = run_steps step b (p + n) r" by simp
  also have "\<dots> = run_steps step b (Suc (p + n)) r" using Suc.prems by (intro run_steps_Next) simp_all
  finally show ?case by simp
qed simp

lemmas request_line_simps = request_line_step_def step_method_def step_schema_def step_http_def step_version_def
  step_line_end_def step_space_after_uri_def step_uri_def step_check_uri_def step_after_slash_in_uri_def Let_def
  is_digit_def is_method_char_def less_eq_char_def less_char_def usual_char_iff

text \<open>The end of the line, from the space after the URI on.\<close>

lemma run_line_end:
  assumes "rstate r = sw_uri"
  shows "run_steps request_line_step (a @ '' HTTP/1.1'' @ [CR, LF] @ rest) (length a) r =
    (length a + 10, r\<lparr>uri_end := Some (length a), http_protocol := Some (length a + 1), http_major := 1, http_minor := 1,
       request_end := Some (length a + 9), rstate := sw_almost_done\<rparr>, Some RL_done)"
  using assms by (simp add: run_steps_Next run_steps_Stop nth_append_right request_line_simps)

definition uri_byte :: "char \<Rightarrow> bool" where
  "uri_byte c \<longleftrightarrow> c \<notin> {NUL, LF, CR, CHR '' '', CHR ''#''}"

definition get_line :: "string \<Rightarrow> string \<Rightarrow> string" where
  "get_line path query = ''GET /'' @ path @ ''?'' @ query @ '' HTTP/1.1'' @ [CR, LF]"


definition parsed_get :: "string \<Rightarrow> string \<Rightarrow> ngx_http_request" where
  "parsed_get path query = fresh_request\<lparr>r_method := NGX_HTTP_GET, request_start := Some 0, method_end := Some 2,
     uri_start := Some 4, args_start := Some (6 + length path), uri_end := Some (6 + length path + length query),
     http_protocol := Some (7 + length path + length query), http_major := 1, http_minor := 1, http_version := 1001,
     request_end := Some (15 + length path + length query)\<rparr>"

lemma run_get_start:
  "run_steps request_line_step (''GET /'' @ rest) 0 fresh_request =
   run_steps request_line_step (''GET /'' @ rest) 5 (fresh_request\<lparr>request_start := Some 0, method_end := Some 2,
     r_method := NGX_HTTP_GET, uri_start := Some 4, rstate := sw_after_slash_in_uri\<rparr>)"
  by (simp add: run_steps_Next request_line_simps fresh_request_def http_method_def eval_nat_numeral)

text \<open>The path up to the question mark, from the first byte after the slash on.\<close>

lemma run_path:
  assumes "rstate r = sw_after_slash_in_uri" "list_all usual_char path"
  shows "run_steps request_line_step (a @ path @ ''?'' @ rest) (length a) r =
    run_steps request_line_step (a @ path @ ''?'' @ rest) (length a + length path + 1)
      (r\<lparr>args_start := Some (length a + length path + 1), rstate := sw_uri\<rparr>)"
proof (cases path)
  case Nil
  with assms show ?thesis by (simp add: run_steps_Next nth_append_right request_line_simps)
next
  case (Cons c cs)
  let ?b = "a @ path @ ''?'' @ rest" let ?r = "r\<lparr>rstate := sw_check_uri\<rparr>"
  have c: "usual_char c" and cs: "\<forall>x \<in> set cs. usual_char x" using assms(2) Cons by (auto simp: list_all_iff)
  have "run_steps request_line_step ?b (length a) r = run_steps request_line_step ?b (Suc (length a)) ?r"
    using assms(1) c Cons
    by (intro run_steps_Next) (simp_all add: nth_append_right request_line_step_def step_after_slash_in_uri_def)
  also have "\<dots> = run_steps request_line_step ?b (Suc (length a) + length cs) ?r"
  proof (rule run_steps_stay)
    fix q assume q: "Suc (length a) \<le> q" "q < Suc (length a) + length cs"
    then have in_cs: "q - Suc (length a) < length cs" by linarith
    have "?b ! q = (cs @ ''?'' @ rest) ! (q - Suc (length a))" using Cons q by (simp add: nth_append_right nth_Cons')
    then have "?b ! q = cs ! (q - Suc (length a))" using in_cs by (simp add: nth_append)
    moreover have "cs ! (q - Suc (length a)) \<in> set cs" using in_cs by simp
    ultimately have "usual_char (?b ! q)" using cs by simp
    then show "request_line_step ?b q ?r = Next ?r" by (simp add: request_line_step_def step_check_uri_def)
  qed (simp add: Cons)
  also have "\<dots> = run_steps request_line_step ?b (length a + length path + 1)
      (r\<lparr>args_start := Some (length a + length path + 1), rstate := sw_uri\<rparr>)"
  proof -
    have "?b ! (Suc (length a) + length cs) = CHR ''?''" using Cons by (simp add: nth_append_right)
    then show ?thesis using Cons
      by (subst run_steps_Next [where s' = "r\<lparr>args_start := Some (length a + length path + 1), rstate := sw_uri\<rparr>"])
         (simp_all add: request_line_simps)
  qed
  finally show ?thesis .
qed

lemma run_query:
  assumes "rstate r = sw_uri" "list_all uri_byte query"
  shows "run_steps request_line_step (a @ query @ rest) (length a) r =
    run_steps request_line_step (a @ query @ rest) (length a + length query) r"
proof (rule run_steps_stay)
  fix q assume q: "length a \<le> q" "q < length a + length query"
  then have in_query: "q - length a < length query" by linarith
  then have "(a @ query @ rest) ! q = query ! (q - length a)" using q by (simp add: nth_append)
  moreover have "query ! (q - length a) \<in> set query" using in_query by simp
  ultimately have "uri_byte ((a @ query @ rest) ! q)" using assms(2) by (simp add: list_all_iff)
  then show "request_line_step (a @ query @ rest) q r = Next r"
    using assms(1) by (simp add: request_line_step_def step_uri_def uri_byte_def Let_def)
qed simp

lemma parse_get_line:
  assumes "list_all usual_char path" "list_all uri_byte query"
  shows "ngx_http_parse_request_line (get_line path query @ rest) 0 fresh_request =
    (NGX_OK, 17 + length path + length query, parsed_get path query)"
proof -
  let ?tail = "'' HTTP/1.1'' @ [CR, LF] @ rest"
  let ?b = "''GET /'' @ path @ ''?'' @ query @ ?tail"
  define r1 where "r1 = fresh_request\<lparr>request_start := Some 0, method_end := Some 2,
     r_method := NGX_HTTP_GET, uri_start := Some 4, rstate := sw_after_slash_in_uri\<rparr>"
  define r2 where "r2 = r1\<lparr>args_start := Some (6 + length path), rstate := sw_uri\<rparr>"
  have "run_steps request_line_step ?b 0 fresh_request = run_steps request_line_step ?b 5 r1"
    unfolding r1_def by (rule run_get_start)
  also have "\<dots> = run_steps request_line_step ?b (6 + length path) r2"
    using run_path [of r1 path "''GET /''" "query @ ?tail"] assms(1) by (simp add: r1_def r2_def numeral_nat)
  also have "\<dots> = run_steps request_line_step ?b (6 + length path + length query) r2"
    using run_query [of r2 query "''GET /'' @ path @ ''?''" ?tail] assms(2) by (simp add: r2_def numeral_nat)
  also have "\<dots> = (16 + length path + length query, r2\<lparr>uri_end := Some (6 + length path + length query),
      http_protocol := Some (7 + length path + length query), http_major := 1, http_minor := 1,
      request_end := Some (15 + length path + length query), rstate := sw_almost_done\<rparr>, Some RL_done)"
    using run_line_end [of r2 "''GET /'' @ path @ ''?'' @ query" rest] by (simp add: r2_def numeral_nat)
  finally show ?thesis
    by (simp add: ngx_http_parse_request_line_def get_line_def request_line_done_def parsed_get_def r2_def r1_def fresh_request_def)
qed

lemma process_get_line:
  "ngx_http_process_request_uri ms (get_line path query @ rest) (parsed_get path query) =
    Some (parsed_get path query, \<lparr>r_uri = ''/'' @ path, r_unparsed_uri = ''/'' @ path @ ''?'' @ query, r_exten = [],
      r_args = query, valid_unparsed_uri = True\<rparr>)"
  by (auto simp: ngx_http_process_request_uri_def parsed_get_def fresh_request_def get_line_def slice_def eval_nat_numeral)

section \<open>Query strings\<close>

fun query_string :: "(string \<times> string) list \<Rightarrow> string" where
  "query_string [] = []"
| "query_string [(k, v)] = k @ ''='' @ v"
| "query_string ((k, v) # kv # ps) = k @ ''='' @ v @ ''&'' @ query_string (kv # ps)"

definition good_name :: "string \<Rightarrow> bool" where
  "good_name k \<longleftrightarrow> k \<noteq> [] \<and> set k \<inter> {NUL, CHR ''&'', CHR ''=''} = {}"

definition good_pairs :: "(string \<times> string) list \<Rightarrow> bool" where
  "good_pairs ps \<longleftrightarrow> (\<forall>(k, v) \<in> set ps. good_name k \<and> CHR ''&'' \<notin> set v)"

lemma tolower_eq_sign: "ngx_tolower c = CHR ''='' \<longleftrightarrow> c = CHR ''=''"
proof
  assume *: "ngx_tolower c = CHR ''=''"
  show "c = CHR ''=''"
  proof (cases "CHR ''A'' \<le> c \<and> c \<le> CHR ''Z''")
    case True
    with * have "char_or_0x20 c = CHR ''=''" by (simp add: ngx_tolower_def)
    with True show ?thesis by (cases c) (auto simp: char_or_0x20_def less_eq_char_def of_char_def of_bool_def split: if_splits)
  next
    case False
    with * show ?thesis by (simp add: ngx_tolower_def if_not_P)
  qed
qed (simp add: ngx_tolower_def less_eq_char_def)

lemma arg_here_pair:
  assumes "good_name name" "good_name k"
  shows "arg_here name (k @ ''='' @ s) \<longleftrightarrow> map ngx_tolower k = map ngx_tolower name"
proof
  assume h: "arg_here name (k @ ''='' @ s)"
  then have len: "length name < length (k @ ''='' @ s)" and at: "(k @ ''='' @ s) ! length name = CHR ''=''"
    and eq: "map ngx_tolower (take (length name) (k @ ''='' @ s)) = map ngx_tolower name" by (auto simp: arg_here_def)
  have "length name = length k"
  proof (rule linorder_cases)
    assume "length name < length k"
    then have "CHR ''='' \<in> set k" using at nth_mem [of "length name" k] by (simp add: nth_append)
    with assms(2) show ?thesis by (auto simp: good_name_def)
  next
    assume gt: "length k < length name"
    have "map ngx_tolower name ! length k = CHR ''=''"
      using gt len unfolding eq [symmetric] by (simp add: nth_append tolower_eq_sign)
    then have "name ! length k = CHR ''=''" using gt by (simp add: tolower_eq_sign)
    then have "CHR ''='' \<in> set name" using gt nth_mem [of "length k" name] by simp
    with assms(1) show ?thesis by (auto simp: good_name_def)
  qed simp
  with eq show "map ngx_tolower k = map ngx_tolower name" by simp
next
  assume "map ngx_tolower k = map ngx_tolower name"
  moreover from this have "length k = length name" by (metis length_map)
  moreover have "(k @ ''='' @ s) ! length k = CHR ''=''" by (simp add: nth_append)
  ultimately show "arg_here name (k @ ''='' @ s)" by (simp add: arg_here_def)
qed

lemma arg_scan_until_amp:
  "CHR ''&'' \<notin> set w \<Longrightarrow> arg_scan name False (w @ CHR ''&'' # s) = arg_scan name True s"
  "CHR ''&'' \<notin> set w \<Longrightarrow> arg_scan name False w = None"
  by (induction w) auto

lemma arg_scan_pair:
  assumes "good_name name" "good_name k" "CHR ''&'' \<notin> set v" "s = [] \<or> (\<exists>t. s = CHR ''&'' # t)"
  shows "arg_scan name True (k @ ''='' @ v @ s) =
    (if map ngx_tolower k = map ngx_tolower name then Some v else if s = [] then None else arg_scan name True (tl s))"
proof -
  obtain c cs where k: "k = c # cs" "c \<noteq> CHR ''&''" "CHR ''&'' \<notin> set cs"
    using assms(2) by (cases k) (auto simp: good_name_def)
  show ?thesis
  proof (cases "map ngx_tolower k = map ngx_tolower name")
    case True
    then have "length name = length k" by (metis length_map)
    moreover have "takeWhile (\<lambda>x. x \<noteq> CHR ''&'') (v @ s) = v"
    proof -
      have "takeWhile (\<lambda>x. x \<noteq> CHR ''&'') (v @ s) = v @ takeWhile (\<lambda>x. x \<noteq> CHR ''&'') s"
        using assms(3) by (intro takeWhile_append2) auto
      moreover have "takeWhile (\<lambda>x. x \<noteq> CHR ''&'') s = []" using assms(4) by auto
      ultimately show ?thesis by simp
    qed
    ultimately show ?thesis using True arg_here_pair [OF assms(1,2), of "v @ s"] k by simp
  next
    case False
    have "CHR ''&'' \<notin> set (cs @ ''='' @ v)" using k(3) assms(3) by simp
    from arg_scan_until_amp [OF this, of name] False arg_here_pair [OF assms(1,2), of "v @ s"] k assms(4)
    show ?thesis by auto
  qed
qed

lemma arg_scan_query:
  assumes "good_name name"
  shows "good_pairs ps \<Longrightarrow> arg_scan name True (query_string ps) =
    map_option snd (find (\<lambda>(k, v). map ngx_tolower k = map ngx_tolower name) ps)"
proof (induction ps rule: query_string.induct)
  case (2 k v)
  then show ?case using arg_scan_pair [OF assms, of k v "[]"] by (simp add: good_pairs_def)
next
  case (3 k v kv ps)
  then show ?case
    using arg_scan_pair [OF assms, of k v "CHR ''&'' # query_string (kv # ps)"] by (simp add: good_pairs_def)
qed simp


section \<open>Decoded paths\<close>

fun plain_of :: "cu_state \<Rightarrow> cu_plain" where
  "plain_of (Plain q) = q"
| "plain_of (Quoted q) = q"
| "plain_of (Quoted_second q d) = q"

text \<open>How each state of the decoder shows in the last bytes it wrote.\<close>

fun cu_tail :: "cu_plain \<Rightarrow> string \<Rightarrow> bool" where
  "cu_tail CU_usual out \<longleftrightarrow> \<not> suffix ''/'' out \<and> \<not> suffix ''/.'' out \<and> \<not> suffix ''/..'' out"
| "cu_tail CU_slash out \<longleftrightarrow> suffix ''/'' out"
| "cu_tail CU_dot out \<longleftrightarrow> suffix ''/.'' out"
| "cu_tail CU_dot_dot out \<longleftrightarrow> suffix ''/..'' out"

definition cu_inv :: "cu_state \<Rightarrow> cu_rec \<Rightarrow> bool" where
  "cu_inv st s \<longleftrightarrow> \<not> sublist ''/../'' (cu_out s) \<and> cu_tail (plain_of st) (cu_out s)"

lemma suffix_snoc_lists:
  "suffix [a] (u @ [c]) \<longleftrightarrow> c = a"
  "suffix [a, b] (u @ [c]) \<longleftrightarrow> c = b \<and> suffix [a] u"
  "suffix [a, b, d] (u @ [c]) \<longleftrightarrow> c = d \<and> suffix [a, b] u"
  "suffix [a, b, d, e] (u @ [c]) \<longleftrightarrow> c = e \<and> suffix [a, b, d] u"
  using snoc_suffix_snoc [of "[]" a u c] snoc_suffix_snoc [of "[a]" b u c]
    snoc_suffix_snoc [of "[a, b]" d u c] snoc_suffix_snoc [of "[a, b, d]" e u c] by auto

lemma dot_dot_snoc:
  "sublist ''/../'' (u @ [c]) \<longleftrightarrow> sublist ''/../'' u \<or> c = CHR ''/'' \<and> suffix ''/..'' u"
  by (auto simp: sublist_snoc suffix_snoc_lists)

lemma back_to_slash_Some: "back_to_slash out n = Some i \<Longrightarrow> i \<le> n \<and> out ! i = CHR ''/''"
  by (induction n) (auto split: if_splits)

lemma take_Suc_slash: "i < length out \<Longrightarrow> out ! i = c \<Longrightarrow> suffix [c] (take (i + 1) out)"
  by (simp add: take_Suc_conv_app_nth suffix_snoc_lists)

lemma suffix_slash: "suffix ''/'' u \<Longrightarrow> \<not> suffix ''/.'' u \<and> \<not> suffix ''/..'' u"
  by (cases u rule: rev_cases) (auto simp: suffix_snoc_lists)

lemma suffix_dot: "suffix ''/.'' u \<Longrightarrow> \<not> suffix ''/'' u \<and> \<not> suffix ''/..'' u"
  using suffix_slash by (cases u rule: rev_cases) (auto simp: suffix_snoc_lists)

lemma suffix_dot_dot: "suffix ''/..'' u \<Longrightarrow> \<not> suffix ''/'' u \<and> \<not> suffix ''/.'' u"
  using suffix_dot by (cases u rule: rev_cases) (auto simp: suffix_snoc_lists)

lemmas cu_tails = suffix_snoc_lists dot_dot_snoc

lemma cu_inv_emit_usual:
  "cu_inv st s \<Longrightarrow> ch \<noteq> CHR ''/'' \<Longrightarrow> ch \<noteq> CHR ''.'' \<Longrightarrow> cu_inv (Plain CU_usual) (emit ch s)"
  by (simp add: cu_inv_def cu_tails)

lemma cu_inv_flags [simp]:
  "cu_inv st (s\<lparr>cu_ext := x\<rparr>) = cu_inv st s" "cu_inv st (s\<lparr>cu_args := y\<rparr>) = cu_inv st s"
  "cu_inv st (s\<lparr>cu_plus := b\<rparr>) = cu_inv st s" "cu_inv st (s\<lparr>cu_quoted := b\<rparr>) = cu_inv st s"
  by (simp_all add: cu_inv_def)

lemma cu_inv_state: "plain_of st = plain_of st' \<Longrightarrow> cu_inv st s = cu_inv st' s"
  by (simp add: cu_inv_def)

text \<open>The state and the record a turn goes on with, or the ones it ends with.\<close>

fun cu_goes_on :: "cu_state \<Rightarrow> cu_next \<Rightarrow> bool" where
  "cu_goes_on st (Advance st' s) = cu_inv st' s"
| "cu_goes_on st (Again ch q s) = cu_inv (Plain q) s"
| "cu_goes_on st (CU_done s) = cu_inv st s"
| "cu_goes_on st (CU_args s) = cu_inv st s"
| "cu_goes_on st CU_bad = True"

lemma cu_special_inv:
  assumes "cu_inv (Plain q) s" "ch \<noteq> CHR ''/''" "ch = CHR ''.'' \<longrightarrow> q = CU_dot_dot"
  shows "cu_goes_on (Plain q) (cu_special q ch p s)"
proof -
  have dots: "cu_inv (Plain CU_usual) (emit ch s)" if "q = CU_dot_dot" "ch = CHR ''.''"
    using assms(1) that suffix_dot_dot [of "cu_out s"] by (simp add: cu_inv_def cu_tails)
  show ?thesis
  proof (cases "ch = CHR ''.''")
    case True
    with assms(3) dots show ?thesis by (simp add: cu_special_def)
  next
    case False
    from cu_inv_emit_usual [OF assms(1,2) False] assms(1) show ?thesis
      by (auto simp: cu_special_def cu_inv_def)
  qed
qed

lemma usual_not_slash: "usual_char ch \<Longrightarrow> ch \<noteq> CHR ''/'' \<and> ch \<noteq> CHR ''.''"
  by (simp add: usual_char_iff)

lemma cu_plain_inv:
  assumes "cu_inv (Plain q) s"
  shows "cu_goes_on (Plain q) (cu_plain_step m q ch p s)"
proof (cases "usual_char ch")
  case True
  then show ?thesis using cu_inv_emit_usual [OF assms] usual_not_slash by (simp add: cu_plain_step_def)
next
  case unusual: False
  show ?thesis
  proof (cases "ch = CHR ''/'' \<or> ch = CHR ''.'' \<and> q \<noteq> CU_dot_dot")
    case False
    then have "cu_plain_step m q ch p s = cu_special q ch p s"
      using unusual by (cases q) (auto simp: cu_plain_step_def)
    then show ?thesis using cu_special_inv [OF assms] False by auto
  next
    case True
    show ?thesis
    proof (cases q)
      case CU_usual
      with True unusual assms show ?thesis by (auto simp: cu_plain_step_def cu_inv_def cu_tails)
    next
      case CU_slash
      with True unusual assms suffix_slash [of "cu_out s"] show ?thesis by (auto simp: cu_plain_step_def cu_inv_def cu_tails)
    next
      case CU_dot
      then obtain u where "cu_out s = u @ ''.''" "suffix ''/'' u" using assms
        by (cases "cu_out s" rule: rev_cases) (auto simp: cu_inv_def suffix_snoc_lists)
      with CU_dot True unusual assms dot_dot_snoc [of "u @ ''.''" "CHR ''.''"]
        suffix_snoc_lists(3) [of _ _ _ "u @ ''.''" "CHR ''.''"]
      show ?thesis by (auto simp: cu_plain_step_def cu_inv_def cu_tails)
    next
      case CU_dot_dot
      have cut: "cu_inv (Plain CU_slash) (s\<lparr>cu_out := take (i + 1) (cu_out s)\<rparr>)"
        if "back_to_slash (cu_out s) (length (cu_out s) - 5) = Some i" "\<not> length (cu_out s) < 5" for i
      proof -
        have "i < length (cu_out s)" "cu_out s ! i = CHR ''/''" using back_to_slash_Some [OF that(1)] that(2) by auto
        moreover have "\<not> sublist ''/../'' (take (i + 1) (cu_out s))"
          using assms sublist_take sublist_order.order_trans unfolding cu_inv_def by blast
        ultimately show ?thesis by (simp add: cu_inv_def take_Suc_slash [simplified])
      qed
      from True CU_dot_dot have "ch = CHR ''/''" by simp
      with unusual CU_dot_dot cut show ?thesis by (auto simp: cu_plain_step_def split: option.splits)
    qed
  qed
qed

lemma cu_step_inv:
  assumes "cu_inv st s"
  shows "cu_goes_on st (cu_step m st ch p s)"
proof (cases st)
  case (Plain q)
  with assms show ?thesis using cu_plain_inv [of q s m ch p] by (simp add: cu_step_def)
next
  case (Quoted q)
  with assms show ?thesis by (simp add: cu_step_def cu_quoted_step_def cu_inv_def Let_def)
next
  case (Quoted_second q d)
  have "cu_inv (Plain CU_usual) (emit ch s)" if "ch \<noteq> CHR ''/''" "ch \<noteq> CHR ''.''" for ch
    using cu_inv_emit_usual [OF assms that] .
  moreover have "cu_inv (Plain q) s" using assms Quoted_second by (simp add: cu_inv_def)
  ultimately show ?thesis unfolding cu_step_def cu_second_step_def Quoted_second
    by (auto simp: Let_def)
qed

lemma cu_loop_inv:
  "cu_loop m b e p ch st s = Some (p', a, s') \<Longrightarrow> cu_inv st s \<Longrightarrow> \<not> sublist ''/../'' (cu_out s')"
proof (induction m b e p ch st s rule: cu_loop.induct)
  case (1 m b e p ch st s)
  show ?case
  proof (cases "p \<le> e")
    case True
    then show ?thesis using "1.prems" cu_step_inv [of st s m ch p] "1.IH"
      by (cases "cu_step m st ch p s") (auto simp: cu_loop.simps [of m b e p] cu_inv_def)
  next
    case False
    with "1.prems" show ?thesis by (auto simp: cu_loop.simps [of m b e p] cu_inv_def)
  qed
qed

text \<open>Every byte read lets at most one byte be written.\<close>

fun cu_grows :: "cu_rec \<Rightarrow> cu_next \<Rightarrow> bool" where
  "cu_grows s (Advance st' s') \<longleftrightarrow> length (cu_out s') \<le> Suc (length (cu_out s))"
| "cu_grows s (Again ch q s') \<longleftrightarrow> length (cu_out s') \<le> length (cu_out s)"
| "cu_grows s (CU_done s') \<longleftrightarrow> length (cu_out s') \<le> length (cu_out s)"
| "cu_grows s (CU_args s') \<longleftrightarrow> length (cu_out s') \<le> length (cu_out s)"
| "cu_grows s CU_bad \<longleftrightarrow> True"

lemma cu_step_grows: "cu_grows s (cu_step m st ch p s)"
proof (cases st)
  case (Plain q)
  then show ?thesis
    by (cases q) (auto simp: cu_step_def cu_plain_step_def cu_special_def split: option.splits)
qed (auto simp: cu_step_def cu_quoted_step_def cu_second_step_def Let_def)

text \<open>An unescaped question mark ends the decoding, or it was part of a wrong escape.\<close>

lemma cu_step_question:
  "\<exists>s'. cu_step m st (CHR ''?'') p s \<in> {CU_bad, CU_args s'} \<and> cu_out s' = cu_out s"
proof -
  have "\<not> usual_char (CHR ''?'')" by (simp add: usual_char_iff)
  then show ?thesis
    by (cases st; cases "plain_of st")
       (auto simp: cu_step_def cu_plain_step_def cu_special_def cu_quoted_step_def cu_second_step_def Let_def
         is_digit_def is_hex_lc_def char_or_0x20_def less_eq_char_def)
qed

lemma cu_loop_length:
  "cu_loop m b e p ch st s = Some (p', a, s') \<Longrightarrow> length (cu_out s) + Suc start \<le> p \<Longrightarrow> p \<le> Suc e \<Longrightarrow>
   start \<le> e \<Longrightarrow> length (cu_out s') \<le> e - start"
proof (induction m b e p ch st s rule: cu_loop.induct)
  case (1 m b e p ch st s)
  note step = cu_step_grows [of s m st ch p]
  show ?case
  proof (cases "p \<le> e")
    case True
    then show ?thesis using "1.prems" step "1.IH"
      by (cases "cu_step m st ch p s") (auto simp: cu_loop.simps [of m b e p])
  next
    case False
    with "1.prems" show ?thesis by (auto simp: cu_loop.simps [of m b e p])
  qed
qed

lemma cu_loop_length_args:
  "cu_loop m b e p ch st s = Some (p', a, s') \<Longrightarrow> length (cu_out s) + Suc start \<le> p \<Longrightarrow> p \<le> Suc k \<Longrightarrow>
   k < e \<Longrightarrow> b ! k = CHR ''?'' \<Longrightarrow> (p = Suc k \<longrightarrow> ch = CHR ''?'') \<Longrightarrow>
   length (cu_out s') \<le> k - start"
proof (induction m b e p ch st s rule: cu_loop.induct)
  case (1 m b e p ch st s)
  note step = cu_step_grows [of s m st ch p]
  show ?case
  proof (cases "p = Suc k")
    case True
    with "1.prems" cu_step_question [of m st p s] show ?thesis
      by (auto simp: cu_loop.simps [of m b e "Suc k"])
  next
    case False
    then show ?thesis using "1.prems" step "1.IH"
      by (cases "cu_step m st ch p s") (auto simp: cu_loop.simps [of m b e p])
  qed
qed

lemma request_line_codes:
  "request_line_step b p r = Stop (RL_return c) r' \<Longrightarrow> c > 0"
  by (cases "rstate r")
     (auto simp: request_line_simps step_host_def host_case_def host_end_case_def step_ip_literal_def step_port_def
       step_host_http_09_def split: if_splits option.splits)

lemma request_line_AGAIN:
  "fst (ngx_http_parse_request_line b pos r) = NGX_AGAIN \<longleftrightarrow> snd (snd (run_steps request_line_step b pos r)) = None"
proof -
  obtain q r' x where run: "run_steps request_line_step b pos r = (q, r', x)" by (metis prod_cases3)
  have "c > 0" if "x = Some (RL_return c)" for c
    using run_steps_stop_step [of request_line_step b pos r q r' "RL_return c"] run that request_line_codes by blast
  then show ?thesis using run
    by (cases x) (auto simp: ngx_http_parse_request_line_def request_line_done_def Let_def
        split: rl_exit.splits if_splits prod.splits)
qed

section \<open>What the parsers promise\<close>

text \<open>
  Two calls have the same outcome: the same code, and for a code that is no error also the
  same position and request (an error leaves \<open>b->pos\<close> and \<open>r->state\<close> where they were).
\<close>

definition same_outcome :: "int \<times> nat \<times> ngx_http_request \<Rightarrow> int \<times> nat \<times> ngx_http_request \<Rightarrow> bool" where
  "same_outcome x y \<longleftrightarrow> fst x = fst y \<and> (fst x \<le> 0 \<longrightarrow> x = y)"

text \<open>
  C11. However the bytes of a request line arrive, the parser's result is the same: when a call on
  the bytes read so far asks for more, the next call (which goes on at the saved position in the
  saved state) has the outcome of one call on all the bytes; when it does not ask for more, bytes
  that follow change nothing.
\<close>

theorem request_line_any_cut:
  assumes "pos \<le> length b"
  shows "case ngx_http_parse_request_line b pos r of (rc, p, r') \<Rightarrow>
    (if rc = NGX_AGAIN
     then same_outcome (ngx_http_parse_request_line (b @ c) p r') (ngx_http_parse_request_line (b @ c) pos r)
     else ngx_http_parse_request_line (b @ c) pos r = (rc, p, r'))"
proof -
  obtain q r' x where run: "run_steps request_line_step b pos r = (q, r', x)" by (metis prod_cases3)
  show ?thesis
  proof (cases x)
    case None
    with run have q: "q = length b" using run_steps_AGAIN_pos [OF assms] by simp
    then have "run_steps request_line_step (b @ c) q r' = run_steps request_line_step (b @ c) pos r"
      using request_line.run_again_resume [OF assms] run None by metis
    then have "same_outcome (ngx_http_parse_request_line (b @ c) q r') (ngx_http_parse_request_line (b @ c) pos r)"
      using request_line_AGAIN [of "b @ c" pos r] run_steps_stop_step [of request_line_step "b @ c" pos r] request_line_codes
      by (auto simp: same_outcome_def ngx_http_parse_request_line_def split: prod.splits option.splits rl_exit.splits)
         (metis not_less)+
    moreover have "ngx_http_parse_request_line b pos r = (NGX_AGAIN, q, r')"
      using run None by (simp add: ngx_http_parse_request_line_def)
    ultimately show ?thesis by simp
  next
    case (Some y)
    have "run_steps request_line_step (b @ c) pos r = (q, r', Some y)"
      using request_line.run_stop_stable run Some by blast
    then have "ngx_http_parse_request_line (b @ c) pos r = ngx_http_parse_request_line b pos r"
      using run Some by (simp add: ngx_http_parse_request_line_def)
    moreover have "fst (ngx_http_parse_request_line b pos r) \<noteq> NGX_AGAIN" using request_line_AGAIN run Some by simp
    ultimately show ?thesis by (cases "ngx_http_parse_request_line b pos r") simp
  qed
qed

theorem request_line_any_cut_witness:
  "fst (ngx_http_parse_request_line ''GET /setit'' 0 fresh_request) = NGX_AGAIN \<and>
   same_outcome
     (ngx_http_parse_request_line (''GET /setit'' @ ''em?id=7 HTTP/1.1'' @ [CR, LF]) 10
        (snd (snd (ngx_http_parse_request_line ''GET /setit'' 0 fresh_request))))
     (ngx_http_parse_request_line (''GET /setit'' @ ''em?id=7 HTTP/1.1'' @ [CR, LF]) 0 fresh_request)"
proof -
  have "fst (ngx_http_parse_request_line ''GET /setit'' 0 fresh_request) = NGX_AGAIN \<and>
     fst (snd (ngx_http_parse_request_line ''GET /setit'' 0 fresh_request)) = 10"
    by (simp add: ngx_http_parse_request_line_def run_steps_Next run_steps_end request_line_simps fresh_request_def
        http_method_def eval_nat_numeral)
  with request_line_any_cut [where pos = 0 and b = "''GET /setit''" and r = fresh_request and c = "''em?id=7 HTTP/1.1'' @ [CR, LF]"]
  show ?thesis by (cases "ngx_http_parse_request_line ''GET /setit'' 0 fresh_request") simp
qed

text \<open>
  C6. A request line \<open>GET /path?query HTTP/1.1\<close> whose path has usual characters only is parsed and
  processed into that path and that query, and \<open>ngx_http_arg\<close> finds in it, for every name, the
  value of the first pair with that name in any case.
\<close>

theorem get_request_arguments:
  assumes "list_all usual_char path" "list_all uri_byte (query_string ps)" "good_pairs ps" "good_name name"
  shows "\<exists>r u. ngx_http_parse_request_line (get_line path (query_string ps) @ rest) 0 fresh_request =
      (NGX_OK, length (get_line path (query_string ps)), r) \<and>
    ngx_http_process_request_uri ms (get_line path (query_string ps) @ rest) r = Some (r, u) \<and>
    r_method r = NGX_HTTP_GET \<and> r_uri u = ''/'' @ path \<and>
    ngx_http_arg (r_args u) name = map_option snd (find (\<lambda>(k, v). map ngx_tolower k = map ngx_tolower name) ps)"
proof -
  have name: "name \<noteq> []" "NUL \<notin> set name" "CHR ''&'' \<notin> set name" using assms(4) by (auto simp: good_name_def)
  have "length (get_line path (query_string ps)) = 17 + length path + length (query_string ps)"
    by (simp add: get_line_def)
  then show ?thesis
    using parse_get_line [OF assms(1,2), of rest] process_get_line [of ms path "query_string ps" rest]
      http_arg_eq [OF name, of "query_string ps"] arg_scan_query [OF assms(4,3)]
    by (simp add: parsed_get_def)
qed

theorem get_request_arguments_witness:
  "\<exists>r u. ngx_http_parse_request_line (get_line ''setitem'' ''id=7&lat=1'' @ ''Host: a'') 0 fresh_request =
      (NGX_OK, length (get_line ''setitem'' ''id=7&lat=1''), r) \<and>
    ngx_http_process_request_uri True (get_line ''setitem'' ''id=7&lat=1'' @ ''Host: a'') r = Some (r, u) \<and>
    r_method r = NGX_HTTP_GET \<and> r_uri u = ''/setitem'' \<and> ngx_http_arg (r_args u) ''LAT'' = Some ''1''"
proof -
  have "list_all usual_char ''setitem''" "good_pairs [(''id'', ''7''), (''lat'', ''1'')]" "good_name ''LAT''"
    "list_all uri_byte (query_string [(''id'', ''7''), (''lat'', ''1'')])"
    "find (\<lambda>(k, v). map ngx_tolower k = map ngx_tolower ''LAT'') [(''id'', ''7''), (''lat'', ''1'')] = Some (''lat'', ''1'')"
    by (simp_all add: usual_char_iff good_pairs_def good_name_def uri_byte_def ngx_tolower_def less_eq_char_def char_or_0x20_def)
  from get_request_arguments [OF this(1) this(4) this(2,3), of "''Host: a''" True] this(5) show ?thesis by simp
qed

text \<open>
  C10. A decoded path never holds \<open>/../\<close>, whichever way the dots and slashes were escaped, and it
  fits the block allocated for it: \<open>r->uri.len + 1\<close> bytes, the length of the URI without the
  arguments.
\<close>

theorem complex_uri_safe:
  assumes "ngx_http_parse_complex_uri ms b r = Some (u, ext, as, r')"
    and "uri_start r = Some start" "uri_end r = Some e" "start \<le> e"
    and "\<forall>a. args_start r = Some a \<longrightarrow> start < a \<and> a \<le> e \<and> b ! (a - 1) = CHR ''?''"
  shows "\<not> sublist ''/../'' u \<and>
    length u \<le> (case args_start r of Some a \<Rightarrow> a - 1 - start | None \<Rightarrow> e - start)"
proof -
  let ?s = "\<lparr>cu_out = [], cu_ext = None, cu_args = None, cu_plus = plus_in_uri r, cu_quoted = quoted_uri r\<rparr>"
  obtain p t s where loop: "cu_loop ms b e (Suc start) (b ! start) (Plain CU_usual) ?s = Some (p, t, s)" and u: "u = cu_out s"
    using assms(1-3) by (auto simp: ngx_http_parse_complex_uri_def Let_def split: option.splits)
  have "cu_inv (Plain CU_usual) ?s" by (simp add: cu_inv_def)
  from cu_loop_inv [OF loop this] have "\<not> sublist ''/../'' u" unfolding u .
  moreover have "length u \<le> e - start" unfolding u using cu_loop_length [OF loop, of start] assms(4) by simp
  moreover have "length u \<le> a - 1 - start" if "args_start r = Some a" for a
    unfolding u using cu_loop_length_args [OF loop, of start "a - 1"] assms(5) that by auto
  ultimately show ?thesis by (simp split: option.splits)
qed

theorem complex_uri_safe_witness:
  "ngx_http_parse_complex_uri True ''/a/%2e%2e/b//c?x '' (fresh_request\<lparr>uri_start := Some 0, uri_end := Some 16, args_start := Some 15\<rparr>)
     = Some (''/b/c'', [], [], fresh_request\<lparr>uri_start := Some 0, uri_end := Some 16, args_start := Some 15, quoted_uri := True\<rparr>) \<and>
   \<not> sublist ''/../'' ''/b/c'' \<and> length ''/b/c'' \<le> (14::nat)"
proof -
  have dot: "char_of (46 :: nat) = CHR ''.''" by code_simp
  have *: "ngx_http_parse_complex_uri True ''/a/%2e%2e/b//c?x '' (fresh_request\<lparr>uri_start := Some 0, uri_end := Some 16, args_start := Some 15\<rparr>)
     = Some (''/b/c'', [], [], fresh_request\<lparr>uri_start := Some 0, uri_end := Some 16, args_start := Some 15, quoted_uri := True\<rparr>)"
    by (simp add: ngx_http_parse_complex_uri_def cu_loop.simps cu_step_def cu_plain_step_def cu_special_def
        cu_quoted_step_def cu_second_step_def usual_char_iff is_digit_def is_hex_lc_def char_or_0x20_def less_eq_char_def
        slice_def strlchr_eq fresh_request_def Let_def dot)
  with complex_uri_safe [OF *, of 0 16] show ?thesis by (simp add: fresh_request_def)
qed

end
