(* ===== verification/Nla_Handler.thy ===== *)
theory Nla_Handler
  imports Nla_Search Ngx_Http_Parse
begin

text \<open>
  The request handlers of \<^verbatim>\<open>src/src/ngx_http_lookaround_handler.c\<close> and the helpers of
  \<^verbatim>\<open>src/src/ngx_http_lookaround_util.c\<close> they use.

  What the handlers get from the server is a parameter, the record \<open>ngx_services\<close>: the codes of
  \<open>ngx_http_discard_request_body\<close>, \<open>ngx_http_set_content_type\<close>, \<open>ngx_http_send_header\<close> and
  \<open>ngx_http_output_filter\<close>, whether the n-th allocation from the request's pool succeeds, the
  clock, and the arithmetic of the floating point unit (rounding and \<open>cos\<close>). A reply holds the
  code the handler returns, the headers as they were passed to \<open>ngx_http_send_header\<close> and the
  bytes passed to \<open>ngx_http_output_filter\<close>. The fuel parameters bound the walk down the tree and
  along the lists.

  Lemmas: which action a URI names (\<open>get_action_path\<close>), what each handler answers on every branch,
  that a refused request changes nothing, and what \<open>lookaround\<close> prints on a well formed state.
\<close>

unbundle bit_operations_syntax

section \<open>The server around the handlers\<close>

record headers_out =
  h_content_type :: string
  h_status :: int
  h_content_length_n :: int

record ngx_services =
  discard_request_body :: int
  set_content_type :: int
  send_header :: "headers_out \<Rightarrow> int"
  output_filter :: "string \<Rightarrow> int"
  pool_alloc :: "nat \<Rightarrow> nat \<Rightarrow> bool"
  ngx_time :: int
  fp_round :: "real \<Rightarrow> real"
  fp_cos :: "real \<Rightarrow> real"

text \<open>The members of \<open>ngx_http_request_t\<close> the handlers read, and the location configuration.\<close>

record nla_request =
  req_method :: nat
  req_uri :: string
  req_args :: string
  req_conf :: "ngx_http_lookaround_loc_conf option"

record nla_reply =
  ret :: int
  headers :: "headers_out option"
  body :: "string option"

record nla_fuel =
  tree_fuel :: nat
  list_fuel :: nat

abbreviation (input) NLA_ACTION_MAXLEN :: nat where "NLA_ACTION_MAXLEN \<equiv> 32"
abbreviation (input) NLA_DATA_JSON_LEN :: nat where "NLA_DATA_JSON_LEN \<equiv> 200"
abbreviation (input) NLA_DEF_COUNT :: int where "NLA_DEF_COUNT \<equiv> 50"
abbreviation (input) NLA_MAX_COUNT :: int where "NLA_MAX_COUNT \<equiv> 10000"
abbreviation (input) NLA_DEG_FIXPOINT :: nat where "NLA_DEG_FIXPOINT \<equiv> 6"
abbreviation (input) NGX_HTTP_OK :: int where "NGX_HTTP_OK \<equiv> 200"
abbreviation (input) NGX_HTTP_BAD_REQUEST :: int where "NGX_HTTP_BAD_REQUEST \<equiv> 400"
abbreviation (input) NGX_HTTP_NOT_ALLOWED :: int where "NGX_HTTP_NOT_ALLOWED \<equiv> 405"
abbreviation (input) NGX_HTTP_INTERNAL_SERVER_ERROR :: int where "NGX_HTTP_INTERNAL_SERVER_ERROR \<equiv> 500"

definition CT_TXT :: string where "CT_TXT = ''text/plain; charset=utf-8''"
definition CT_JSON :: string where "CT_JSON = ''application/json; charset=utf-8''"

text \<open>A handler that only returns a code.\<close>

definition only_code :: "int \<Rightarrow> nla_reply" where
  "only_code c = \<lparr>ret = c, headers = None, body = None\<rparr>"

section \<open>Helpers\<close>

text \<open>
  The loop of \<open>fn_i_get_action\<close>: at most \<open>n\<close> bytes are copied. The result is the string left in
  the buffer; the function returns its length.
\<close>

fun action_loop :: "nat \<Rightarrow> string \<Rightarrow> string" where
  "action_loop 0 uri = []"
| "action_loop (Suc n) [] = []"
| "action_loop (Suc n) (c # uri) =
     (if c \<noteq> NUL \<and> c \<noteq> CHR ''?'' \<and> c \<noteq> CHR ''#'' \<and> c \<noteq> CHR ''/'' then c # action_loop n uri else [])"

definition fn_i_get_action :: "string \<Rightarrow> string" where
  "fn_i_get_action uri =
     (if length uri < 2 then []
      else if take 1 uri \<noteq> ''/'' then []
      else action_loop NLA_ACTION_MAXLEN (drop 1 uri))"

text \<open>
  \<open>fn_pns_get_ngxStr\<close> copies a string into the pool, without a look at the two pointers it gets;
  \<open>n\<close> counts the allocations of the pool so far.
\<close>

definition fn_pns_get_ngxStr :: "ngx_services \<Rightarrow> nat \<Rightarrow> string \<Rightarrow> (string \<times> nat) c_result" where
  "fn_pns_get_ngxStr sv n s =
     (if \<not> pool_alloc sv n (length s + 1) then Inl NullDeref
      else if \<not> pool_alloc sv (Suc n) 16 then Inl NullDeref
      else Inr (s, n + 2))"

definition ngx_http_lookaround_render_output ::
    "ngx_services \<Rightarrow> nat \<Rightarrow> nla_request \<Rightarrow> string \<Rightarrow> string \<Rightarrow> nla_reply c_result" where
  "ngx_http_lookaround_render_output sv n r txt ctype =
     (if req_method r AND NGX_HTTP_GET = 0 then Inr (only_code NGX_HTTP_NOT_ALLOWED)
      else
        let hd = \<lparr>h_content_type = ctype, h_status = NGX_HTTP_OK, h_content_length_n = int (length txt)\<rparr> in
        if \<not> pool_alloc sv n 80 then Inr (only_code NGX_HTTP_INTERNAL_SERVER_ERROR)
        else bindr (fn_pns_get_ngxStr sv (Suc n) txt) (\<lambda>(s, n').
          if send_header sv hd \<noteq> NGX_OK then Inr \<lparr>ret = send_header sv hd, headers = Some hd, body = None\<rparr>
          else Inr \<lparr>ret = output_filter sv s, headers = Some hd, body = Some s\<rparr>))"

section \<open>The actions\<close>

definition ngx_http_lookaround_imok :: "ngx_services \<Rightarrow> nla_request \<Rightarrow> nla_reply c_result" where
  "ngx_http_lookaround_imok sv r = ngx_http_lookaround_render_output sv 0 r ''I'm OK'' CT_TXT"

text \<open>The copy of the id into \<open>achIDBuf\<close> of \<open>NLA_DATA_ID_MAX_LEN\<close> bytes, with its terminating NUL.\<close>

definition copy_id :: "string \<Rightarrow> string c_result" where
  "copy_id sID = (if length sID \<ge> NLA_DATA_ID_MAX_LEN then Inl BufferOverflow else Inr (c_str sID))"

text \<open>An optional number among the arguments.\<close>

definition int_arg :: "nla_request \<Rightarrow> string \<Rightarrow> int \<Rightarrow> int" where
  "int_arg r name dflt =
     (case ngx_http_arg (req_args r) name of None \<Rightarrow> dflt | Some v \<Rightarrow> wrap32 (ngx_atoi v))"

definition ngx_http_lookaround_setitem ::
    "ngx_services \<Rightarrow> mm_oracle \<Rightarrow> nla_fuel \<Rightarrow> nla_state \<Rightarrow> nla_request \<Rightarrow> (nla_state \<times> nla_reply) c_result" where
  "ngx_http_lookaround_setitem sv mm fu st r =
     (case ngx_http_arg (req_args r) ''id'' of
        None \<Rightarrow> Inr (st, only_code NGX_HTTP_BAD_REQUEST)
      | Some sID \<Rightarrow>
          if length sID \<le> 0 \<or> length sID > NLA_DATA_ID_MAX_LEN then Inr (st, only_code NGX_HTTP_BAD_REQUEST)
          else case ngx_http_arg (req_args r) ''lat'' of
            None \<Rightarrow> Inr (st, only_code NGX_HTTP_BAD_REQUEST)
          | Some sLat \<Rightarrow>
              (case ngx_http_arg (req_args r) ''lon'' of
                 None \<Rightarrow> Inr (st, only_code NGX_HTTP_BAD_REQUEST)
               | Some sLon \<Rightarrow>
                   let p = \<lparr>lat = wrap32 (ngx_atofp sLat NLA_DEG_FIXPOINT), lon = wrap32 (ngx_atofp sLon NLA_DEG_FIXPOINT)\<rparr>;
                       iStatus = int_arg r ''status'' 0;
                       iType = int_arg r ''type'' 0
                   in bindr (copy_id sID) (\<lambda>achIDBuf.
                      bindr (ngx_http_lookaround_setdataloc (tree_fuel fu) mm (ngx_time sv) (req_conf r) st achIDBuf p iStatus iType) (\<lambda>st'.
                      bindr (ngx_http_lookaround_render_output sv 0 r ''OK'' CT_TXT) (\<lambda>rep. Inr (st', rep))))))"

definition ngx_http_lookaround_getitem :: "ngx_services \<Rightarrow> nla_state \<Rightarrow> nla_request \<Rightarrow> nla_reply c_result" where
  "ngx_http_lookaround_getitem sv st r =
     (case ngx_http_arg (req_args r) ''id'' of
        None \<Rightarrow> Inr (only_code NGX_HTTP_BAD_REQUEST)
      | Some sID \<Rightarrow>
          if length sID \<le> 0 \<or> length sID > NLA_DATA_ID_MAX_LEN then Inr (only_code NGX_HTTP_BAD_REQUEST)
          else bindr (copy_id sID) (\<lambda>achIDBuf.
               bindr (ngx_http_lookaround_getdatanode st achIDBuf) (\<lambda>pDataNode.
                 if pDataNode = None then ngx_http_lookaround_render_output sv 0 r ''{}'' CT_JSON
                 else bindr (deref (data_heap st) pDataNode) (\<lambda>dnode.
                      bindr (fn_v_FormatDataItem (data dnode)) (\<lambda>s.
                        if length s + 1 > NLA_DATA_JSON_LEN then Inl BufferOverflow
                        else ngx_http_lookaround_render_output sv 0 r s CT_JSON)))))"

text \<open>The closing bracket: it takes the place of the last comma, if one was printed.\<close>

definition close_list :: "string \<Rightarrow> string" where
  "close_list s = (if last s = CHR '','' then butlast s @ '']'' else s @ '']'')"

definition ngx_http_lookaround_lookaround ::
    "ngx_services \<Rightarrow> nla_fuel \<Rightarrow> nla_state \<Rightarrow> nla_request \<Rightarrow> nla_reply c_result" where
  "ngx_http_lookaround_lookaround sv fu st r =
     (case ngx_http_arg (req_args r) ''lat'' of
        None \<Rightarrow> Inr (only_code NGX_HTTP_BAD_REQUEST)
      | Some sLat \<Rightarrow>
     (case ngx_http_arg (req_args r) ''lon'' of
        None \<Rightarrow> Inr (only_code NGX_HTTP_BAD_REQUEST)
      | Some sLon \<Rightarrow>
     (case ngx_http_arg (req_args r) ''radius'' of
        None \<Rightarrow> Inr (only_code NGX_HTTP_BAD_REQUEST)
      | Some sRadius \<Rightarrow>
          let p = \<lparr>lat = wrap32 (ngx_atofp sLat NLA_DEG_FIXPOINT), lon = wrap32 (ngx_atofp sLon NLA_DEG_FIXPOINT)\<rparr>;
              radius = ngx_atofp sRadius NLA_DEG_FIXPOINT;
              iStatus = int_arg r ''status'' NLA_INVALID_STATUS;
              iType = int_arg r ''type'' NLA_INVALID_TYPE;
              iCount = int_arg r ''count'' NLA_DEF_COUNT
          in if iCount \<le> 0 \<or> iCount \<ge> NLA_MAX_COUNT then Inr (only_code NGX_HTTP_BAD_REQUEST)
             else bindr (fn_v_GetRectFromLocRadius (fp_round sv) (fp_cos sv) p
                           (fp_round sv (fp_round sv (real_of_int radius) / 1000000))) (\<lambda>rect.
               let size = nat iCount * NLA_DATA_JSON_LEN in
               if \<not> pool_alloc sv 0 size then Inr (only_code NGX_HTTP_BAD_REQUEST)
               else
                 let ex = \<lparr>p_conf = req_conf r, sz_json = ''['', json_size = size, ex_count = 0\<rparr> in
                 bindr (root_of st) (\<lambda>rt.
                 bindr (ngx_http_lookaround_get_around_data (list_fuel fu) (tree_fuel fu) st rt rect iStatus iType iCount ex) (\<lambda>ex'.
                   if length (close_list (sz_json ex')) + 1 > size then Inl BufferOverflow
                   else ngx_http_lookaround_render_output sv 1 r (close_list (sz_json ex')) CT_JSON))))))"

definition ngx_http_lookaround_getitems :: "nla_request \<Rightarrow> nla_reply" where
  "ngx_http_lookaround_getitems r = only_code NGX_DONE"

definition ngx_http_lookaround_reset :: "nla_request \<Rightarrow> nla_reply" where
  "ngx_http_lookaround_reset r = only_code NGX_DONE"

definition ngx_http_lookaround_stat :: "nla_request \<Rightarrow> nla_reply" where
  "ngx_http_lookaround_stat r = only_code NGX_DONE"

definition ngx_http_lookaround_about :: "ngx_services \<Rightarrow> nla_request \<Rightarrow> nla_reply c_result" where
  "ngx_http_lookaround_about sv r =
     ngx_http_lookaround_render_output sv 0 r (''Version 0.1'' @ [LF] @ ''Developed by Cui Yingjie (nihuo)'') CT_TXT"

definition ngx_http_lookaround_help :: "ngx_services \<Rightarrow> nla_request \<Rightarrow> nla_reply c_result" where
  "ngx_http_lookaround_help sv r = ngx_http_lookaround_render_output sv 0 r ''Help'' CT_TXT"

section \<open>The handler\<close>

definition ngx_http_lookaround_handler ::
    "ngx_services \<Rightarrow> mm_oracle \<Rightarrow> nla_fuel \<Rightarrow> nla_state \<Rightarrow> nla_request \<Rightarrow> (nla_state \<times> nla_reply) c_result" where
  "ngx_http_lookaround_handler sv mm fu st r =
     (let reply = (\<lambda>res. bindr res (\<lambda>rep. Inr (st, rep))); code = (\<lambda>c. Inr (st, only_code c)) in
      if req_method r AND NGX_HTTP_GET = 0 then code NGX_HTTP_NOT_ALLOWED
      else if discard_request_body sv \<noteq> NGX_OK \<and> discard_request_body sv \<noteq> NGX_AGAIN then code (discard_request_body sv)
      else if set_content_type sv \<noteq> NGX_OK then code NGX_HTTP_INTERNAL_SERVER_ERROR
      else
        let action = fn_i_get_action (req_uri r) in
        if action = ''lookaround'' then reply (ngx_http_lookaround_lookaround sv fu st r)
        else if action = ''setitem'' then ngx_http_lookaround_setitem sv mm fu st r
        else if action = ''getitem'' then reply (ngx_http_lookaround_getitem sv st r)
        else if action = ''getitems'' then reply (Inr (ngx_http_lookaround_getitems r))
        else if action = ''reset'' then reply (Inr (ngx_http_lookaround_reset r))
        else if action = ''stat'' then reply (Inr (ngx_http_lookaround_stat r))
        else if action = ''about'' then reply (ngx_http_lookaround_about sv r)
        else if action = ''imok'' then reply (ngx_http_lookaround_imok sv r)
        else if action = ''help'' then reply (ngx_http_lookaround_help sv r)
        else code NGX_HTTP_BAD_REQUEST)"


section \<open>Lemmas\<close>

definition action_byte :: "char \<Rightarrow> bool" where
  "action_byte c \<longleftrightarrow> c \<notin> {NUL, CHR ''?'', CHR ''#'', CHR ''/''}"

lemma action_loop_eq: "action_loop n s = takeWhile action_byte (take n s)"
  by (induction n s rule: action_loop.induct) (auto simp: action_byte_def)

lemma get_action_path:
  "path \<noteq> [] \<Longrightarrow> fn_i_get_action (CHR ''/'' # path) = takeWhile action_byte (take 32 path)"
  by (cases path) (simp_all add: fn_i_get_action_def action_loop_eq)

text \<open>A server in which every allocation and every send succeeds.\<close>

definition healthy :: "ngx_services \<Rightarrow> bool" where
  "healthy sv \<longleftrightarrow> (discard_request_body sv = NGX_OK \<or> discard_request_body sv = NGX_AGAIN) \<and> set_content_type sv = NGX_OK \<and>
     pool_alloc sv = (\<lambda>n k. True) \<and> send_header sv = (\<lambda>h. NGX_OK)"

definition answer :: "ngx_services \<Rightarrow> string \<Rightarrow> string \<Rightarrow> nla_reply" where
  "answer sv txt ctype = \<lparr>ret = output_filter sv txt,
     headers = Some \<lparr>h_content_type = ctype, h_status = NGX_HTTP_OK, h_content_length_n = int (length txt)\<rparr>, body = Some txt\<rparr>"

lemma render_healthy:
  "healthy sv \<Longrightarrow> req_method r = NGX_HTTP_GET \<Longrightarrow>
   ngx_http_lookaround_render_output sv n r txt ctype = Inr (answer sv txt ctype)"
  by (simp add: ngx_http_lookaround_render_output_def healthy_def fn_pns_get_ngxStr_def answer_def)

lemma handler_healthy:
  assumes "healthy sv" "req_method r = NGX_HTTP_GET"
  shows "fn_i_get_action (req_uri r) = ''setitem'' \<Longrightarrow>
      ngx_http_lookaround_handler sv mm fu st r = ngx_http_lookaround_setitem sv mm fu st r"
    and "fn_i_get_action (req_uri r) = ''getitem'' \<Longrightarrow>
      ngx_http_lookaround_handler sv mm fu st r = bindr (ngx_http_lookaround_getitem sv st r) (\<lambda>rep. Inr (st, rep))"
    and "fn_i_get_action (req_uri r) = ''lookaround'' \<Longrightarrow>
      ngx_http_lookaround_handler sv mm fu st r = bindr (ngx_http_lookaround_lookaround sv fu st r) (\<lambda>rep. Inr (st, rep))"
  using assms by (auto simp: ngx_http_lookaround_handler_def healthy_def)

text \<open>What a complete \<open>setitem\<close> request hands to \<open>setdataloc\<close>.\<close>

definition request_loc :: "string \<Rightarrow> string \<Rightarrow> nla_2dloc" where
  "request_loc sLat sLon = \<lparr>lat = wrap32 (ngx_atofp sLat 6), lon = wrap32 (ngx_atofp sLon 6)\<rparr>"

lemma setitem_complete:
  assumes "ngx_http_arg (req_args r) ''id'' = Some k" "k \<noteq> []" "length k < NLA_DATA_ID_MAX_LEN" "NUL \<notin> set k"
    and "ngx_http_arg (req_args r) ''lat'' = Some sLat" "ngx_http_arg (req_args r) ''lon'' = Some sLon"
    and "healthy sv" "req_method r = NGX_HTTP_GET"
  shows "ngx_http_lookaround_setitem sv mm fu st r =
    bindr (ngx_http_lookaround_setdataloc (tree_fuel fu) mm (ngx_time sv) (req_conf r) st k (request_loc sLat sLon)
        (int_arg r ''status'' 0) (int_arg r ''type'' 0)) (\<lambda>st'. Inr (st', answer sv ''OK'' CT_TXT))"
  using assms by (simp add: ngx_http_lookaround_setitem_def copy_id_def c_str_id render_healthy request_loc_def Let_def)

lemma int_arg_int32: "is_int32 dflt \<Longrightarrow> is_int32 (int_arg r name dflt)"
  by (simp add: int_arg_def split: option.split)

lemma getitem_eq:
  assumes wf: "nla_wf L mm st" and sv: "healthy sv" "req_method r = NGX_HTTP_GET"
    and id: "ngx_http_arg (req_args r) ''id'' = Some k" "k \<noteq> []" "length k < NLA_DATA_ID_MAX_LEN" "NUL \<notin> set k"
    and print: "\<forall>it. items st k = Some it \<longrightarrow> printable it"
  shows "ngx_http_lookaround_getitem sv st r =
    Inr (answer sv (case items st k of None \<Rightarrow> ''{}'' | Some it \<Rightarrow> item_text it) CT_JSON)"
proof (cases "items st k")
  case None
  with items_None_getdatanode [OF wf id(4)] sv id show ?thesis
    by (simp add: ngx_http_lookaround_getitem_def copy_id_def c_str_id render_healthy)
next
  case (Some it)
  then obtain d dn where get: "ngx_http_lookaround_getdatanode st k = Inr (Some d)" "data_heap st d = Some dn" "data dn = it"
    by (auto simp: items_def split: if_splits sum.splits option.splits)
  from Some print have "printable it" by simp
  note shown = printable_text [OF this]
  show ?thesis using Some get shown sv id
    by (simp add: ngx_http_lookaround_getitem_def copy_id_def c_str_id render_healthy)
qed

text \<open>The JSON array of a list of items, and the buffer the search leaves for it.\<close>

fun comma_list :: "string list \<Rightarrow> string" where
  "comma_list [] = []"
| "comma_list [s] = s"
| "comma_list (s # t # ss) = s @ '','' @ comma_list (t # ss)"

definition json_array :: "nla_data_item list \<Rightarrow> string" where
  "json_array its = ''['' @ comma_list (map item_text its) @ '']''"

lemma json_list_comma: "its \<noteq> [] \<Longrightarrow> json_list its = comma_list (map item_text its) @ '',''"
proof (induction its)
  case (Cons it its)
  then show ?case by (cases its) (simp_all add: json_list_def)
qed simp

lemma json_array_length: "length (json_array its) \<le> length (json_list its) + 2"
  using json_list_comma [of its] by (cases "its = []") (simp_all add: json_array_def)

lemma close_list_json: "close_list (CHR ''['' # json_list its) = json_array its"
proof (cases "its = []")
  case True
  then show ?thesis by (simp add: close_list_def json_list_def json_array_def)
next
  case False
  then show ?thesis using json_list_comma [OF False] by (simp add: close_list_def json_array_def butlast_append)
qed

lemma json_list_length:
  "\<forall>it \<in> set its. printable it \<Longrightarrow> length (json_list its) \<le> 157 * length its"
proof (induction its)
  case (Cons it its)
  then show ?case using printable_text(2) [of it] by (simp add: json_list_def)
qed (simp add: json_list_def)

definition search_rect :: "ngx_services \<Rightarrow> string \<Rightarrow> string \<Rightarrow> string \<Rightarrow> nla_rect c_result" where
  "search_rect sv sLat sLon sRadius = fn_v_GetRectFromLocRadius (fp_round sv) (fp_cos sv) (request_loc sLat sLon)
     (fp_round sv (fp_round sv (real_of_int (ngx_atofp sRadius 6)) / 1000000))"

lemma lookaround_complete:
  assumes "ngx_http_arg (req_args r) ''lat'' = Some sLat" "ngx_http_arg (req_args r) ''lon'' = Some sLon"
    and "ngx_http_arg (req_args r) ''radius'' = Some sRadius" "search_rect sv sLat sLon sRadius = Inr rect"
    and "0 < int_arg r ''count'' 50" "int_arg r ''count'' 50 < 10000" "healthy sv" "req_method r = NGX_HTTP_GET"
  shows "ngx_http_lookaround_lookaround sv fu st r =
    (let n = int_arg r ''count'' 50 in
     bindr (root_of st) (\<lambda>rt.
     bindr (ngx_http_lookaround_get_around_data (list_fuel fu) (tree_fuel fu) st rt rect (int_arg r ''status'' (- 1))
         (int_arg r ''type'' (- 1)) n \<lparr>p_conf = req_conf r, sz_json = ''['', json_size = nat n * 200, ex_count = 0\<rparr>) (\<lambda>ex'.
       if length (close_list (sz_json ex')) + 1 > nat n * 200 then Inl BufferOverflow
       else Inr (answer sv (close_list (sz_json ex')) CT_JSON))))"
proof -
  have "pool_alloc sv 0 k" for k using assms(7) by (simp add: healthy_def)
  with assms show ?thesis
    by (simp add: ngx_http_lookaround_lookaround_def request_loc_def search_rect_def render_healthy Let_def cong: if_cong)
qed

text \<open>A server and a search for the example.\<close>

definition demo_services :: ngx_services where
  "demo_services = \<lparr>discard_request_body = NGX_OK, set_content_type = NGX_OK, send_header = (\<lambda>h. NGX_OK),
     output_filter = (\<lambda>s. NGX_OK), pool_alloc = (\<lambda>n k. True), ngx_time = 1700000000, fp_round = (\<lambda>x. x), fp_cos = (\<lambda>x. 1)\<rparr>"

definition demo_search :: nla_request where
  "demo_search = \<lparr>req_method = NGX_HTTP_GET, req_uri = ''/lookaround'',
     req_args = ''lat=39.9042&lon=116.4074&radius=1&type=2'', req_conf = Some demo_conf\<rparr>"

lemma demo_healthy: "healthy demo_services"
  by (simp add: healthy_def demo_services_def)

lemma demo_args:
  "ngx_http_arg (req_args demo_search) ''lat'' = Some ''39.9042''" "ngx_http_arg (req_args demo_search) ''lon'' = Some ''116.4074''"
  "ngx_http_arg (req_args demo_search) ''radius'' = Some ''1''" "ngx_http_arg (req_args demo_search) ''type'' = Some ''2''"
  "ngx_http_arg (req_args demo_search) ''status'' = None" "ngx_http_arg (req_args demo_search) ''count'' = None"
  by code_simp+

lemma demo_numbers:
  "ngx_atofp ''39.9042'' 6 = 39904200" "ngx_atofp ''116.4074'' 6 = 116407400" "ngx_atofp ''1'' 6 = 1000000" "ngx_atoi ''2'' = 2"
  by code_simp+

lemma demo_rect:
  "search_rect demo_services ''39.9042'' ''116.4074'' ''1'' =
    Inr \<lparr>lt = \<lparr>lat = 39895207, lon = 116398408\<rparr>, rb = \<lparr>lat = 39913193, lon = 116416392\<rparr>\<rparr>"
proof -
  have "\<lfloor>1 / NLA_EARTH_RADIUS * 1000000 * 180 / NLA_PI\<rfloor> = 8992"
    by (simp add: floor_eq_iff NLA_EARTH_RADIUS_def NLA_PI_def)
  then show ?thesis
    by (simp add: search_rect_def fn_v_GetRectFromLocRadius_def demo_services_def request_loc_def demo_numbers wrap32_def
        c_double_to_int_def c_trunc_def is_int32_def fn_x_LimitAdd_def NLA_EARTH_RADIUS_def NLA_PI_def Let_def)
qed

definition demo_fuel :: nla_fuel where "demo_fuel = \<lparr>tree_fuel = 3, list_fuel = 2\<rparr>"

definition demo_set :: "string \<Rightarrow> nla_request" where
  "demo_set as = \<lparr>req_method = NGX_HTTP_GET, req_uri = ''/setitem'', req_args = as, req_conf = Some demo_conf\<rparr>"

lemma demo_set_args:
  "ngx_http_arg ''id=car7&lat=39.9042&lon=116.4074&status=1&type=2'' ''id'' = Some ''car7''"
  "ngx_http_arg ''id=car7&lat=39.9042&lon=116.4074&status=1&type=2'' ''lat'' = Some ''39.9042''"
  "ngx_http_arg ''id=car7&lat=39.9042&lon=116.4074&status=1&type=2'' ''lon'' = Some ''116.4074''"
  "ngx_http_arg ''id=car7&lat=39.9042&lon=116.4074&status=1&type=2'' ''status'' = Some ''1''"
  "ngx_http_arg ''id=car7&lat=39.9042&lon=116.4074&status=1&type=2'' ''type'' = Some ''2''"
  by code_simp+

lemma demo_set_handled:
  assumes "ngx_http_lookaround_setdataloc 3 mm_segment 1700000000 (Some demo_conf) st0 ''car7'' beijing 1 2 = Inr st"
  shows "ngx_http_lookaround_handler demo_services mm_segment demo_fuel st0
      (demo_set ''id=car7&lat=39.9042&lon=116.4074&status=1&type=2'') = Inr (st, answer demo_services ''OK'' CT_TXT)"
proof -
  let ?r = "demo_set ''id=car7&lat=39.9042&lon=116.4074&status=1&type=2''"
  have act: "fn_i_get_action (req_uri ?r) = ''setitem''" unfolding demo_set_def by code_simp
  have one: "ngx_atoi ''1'' = 1" by code_simp
  have "int_arg ?r ''status'' 0 = 1" "int_arg ?r ''type'' 0 = 2" "request_loc ''39.9042'' ''116.4074'' = beijing"
    "tree_fuel demo_fuel = 3" "ngx_time demo_services = 1700000000" "req_conf ?r = Some demo_conf" "req_method ?r = NGX_HTTP_GET"
    by (simp_all add: int_arg_def demo_set_def demo_set_args demo_numbers one wrap32_def request_loc_def beijing_def
        demo_fuel_def demo_services_def)
  with assms act handler_healthy(1) [OF demo_healthy, of ?r]
    setitem_complete [of ?r "''car7''" "''39.9042''" "''116.4074''", OF _ _ _ _ _ _ demo_healthy]
  show ?thesis by (simp add: demo_set_def demo_set_args)
qed

section \<open>Properties\<close>

text \<open>
  C7. Only a complete \<open>setitem\<close> changes anything: when the handler ends in another state, the
  request was a \<open>GET\<close> of \<open>/setitem\<close> with an id of 1 to 31 bytes, a latitude and a longitude, and
  the new state is the one \<open>setdataloc\<close> made of them.
\<close>

theorem only_setitem_changes_state:
  assumes "ngx_http_lookaround_handler sv mm fu st r = Inr (st', rep)" "st' \<noteq> st"
  shows "fn_i_get_action (req_uri r) = ''setitem'' \<and> req_method r AND NGX_HTTP_GET \<noteq> 0 \<and>
    (\<exists>k sLat sLon. ngx_http_arg (req_args r) ''id'' = Some k \<and> 0 < length k \<and> length k < NLA_DATA_ID_MAX_LEN \<and>
       ngx_http_arg (req_args r) ''lat'' = Some sLat \<and> ngx_http_arg (req_args r) ''lon'' = Some sLon \<and>
       ngx_http_lookaround_setdataloc (tree_fuel fu) mm (ngx_time sv) (req_conf r) st (c_str k) (request_loc sLat sLon)
         (int_arg r ''status'' 0) (int_arg r ''type'' 0) = Inr st')"
proof -
  have set: "fn_i_get_action (req_uri r) = ''setitem'' \<and> req_method r AND NGX_HTTP_GET \<noteq> 0 \<and>
      ngx_http_lookaround_setitem sv mm fu st r = Inr (st', rep)"
    using assms by (auto simp: ngx_http_lookaround_handler_def Let_def bindr_Inr_iff split: if_splits)
  then show ?thesis using assms(2)
    by (auto simp: ngx_http_lookaround_setitem_def Let_def bindr_Inr_iff copy_id_def request_loc_def
        split: if_splits option.splits)
qed

theorem only_setitem_changes_state_witness:
  "\<exists>st0 st rep k sLat sLon. fn_v_InitCoreData mm_segment boot_state boot_core 7 = Inr st0 \<and> st \<noteq> st0 \<and>
     ngx_http_lookaround_handler demo_services mm_segment demo_fuel st0
       (demo_set ''id=car7&lat=39.9042&lon=116.4074&status=1&type=2'') = Inr (st, rep) \<and>
     ngx_http_arg (req_args (demo_set ''id=car7&lat=39.9042&lon=116.4074&status=1&type=2'')) ''id'' = Some k \<and>
     ngx_http_lookaround_setdataloc 3 mm_segment 1700000000 (Some demo_conf) st0 (c_str k) (request_loc sLat sLon) 1 2 = Inr st"
proof -
  obtain st0 st where st: "fn_v_InitCoreData mm_segment boot_state boot_core 7 = Inr st0"
    "ngx_http_lookaround_setdataloc 3 mm_segment 1700000000 (Some demo_conf) st0 ''car7'' beijing 1 2 = Inr st"
    "items st = [''car7'' \<mapsto> car7]"
    using one_car by blast
  let ?r = "demo_set ''id=car7&lat=39.9042&lon=116.4074&status=1&type=2''"
  have "items st0 ''car7'' = None" using st(1) boot_started [of 2] by auto
  then have ne: "st \<noteq> st0" using st(3) by auto
  have one: "ngx_atoi ''1'' = 1" by code_simp
  have "int_arg ?r ''status'' 0 = 1" "int_arg ?r ''type'' 0 = 2" "tree_fuel demo_fuel = 3" "ngx_time demo_services = 1700000000"
    "req_conf ?r = Some demo_conf"
    by (simp_all add: int_arg_def demo_set_def demo_set_args demo_numbers one wrap32_def demo_fuel_def demo_services_def)
  with only_setitem_changes_state [OF demo_set_handled [OF st(2)] ne] st(1) ne demo_set_handled [OF st(2)]
  show ?thesis by (metis (no_types, lifting))
qed

text \<open>
  C3. \<open>lookaround\<close> answers with the JSON array of the right items: for a complete request on a well
  formed state, there is a list of exactly the items hooked into the tree such that the reply is
  the array of the first \<open>count\<close> of them that have the requested type and status and lie in the
  window of the request, and it fits the buffer of \<open>count * 200\<close> bytes.
\<close>

theorem lookaround_answers:
  assumes wf: "nla_wf L mm st" and conf: "req_conf r = Some cf" "nMapMaxLevel cf = L"
    and print: "\<forall>d dn. data_heap st d = Some dn \<longrightarrow> printable (data dn)"
    and args: "ngx_http_arg (req_args r) ''lat'' = Some sLat" "ngx_http_arg (req_args r) ''lon'' = Some sLon"
      "ngx_http_arg (req_args r) ''radius'' = Some sRadius" "search_rect sv sLat sLon sRadius = Inr rect"
    and count: "0 < int_arg r ''count'' 50" "int_arg r ''count'' 50 < 10000" and sv: "healthy sv" "req_method r = NGX_HTTP_GET"
  shows "\<exists>ds. distinct ds \<and> (\<forall>d. d \<in> set ds \<longleftrightarrow> (\<exists>dn a. data_heap st d = Some dn \<and> p_map_node dn = Some a)) \<and>
    (\<forall>fu. length ds < list_fuel fu \<longrightarrow> nat L < tree_fuel fu \<longrightarrow>
      ngx_http_lookaround_lookaround sv fu st r =
        Inr (answer sv (json_array (take (nat (int_arg r ''count'' 50))
          (filter (item_selected (int_arg r ''status'' (- 1)) (int_arg r ''type'' (- 1)) rect) (map (item_at st) ds)))) CT_JSON))"
proof -
  let ?n = "int_arg r ''count'' 50" let ?s = "int_arg r ''status'' (- 1)" let ?t = "int_arg r ''type'' (- 1)"
  let ?ex = "\<lparr>p_conf = req_conf r, sz_json = ''['', json_size = nat ?n * 200, ex_count = 0\<rparr>"
  obtain core where core: "g_pNLACoreData st = Some core" using wf by (auto simp: nla_wf_def)
  have n: "1 \<le> nat ?n" using count(1) by simp
  have "0 \<le> ex_count ?ex" "?n < 2 ^ 31" "length (sz_json ?ex) + 157 * nat (?n - ex_count ?ex) + 1 \<le> json_size ?ex"
    "p_conf ?ex = Some cf" using count n conf by simp_all
  from search_exact [OF wf core this(4) conf(2) print this(1-3), of ?s ?t rect]
  obtain ds where ds: "distinct ds" "\<forall>d. d \<in> set ds \<longleftrightarrow> (\<exists>dn a. data_heap st d = Some dn \<and> p_map_node dn = Some a)"
    and found: "\<And>lfuel fuel. length ds < lfuel \<Longrightarrow> nat L < fuel \<Longrightarrow>
      ngx_http_lookaround_get_around_data lfuel fuel st (p_map_root core) rect ?s ?t ?n ?ex =
        Inr (?ex\<lparr>sz_json := ''['' @ json_list (take (nat ?n) (filter (item_selected ?s ?t rect) (map (item_at st) ds))),
          ex_count := int (length (take (nat ?n) (filter (item_selected ?s ?t rect) (map (item_at st) ds))))\<rparr>)"
    by (auto simp: Let_def)
  let ?f = "take (nat ?n) (filter (item_selected ?s ?t rect) (map (item_at st) ds))"
  have "\<forall>it \<in> set ?f. printable it"
    using ds(2) print by (auto simp: item_at_def dest!: in_set_takeD)
  then have "length (json_list ?f) \<le> 157 * nat ?n" using json_list_length [of ?f] by (simp add: min_def split: if_splits)
  moreover have "length (json_array ?f) \<le> length (json_list ?f) + 2" by (rule json_array_length)
  ultimately have fits: "\<not> length (close_list (''['' @ json_list ?f)) + 1 > nat ?n * 200"
    using n by (simp add: close_list_json)
  have "ngx_http_lookaround_lookaround sv fu st r = Inr (answer sv (json_array ?f) CT_JSON)"
    if "length ds < list_fuel fu" "nat L < tree_fuel fu" for fu
    using lookaround_complete [OF args count sv, of fu st] found [OF that] fits core
    by (simp add: root_of_def Let_def close_list_json)
  with ds show ?thesis by blast
qed

theorem lookaround_answers_witness:
  "\<exists>st0 st. fn_v_InitCoreData mm_segment boot_state boot_core 7 = Inr st0 \<and>
     ngx_http_lookaround_setdataloc 3 mm_segment 1700000000 (Some demo_conf) st0 ''car7'' beijing 1 2 = Inr st \<and>
     ngx_http_lookaround_lookaround demo_services \<lparr>tree_fuel = 3, list_fuel = 2\<rparr> st demo_search =
       Inr (answer demo_services (''['' @ item_text car7 @ '']'') CT_JSON)"
proof -
  obtain st0 st d dn where st: "fn_v_InitCoreData mm_segment boot_state boot_core 7 = Inr st0"
    "ngx_http_lookaround_setdataloc 3 mm_segment 1700000000 (Some demo_conf) st0 ''car7'' beijing 1 2 = Inr st"
    "nla_wf 2 mm_segment st" and d: "data_heap st d = Some dn" "data dn = car7" "p_map_node dn \<noteq> None"
    "\<forall>x. x \<noteq> d \<longrightarrow> data_heap st x = None"
    using one_car by blast
  let ?rect = "\<lparr>lt = \<lparr>lat = 39895207, lon = 116398408\<rparr>, rb = \<lparr>lat = 39913193, lon = 116416392\<rparr>\<rparr>"
  have "printable car7" by (simp add: printable_def item_ok_def car7_def fresh_item_def beijing_def is_int32_def is_int64_def)
  then have print: "\<forall>x xn. data_heap st x = Some xn \<longrightarrow> printable (data xn)" using d by (metis option.distinct(1) option.inject)
  have sel: "item_selected (- 1) 2 ?rect car7"
    by (simp add: item_selected_def fn_b_IsLocInRC_def car7_def fresh_item_def beijing_def)
  have arg: "int_arg demo_search ''count'' 50 = 50" "int_arg demo_search ''type'' (- 1) = 2" "int_arg demo_search ''status'' (- 1) = - 1"
    by (simp_all add: int_arg_def demo_args demo_numbers wrap32_def)
  have r: "req_conf demo_search = Some demo_conf" "nMapMaxLevel demo_conf = 2" "req_method demo_search = NGX_HTTP_GET"
    by (simp_all add: demo_search_def demo_conf_def)
  from lookaround_answers [OF st(3) r(1,2) print demo_args(1-3) demo_rect _ _ demo_healthy r(3)] arg
  obtain ds where ds: "distinct ds" "\<forall>x. x \<in> set ds \<longleftrightarrow> (\<exists>xn a. data_heap st x = Some xn \<and> p_map_node xn = Some a)"
    and reply: "\<forall>fu. length ds < list_fuel fu \<longrightarrow> 2 < tree_fuel fu \<longrightarrow>
      ngx_http_lookaround_lookaround demo_services fu st demo_search =
        Inr (answer demo_services (json_array (take 50 (matching st (- 1) 2 ?rect ds))) CT_JSON)"
    by auto
  have "set ds = {d}" using ds(2) d by (auto; metis option.distinct(1))
  with ds(1) have "ds = [d]" by (rule distinct_single)
  then have "ngx_http_lookaround_lookaround demo_services \<lparr>tree_fuel = 3, list_fuel = 2\<rparr> st demo_search =
       Inr (answer demo_services (''['' @ item_text car7 @ '']'') CT_JSON)"
    using spec [OF reply, of "\<lparr>tree_fuel = 3, list_fuel = 2\<rparr>"] d(1,2) sel by (simp add: json_array_def item_at_def)
  with st show ?thesis by blast
qed

text \<open>
  C23. \<open>getitem\<close> answers with the item: for an id of 1 to 31 bytes on a well formed state the reply is
  the JSON object of the item with that id, or \<open>{}\<close> when there is none.
\<close>

theorem getitem_answers:
  assumes "nla_wf L mm st" "healthy sv" "req_method r = NGX_HTTP_GET" "fn_i_get_action (req_uri r) = ''getitem''"
    and "ngx_http_arg (req_args r) ''id'' = Some k" "k \<noteq> []" "length k < NLA_DATA_ID_MAX_LEN" "NUL \<notin> set k"
    and "\<forall>it. items st k = Some it \<longrightarrow> printable it"
  shows "ngx_http_lookaround_handler sv mm fu st r =
    Inr (st, answer sv (case items st k of None \<Rightarrow> ''{}'' | Some it \<Rightarrow> item_text it) CT_JSON)"
  using getitem_eq [OF assms(1-3,5-9)] handler_healthy(2) [OF assms(2-4)] by simp

theorem getitem_answers_witness:
  "\<exists>st0 st. fn_v_InitCoreData mm_segment boot_state boot_core 7 = Inr st0 \<and>
     ngx_http_lookaround_setdataloc 3 mm_segment 1700000000 (Some demo_conf) st0 ''car7'' beijing 1 2 = Inr st \<and>
     ngx_http_lookaround_handler demo_services mm_segment \<lparr>tree_fuel = 3, list_fuel = 2\<rparr> st
       \<lparr>req_method = NGX_HTTP_GET, req_uri = ''/getitem'', req_args = ''id=car7'', req_conf = Some demo_conf\<rparr> =
     Inr (st, answer demo_services (item_text car7) CT_JSON)"
proof -
  obtain st0 st where st: "fn_v_InitCoreData mm_segment boot_state boot_core 7 = Inr st0"
    "ngx_http_lookaround_setdataloc 3 mm_segment 1700000000 (Some demo_conf) st0 ''car7'' beijing 1 2 = Inr st"
    "nla_wf 2 mm_segment st" "items st = [''car7'' \<mapsto> car7]"
    using one_car by blast
  let ?r = "\<lparr>req_method = NGX_HTTP_GET, req_uri = ''/getitem'', req_args = ''id=car7'', req_conf = Some demo_conf\<rparr>"
  have "printable car7" by (simp add: printable_def item_ok_def car7_def fresh_item_def beijing_def is_int32_def is_int64_def)
  moreover have "ngx_http_arg ''id=car7'' ''id'' = Some ''car7''" by code_simp
  moreover have "fn_i_get_action ''/getitem'' = ''getitem''" by code_simp
  ultimately show ?thesis
    using getitem_answers [OF st(3) demo_healthy, of ?r "''car7''" "\<lparr>tree_fuel = 3, list_fuel = 2\<rparr>"] st by auto
qed

text \<open>
  C36. An id of exactly 32 bytes passes the length test of \<open>setitem\<close> and of \<open>getitem\<close>, and its
  terminating NUL is written past the end of the local buffer.
\<close>

theorem id_of_32_bytes_overflows:
  assumes "ngx_http_arg (req_args r) ''id'' = Some k" "length k = 32"
    and "ngx_http_arg (req_args r) ''lat'' = Some sLat" "ngx_http_arg (req_args r) ''lon'' = Some sLon"
  shows "ngx_http_lookaround_setitem sv mm fu st r = Inl BufferOverflow \<and> ngx_http_lookaround_getitem sv st r = Inl BufferOverflow"
  using assms by (auto simp: ngx_http_lookaround_setitem_def ngx_http_lookaround_getitem_def copy_id_def)

theorem id_of_32_bytes_overflows_witness:
  "ngx_http_lookaround_setitem demo_services mm_segment \<lparr>tree_fuel = 3, list_fuel = 2\<rparr> boot_state
     \<lparr>req_method = NGX_HTTP_GET, req_uri = ''/setitem'',
      req_args = ''id=0123456789abcdef0123456789abcdef&lat=1&lon=2'', req_conf = Some demo_conf\<rparr> = Inl BufferOverflow"
proof -
  have "ngx_http_arg ''id=0123456789abcdef0123456789abcdef&lat=1&lon=2'' ''id'' = Some ''0123456789abcdef0123456789abcdef''"
    "ngx_http_arg ''id=0123456789abcdef0123456789abcdef&lat=1&lon=2'' ''lat'' = Some ''1''"
    "ngx_http_arg ''id=0123456789abcdef0123456789abcdef&lat=1&lon=2'' ''lon'' = Some ''2''"
    by code_simp+
  then show ?thesis
    using id_of_32_bytes_overflows [of "\<lparr>req_method = NGX_HTTP_GET, req_uri = ''/setitem'',
      req_args = ''id=0123456789abcdef0123456789abcdef&lat=1&lon=2'', req_conf = Some demo_conf\<rparr>"
      "''0123456789abcdef0123456789abcdef''" "''1''" "''2''"] by simp
qed

text \<open>
  C37. South and west are lost: a latitude text that begins with a minus sign is accepted with
  the reply \<open>OK\<close>, and the item is stored at latitude -1, a millionth of a degree south.
\<close>

theorem negative_latitude_lost:
  assumes wf: "nla_wf L mm st" and mm: "mm_contract mm" and cf: "is_int32 L" "req_conf r = Some cf" "nMapMaxLevel cf = L"
    and room: "room L st (tree_fuel fu)" and mem: "\<not> mm_refuses mm (mm_calls st) (mm_demand st)"
    and id: "ngx_http_arg (req_args r) ''id'' = Some k" "k \<noteq> []" "length k < NLA_DATA_ID_MAX_LEN" "NUL \<notin> set k" "items st k = None"
    and args: "ngx_http_arg (req_args r) ''lat'' = Some (CHR ''-'' # sLat)" "ngx_http_arg (req_args r) ''lon'' = Some sLon"
    and sv: "healthy sv" "req_method r = NGX_HTTP_GET" "is_int64 (ngx_time sv)"
  shows "\<exists>st' it. ngx_http_lookaround_setitem sv mm fu st r = Inr (st', answer sv ''OK'' CT_TXT) \<and>
    items st' k = Some it \<and> lat (loc it) = - 1"
proof -
  let ?p = "request_loc (CHR ''-'' # sLat) sLon" let ?s = "int_arg r ''status'' 0" let ?t = "int_arg r ''type'' 0"
  have int: "is_int32 ?s" "is_int32 ?t" by (rule int_arg_int32, simp add: is_int32_def)+
  from setdataloc_refines_new [OF wf mm cf(1,3) room id(3,4) int sv(3) id(5) mem]
  obtain st' where st': "ngx_http_lookaround_setdataloc (tree_fuel fu) mm (ngx_time sv) (Some cf) st k ?p ?s ?t = Inr st'"
    "items st' k = Some (fresh_item k ?p ?s ?t (ngx_time sv))" by blast
  have "lat ?p = - 1" by (simp add: request_loc_def sign_not_number wrap32_def)
  with st' setitem_complete [OF id(1-4) args sv(1,2), of mm fu st] cf(2) show ?thesis
    by (simp add: fresh_item_def)
qed

theorem negative_latitude_lost_witness:
  "\<exists>st0 st it. fn_v_InitCoreData mm_segment boot_state boot_core 7 = Inr st0 \<and>
     ngx_http_lookaround_setitem demo_services mm_segment demo_fuel st0 (demo_set ''id=sydney&lat=-33.8688&lon=151.2093'') =
       Inr (st, answer demo_services ''OK'' CT_TXT) \<and> items st ''sydney'' = Some it \<and> lat (loc it) = - 1"
proof -
  let ?r = "demo_set ''id=sydney&lat=-33.8688&lon=151.2093''"
  obtain st0 where st: "fn_v_InitCoreData mm_segment boot_state boot_core 7 = Inr st0" "nla_wf 2 mm_segment st0"
    "items st0 = Map.empty" "mm_calls st0 = 5" "mm_demand st0 = 80" using boot_started by blast
  have args: "ngx_http_arg ''id=sydney&lat=-33.8688&lon=151.2093'' ''id'' = Some ''sydney''"
    "ngx_http_arg ''id=sydney&lat=-33.8688&lon=151.2093'' ''lat'' = Some ''-33.8688''"
    "ngx_http_arg ''id=sydney&lat=-33.8688&lon=151.2093'' ''lon'' = Some ''151.2093''"
    by code_simp+
  have "\<exists>st it. ngx_http_lookaround_setitem demo_services mm_segment demo_fuel st0 ?r =
       Inr (st, answer demo_services ''OK'' CT_TXT) \<and> items st ''sydney'' = Some it \<and> lat (loc it) = - 1"
    by (rule negative_latitude_lost [where L = 2 and cf = demo_conf and sLat = "''33.8688''" and sLon = "''151.2093''"])
       (use st mm_contract_segment mm_segment_serves demo_healthy args in \<open>simp_all add: room_def is_int32_def is_int64_def
          demo_conf_def demo_set_def demo_fuel_def demo_services_def\<close>)
  with st(1) show ?thesis by blast
qed

end
