(* ===== verification/Nla_Module.thy ===== *)
theory Nla_Module
  imports Nla_Handler
begin

text \<open>
  \<^verbatim>\<open>src/src/ngx_http_lookaround_module.c\<close>: the location configuration and its three directives, the
  start of the module and its end, with the helpers of \<^verbatim>\<open>src/src/ngx_http_lookaround_util.c\<close> that
  create and delete the file behind the shared memory.

  Parameters: the allocations of the cycle's pool, the answer of \<open>mm_create\<close> (a call that fails
  makes the module call \<open>exit (1)\<close>, here \<open>Exit\<close>), the process id and the clock.
  \<open>init_conf_ctx\<close> is the loop of \<open>ngx_init_cycle\<close> that fills \<open>cycle->conf_ctx\<close>, from
  \<^verbatim>\<open>src/nginx/src/core/ngx_cycle.c\<close>: it decides what \<open>ngx_get_conf\<close> returns to the module.
\<close>

section \<open>Configuration\<close>

definition ngx_http_lookaround_create_loc_conf :: "bool \<Rightarrow> ngx_http_lookaround_loc_conf option" where
  "ngx_http_lookaround_create_loc_conf allocated =
     (if \<not> allocated then None
      else Some (\<lparr>nMapMaxLevel = 0, nMaxMemBufSize = 0, nHashSize = 0\<rparr>\<lparr>nMapMaxLevel := 0\<rparr>))"

text \<open>Merging leaves parent and child as they are.\<close>

definition ngx_http_lookaround_merge_loc_conf ::
    "ngx_http_lookaround_loc_conf \<Rightarrow> ngx_http_lookaround_loc_conf \<Rightarrow> ngx_http_lookaround_loc_conf \<times> ngx_http_lookaround_loc_conf" where
  "ngx_http_lookaround_merge_loc_conf parent child = (parent, child)"

text \<open>What a directive can change: the configuration and the content handler of the location.\<close>

record location =
  la_conf :: ngx_http_lookaround_loc_conf
  handler_installed :: bool

text \<open>\<open>args\<close> are the words of the directive, its name included; the first argument is \<open>value[1]\<close>.\<close>

definition ngx_http_lookaround_setmaxmaplevel :: "string list \<Rightarrow> location \<Rightarrow> location" where
  "ngx_http_lookaround_setmaxmaplevel args l =
     l\<lparr>handler_installed := True, la_conf := (la_conf l)\<lparr>nMapMaxLevel := wrap32 (ngx_atoi (args ! 1))\<rparr>\<rparr>"

definition ngx_http_lookaround_setmembufsize :: "string list \<Rightarrow> location \<Rightarrow> location" where
  "ngx_http_lookaround_setmembufsize args l = l\<lparr>la_conf := (la_conf l)\<lparr>nMaxMemBufSize := wrap32 (ngx_atoi (args ! 1))\<rparr>\<rparr>"

definition ngx_http_lookaround_sethashsize :: "string list \<Rightarrow> location \<Rightarrow> location" where
  "ngx_http_lookaround_sethashsize args l = l\<lparr>la_conf := (la_conf l)\<lparr>nHashSize := wrap32 (ngx_atoi (args ! 1))\<rparr>\<rparr>"

text \<open>
  The table \<open>ngx_http_lookaround_commands\<close>. \<open>NGX_CONF_1MORE\<close> makes the server refuse a directive
  without argument before the function is called; an unknown name or a refusal is \<open>None\<close>.
\<close>

definition ngx_http_lookaround_commands :: "string list \<Rightarrow> location \<Rightarrow> location option" where
  "ngx_http_lookaround_commands args l =
     (if length args < 2 then None
      else if args ! 0 = ''lookaround_set_max_map_level'' then Some (ngx_http_lookaround_setmaxmaplevel args l)
      else if args ! 0 = ''lookaround_set_mem_buf_size'' then Some (ngx_http_lookaround_setmembufsize args l)
      else if args ! 0 = ''lookaround_set_hash_size'' then Some (ngx_http_lookaround_sethashsize args l)
      else None)"

fun read_directives :: "string list list \<Rightarrow> location \<Rightarrow> location option" where
  "read_directives [] l = Some l"
| "read_directives (d # ds) l = Option.bind (ngx_http_lookaround_commands d l) (read_directives ds)"

section \<open>Start and end\<close>

abbreviation (input) MM_BUF_ID :: int where "MM_BUF_ID \<equiv> 1"
abbreviation (input) NLA_MAX_PATH :: nat where "NLA_MAX_PATH \<equiv> 256"

datatype 'a startup = Exit int | Fault fault | Started 'a

definition mm_path :: "int \<Rightarrow> int \<Rightarrow> string" where
  "mm_path iID iPID = ''/tmp/nla'' @ ''-'' @ sprintf_d iPID @ ''-'' @ sprintf_d iID"

text \<open>\<open>mm_create\<close> is asked for a size and a path; the result is the path of the segment.\<close>

definition fn_p_create_mm :: "(nat \<Rightarrow> string \<Rightarrow> bool) \<Rightarrow> nat \<Rightarrow> int \<Rightarrow> int \<Rightarrow> string startup" where
  "fn_p_create_mm mm_create nsize iID iPID =
     (if length (mm_path iID iPID) + 1 > NLA_MAX_PATH then Fault BufferOverflow
      else if mm_create nsize (mm_path iID iPID) then Started (mm_path iID iPID)
      else Exit 1)"

definition fn_v_del_mm_file :: "string set \<Rightarrow> int \<Rightarrow> int \<Rightarrow> string set c_result" where
  "fn_v_del_mm_file files iID iPID =
     (if length (mm_path iID iPID) + 1 > NLA_MAX_PATH then Inl BufferOverflow else Inr (files - {mm_path iID iPID}))"

record la_server_status =
  tServerStartTime :: int
  ullcTotalReq :: nat

record nla_module =
  g_pNLAMM :: string
  g_pNLAServerStatus :: la_server_status
  g_psNLAEmptyStr :: string
  g_psNLAZeroStr :: string
  g_psNLAOneStr :: string
  nla_data :: nla_state

text \<open>
  \<open>sv\<close> stands for the cycle: its pool and its clock. The first two calls of \<open>mm_calloc\<close> give the
  status and the core data; nothing looks at the pointers before they are followed.
\<close>

definition ngx_http_lookaround_init_module ::
    "ngx_services \<Rightarrow> (nat \<Rightarrow> string \<Rightarrow> bool) \<Rightarrow> mm_oracle \<Rightarrow> int \<Rightarrow> ngx_http_lookaround_loc_conf option \<Rightarrow> nla_module startup" where
  "ngx_http_lookaround_init_module sv mm_create mm ipid pConf =
     (case bindr (fn_pns_get_ngxStr sv 0 []) (\<lambda>(s0, n0).
           bindr (fn_pns_get_ngxStr sv n0 ''0'') (\<lambda>(s1, n1).
           bindr (fn_pns_get_ngxStr sv n1 ''1'') (\<lambda>(s2, n2). Inr (s0, s1, s2)))) of
        Inl f \<Rightarrow> Fault f
      | Inr (s0, s1, s2) \<Rightarrow>
          (case fn_p_create_mm mm_create MM_BUF_SIZE MM_BUF_ID ipid of
             Exit c \<Rightarrow> Exit c
           | Fault f \<Rightarrow> Fault f
           | Started path \<Rightarrow>
               let status = mm 0 24; core = mm 1 32;
                   st0 = \<lparr>map_heap = Map.empty, data_heap = Map.empty, mm_calls = 2, g_pNLACoreData = None\<rparr>;
                   zero = \<lparr>p_map_root = None, p_data_head = None, p_id2data_map = None, lock = 0\<rparr>
               in if core = None then Fault NullDeref
                  else case fn_v_InitCoreData mm st0 zero (case pConf of None \<Rightarrow> 19997 | Some cf \<Rightarrow> nHashSize cf) of
                      Inl f \<Rightarrow> Fault f
                    | Inr st \<Rightarrow>
                        if status = None then Fault NullDeref
                        else Started \<lparr>g_pNLAMM = path,
                          g_pNLAServerStatus = \<lparr>tServerStartTime = ngx_time sv, ullcTotalReq = 0\<rparr>,
                          g_psNLAEmptyStr = s0, g_psNLAZeroStr = s1, g_psNLAOneStr = s2, nla_data = st\<rparr>))"

definition ngx_http_lookaround_init_master :: int where
  "ngx_http_lookaround_init_master = NGX_OK"

text \<open>The end: the file of this process id is deleted and \<open>mm_destroy\<close> gives the segment back.\<close>

definition ngx_http_lookaround_destroy ::
    "(string \<Rightarrow> string set \<Rightarrow> string set) \<Rightarrow> string set \<Rightarrow> nla_module \<Rightarrow> int \<Rightarrow> string set c_result" where
  "ngx_http_lookaround_destroy mm_destroy files m ipid =
     bindr (fn_v_del_mm_file files MM_BUF_ID ipid) (\<lambda>files'. Inr (mm_destroy (g_pNLAMM m) files'))"

section \<open>What the server gives as configuration\<close>

datatype module_type = NGX_CORE_MODULE | NGX_HTTP_MODULE | NGX_EVENT_MODULE | NGX_CONF_MODULE

record 'c ngx_module =
  m_type :: module_type
  m_create_conf :: "'c option option"

text \<open>
  The loop over \<open>ngx_modules\<close>: the context of a core module with a \<open>create_conf\<close> gets what that
  returns, \<open>None\<close> (the start is given up) when it returns \<open>NULL\<close>; \<open>ctx\<close> is zeroed before.
  \<open>m_create_conf\<close> is \<open>None\<close> without such a function, else what it returns.
\<close>

fun init_conf_ctx :: "nat \<Rightarrow> 'c ngx_module list \<Rightarrow> 'c option list \<Rightarrow> 'c option list option" where
  "init_conf_ctx i [] ctx = Some ctx"
| "init_conf_ctx i (m # ms) ctx =
     (if m_type m \<noteq> NGX_CORE_MODULE then init_conf_ctx (Suc i) ms ctx
      else case m_create_conf m of
          None \<Rightarrow> init_conf_ctx (Suc i) ms ctx
        | Some None \<Rightarrow> None
        | Some (Some rv) \<Rightarrow> init_conf_ctx (Suc i) ms (ctx[i := Some rv]))"


section \<open>Lemmas\<close>

lemma mm_path_fits: "is_int32 iID \<Longrightarrow> is_int32 iPID \<Longrightarrow> length (mm_path iID iPID) + 1 \<le> NLA_MAX_PATH"
  using sprintf_d_length_32 [of iID] sprintf_d_length_32 [of iPID] by (simp add: mm_path_def)

lemma nat_dec_inj: "nat_dec m = nat_dec n \<Longrightarrow> m = n"
  by (metis dec_val_nat_dec of_nat_eq_iff)

lemma nat_dec_not_minus: "nat_dec n \<noteq> CHR ''-'' # s"
proof
  assume "nat_dec n = CHR ''-'' # s"
  then have "CHR ''-'' \<in> set (nat_dec n)" by (metis list.set_intros(1))
  then have "is_digit (CHR ''-'')" by (rule nat_dec_digits)
  then show False by (simp add: is_digit_def less_eq_char_def)
qed

lemma sprintf_d_inj:
  assumes eq: "sprintf_d x = sprintf_d y"
  shows "x = y"
proof -
  consider "x < 0" "y < 0" | "x < 0" "0 \<le> y" | "0 \<le> x" "y < 0" | "0 \<le> x" "0 \<le> y" by linarith
  then show ?thesis
  proof cases
    case 1
    with eq have "nat (- x) = nat (- y)" by (intro nat_dec_inj) (simp add: sprintf_d_def)
    with 1 show ?thesis by simp
  next
    case 2
    with eq show ?thesis using nat_dec_not_minus [of "nat y" "nat_dec (nat (- x))"] by (simp add: sprintf_d_def)
  next
    case 3
    with eq show ?thesis using nat_dec_not_minus [of "nat x" "nat_dec (nat (- y))"] by (simp add: sprintf_d_def)
  next
    case 4
    with eq have "nat x = nat y" by (intro nat_dec_inj) (simp add: sprintf_d_def)
    with 4 show ?thesis by simp
  qed
qed

lemma mm_path_inj: "mm_path i p = mm_path i q \<longleftrightarrow> p = q"
  by (auto simp: mm_path_def dest: sprintf_d_inj)

lemma init_conf_ctx_other:
  "init_conf_ctx i ms ctx = Some ctx' \<Longrightarrow> j < i \<or> (j < i + length ms \<and> m_type (ms ! (j - i)) \<noteq> NGX_CORE_MODULE) \<Longrightarrow>
   j < length ctx \<Longrightarrow> ctx' ! j = ctx ! j"
proof (induction i ms ctx rule: init_conf_ctx.induct)
  case (2 i m ms ctx)
  have rest: "j < Suc i \<or> j < Suc i + length ms \<and> m_type (ms ! (j - Suc i)) \<noteq> NGX_CORE_MODULE"
  proof (cases "j \<le> i")
    case False
    then have "j - i = Suc (j - Suc i)" by simp
    with 2(5) False show ?thesis by auto
  qed simp
  show ?case
  proof (cases "m_type m = NGX_CORE_MODULE")
    case True
    with 2(5) have "j \<noteq> i" by auto
    with 2 rest True show ?thesis by (auto split: option.splits)
  next
    case False
    with 2 rest show ?thesis by simp
  qed
qed simp

section \<open>Properties\<close>

text \<open>
  C25. The module starts: with memory in the pool and in MM and a positive hash size, \<open>init_module\<close>
  neither exits nor faults, the data is well formed for every depth of the tree and holds no item,
  the path of the segment fits its buffer and the counter of requests is zero.
\<close>

theorem init_module_starts:
  assumes "pool_alloc sv = (\<lambda>n k. True)" "mm_create MM_BUF_SIZE (mm_path MM_BUF_ID ipid)" "is_int32 ipid"
    and h: "h = (case pConf of None \<Rightarrow> 19997 | Some cf \<Rightarrow> nHashSize cf)" "0 < h" "h < 2 ^ 31"
    and mem: "\<not> mm_refuses mm 0 (80 + 16 * nat h)"
  shows "\<exists>m. ngx_http_lookaround_init_module sv mm_create mm ipid pConf = Started m \<and>
    nla_wf L mm (nla_data m) \<and> items (nla_data m) = Map.empty \<and> ullcTotalReq (g_pNLAServerStatus m) = 0 \<and>
    g_pNLAMM m = mm_path MM_BUF_ID ipid \<and> length (g_pNLAMM m) < NLA_MAX_PATH"
proof -
  let ?st = "\<lparr>map_heap = Map.empty, data_heap = Map.empty, mm_calls = 2, g_pNLACoreData = None\<rparr>"
  let ?core = "\<lparr>p_map_root = None, p_data_head = None, p_id2data_map = None, lock = 0\<rparr>"
  have ok: "mm k n \<noteq> None" if "n \<le> 80" for k n using mem that by (auto simp: mm_refuses_def)
  have "\<not> mm_refuses mm (mm_calls ?st) (80 + 16 * nat h)" using mem mm_refuses_mono by auto
  from InitCoreData_wf [OF _ _ _ h(2,3) this, where core = ?core and L = L]
  obtain st where st: "fn_v_InitCoreData mm ?st ?core h = Inr st" "nla_wf L mm st" "items st = Map.empty" by auto
  have path: "length (mm_path MM_BUF_ID ipid) + 1 \<le> NLA_MAX_PATH" by (rule mm_path_fits) (simp_all add: is_int32_def assms(3) [unfolded is_int32_def])
  obtain a b where "mm 0 24 = Some a" "mm 1 32 = Some b" using ok [of 24 0] ok [of 32 1] by auto
  with st path assms(1,2) show ?thesis
    by (simp add: ngx_http_lookaround_init_module_def fn_pns_get_ngxStr_def fn_p_create_mm_def h(1) [symmetric])
qed

theorem init_module_starts_witness:
  "\<exists>m. ngx_http_lookaround_init_module demo_services (\<lambda>n p. True) mm_segment 4711 None = Started m \<and>
    nla_wf 12 mm_segment (nla_data m) \<and> items (nla_data m) = Map.empty \<and> ullcTotalReq (g_pNLAServerStatus m) = 0 \<and>
    g_pNLAMM m = mm_path MM_BUF_ID 4711 \<and> length (g_pNLAMM m) < NLA_MAX_PATH"
  by (rule init_module_starts [where h = 19997])
     (simp_all add: demo_services_def is_int32_def mm_segment_serves)

text \<open>
  The directive for the hash size has no effect: \<open>ngx_init_cycle\<close> fills the context of core
  modules only, so \<open>ngx_get_conf\<close> gives the module (an HTTP module) \<open>NULL\<close> and it starts as if
  nothing had been configured, with a table of 19997 buckets.
\<close>

theorem hash_size_directive_ignored:
  assumes "init_conf_ctx 0 ms (replicate (length ms) None) = Some ctx"
    and "j < length ms" "m_type (ms ! j) = NGX_HTTP_MODULE"
  shows "ngx_http_lookaround_init_module sv mm_create mm ipid (map_option cast (ctx ! j)) =
    ngx_http_lookaround_init_module sv mm_create mm ipid None"
  using init_conf_ctx_other [OF assms(1), of j] assms(2,3) by simp

theorem hash_size_directive_ignored_witness:
  "init_conf_ctx 0 [\<lparr>m_type = NGX_CORE_MODULE, m_create_conf = Some (Some demo_conf)\<rparr>,
       \<lparr>m_type = NGX_HTTP_MODULE, m_create_conf = None\<rparr>] [None, None] = Some [Some demo_conf, None] \<and>
   ngx_http_lookaround_init_module demo_services (\<lambda>n p. True) mm_segment 4711 (map_option id ([Some demo_conf, None] ! 1)) =
     ngx_http_lookaround_init_module demo_services (\<lambda>n p. True) mm_segment 4711 None"
proof -
  let ?ms = "[\<lparr>m_type = NGX_CORE_MODULE, m_create_conf = Some (Some demo_conf)\<rparr>, \<lparr>m_type = NGX_HTTP_MODULE, m_create_conf = None\<rparr>]"
  have run: "init_conf_ctx 0 ?ms (replicate (length ?ms) None) = Some [Some demo_conf, None]" by simp
  from hash_size_directive_ignored [OF run, of 1 demo_services "\<lambda>n p. True" mm_segment 4711 id] run show ?thesis by simp
qed

text \<open>
  The three directives set the three members of the configuration from their decimal argument,
  and only \<open>lookaround_set_max_map_level\<close> makes the module handle the location.
\<close>

theorem directives_configure:
  assumes "int a < 2 ^ 31" "int b < 2 ^ 31" "int c < 2 ^ 31"
  shows "read_directives [[''lookaround_set_mem_buf_size'', nat_dec b], [''lookaround_set_hash_size'', nat_dec c]] l =
      Some (l\<lparr>la_conf := (la_conf l)\<lparr>nMaxMemBufSize := int b, nHashSize := int c\<rparr>\<rparr>) \<and>
    read_directives [[''lookaround_set_max_map_level'', nat_dec a], [''lookaround_set_mem_buf_size'', nat_dec b],
        [''lookaround_set_hash_size'', nat_dec c]] l =
      Some \<lparr>la_conf = \<lparr>nMapMaxLevel = int a, nMaxMemBufSize = int b, nHashSize = int c\<rparr>, handler_installed = True\<rparr>"
proof -
  have "wrap32 (ngx_atoi (nat_dec n)) = int n" if "int n < 2 ^ 31" for n
  proof -
    have "ngx_atoi (nat_dec n) = int n" using that by (intro atoi_nat_dec) simp
    then show ?thesis using that by (simp add: wrap32_id is_int32_def)
  qed
  then show ?thesis using assms
    by (simp add: ngx_http_lookaround_commands_def ngx_http_lookaround_setmaxmaplevel_def
        ngx_http_lookaround_setmembufsize_def ngx_http_lookaround_sethashsize_def)
qed

theorem directives_configure_witness:
  "read_directives [[''lookaround_set_max_map_level'', nat_dec 12], [''lookaround_set_mem_buf_size'', nat_dec 64],
        [''lookaround_set_hash_size'', nat_dec 19997]] \<lparr>la_conf = demo_conf, handler_installed = False\<rparr> =
      Some \<lparr>la_conf = \<lparr>nMapMaxLevel = 12, nMaxMemBufSize = 64, nHashSize = 19997\<rparr>, handler_installed = True\<rparr>"
  using directives_configure [of 12 64 19997 "\<lparr>la_conf = demo_conf, handler_installed = False\<rparr>"] by simp

text \<open>
  The file of the shared memory is deleted only under the process id that created it: a process
  with another id (the server forks between the start of the module and its end when it runs as
  a daemon) leaves the file in place.
\<close>

theorem other_process_keeps_mm_file:
  assumes "is_int32 p" "is_int32 q" "files = {mm_path MM_BUF_ID p}"
  shows "fn_v_del_mm_file files MM_BUF_ID q = Inr (if p = q then {} else files)"
proof -
  have "length (mm_path MM_BUF_ID q) + 1 \<le> NLA_MAX_PATH" using assms(2) by (intro mm_path_fits) (simp_all add: is_int32_def)
  then show ?thesis using assms(3) mm_path_inj [of MM_BUF_ID p q] by (auto simp: fn_v_del_mm_file_def)
qed

theorem other_process_keeps_mm_file_witness:
  "fn_v_del_mm_file {mm_path MM_BUF_ID 4711} MM_BUF_ID 4712 = Inr {mm_path MM_BUF_ID 4711}"
  using other_process_keeps_mm_file [of 4711 4712 "{mm_path MM_BUF_ID 4711}"] by (simp add: is_int32_def)

end
