(* ===== verification/Ngx_Codec.thy ===== *)
theory Ngx_Codec
  imports Ngx_String "HOL-Library.Multiset"
begin

text \<open>
  The encodings of \<^verbatim>\<open>src/nginx/src/core/ngx_string.c\<close>: hexadecimal dumps, base64, UTF-8, the escapes of
  URIs and of HTML, and the insertion sort at the end of that file.

  A function that writes through \<open>dst\<close> returns the bytes written; a read past the end of the bytes
  it was given is \<open>BufferOverflow\<close>. Shifts and masks are \<open>drop_bit\<close>, \<open>push_bit\<close> and \<open>take_bit\<close> on the
  value of a byte.

  Lemmas: round trips (\<open>base64_round_trip\<close>, \<open>uri_round_trip\<close>, \<open>utf8_decode_encode\<close>), which bytes
  each escape table escapes, how long the output is, and that the sort is the stable sort.
\<close>

unbundle bit_operations_syntax

abbreviation byte :: "char \<Rightarrow> nat" where "byte \<equiv> of_char"

section \<open>Hexadecimal dump\<close>

definition hex :: string where "hex = ''0123456789abcdef''"

fun ngx_hex_dump :: "string \<Rightarrow> string" where
  "ngx_hex_dump [] = []"
| "ngx_hex_dump (c # src) = hex ! drop_bit 4 (byte c) # hex ! take_bit 4 (byte c) # ngx_hex_dump src"

section \<open>Base64\<close>

definition basis64 :: string where
  "basis64 = ''ABCDEFGHIJKLMNOPQRSTUVWXYZabcdefghijklmnopqrstuvwxyz0123456789+/''"

fun ngx_encode_base64 :: "string \<Rightarrow> string" where
  "ngx_encode_base64 (s0 # s1 # s2 # s) =
     basis64 ! take_bit 6 (drop_bit 2 (byte s0)) #
     basis64 ! (push_bit 4 (take_bit 2 (byte s0)) OR drop_bit 4 (byte s1)) #
     basis64 ! (push_bit 2 (take_bit 4 (byte s1)) OR drop_bit 6 (byte s2)) #
     basis64 ! take_bit 6 (byte s2) # ngx_encode_base64 s"
| "ngx_encode_base64 [s0, s1] =
     [basis64 ! take_bit 6 (drop_bit 2 (byte s0)),
      basis64 ! (push_bit 4 (take_bit 2 (byte s0)) OR drop_bit 4 (byte s1)),
      basis64 ! push_bit 2 (take_bit 4 (byte s1)), CHR ''='']"
| "ngx_encode_base64 [s0] =
     [basis64 ! take_bit 6 (drop_bit 2 (byte s0)), basis64 ! push_bit 4 (take_bit 2 (byte s0)), CHR ''='', CHR ''='']"
| "ngx_encode_base64 [] = []"

text \<open>The tables of the two decoders; 77 marks a byte that does not belong to the alphabet.\<close>

definition b64_table :: "nat list" where
  "b64_table = replicate 43 77 @ [62, 77, 77, 77, 63] @ [52..<62] @ replicate 7 77 @ [0..<26] @ replicate 6 77 @
     [26..<52] @ replicate 133 77"

definition b64url_table :: "nat list" where
  "b64url_table = replicate 45 77 @ [62, 77, 77] @ [52..<62] @ replicate 7 77 @ [0..<26] @ replicate 4 77 @ [63, 77] @
     [26..<52] @ replicate 133 77"

text \<open>The first loop: the number of bytes before the end or the first \<open>=\<close>.\<close>

fun b64_len :: "nat list \<Rightarrow> string \<Rightarrow> nat option" where
  "b64_len basis [] = Some 0"
| "b64_len basis (c # src) =
     (if c = CHR ''='' then Some 0
      else if basis ! byte c = 77 then None
      else map_option Suc (b64_len basis src))"

definition b64_first :: "nat list \<Rightarrow> char \<Rightarrow> char \<Rightarrow> char" where
  "b64_first basis s0 s1 = char_of (push_bit 2 (basis ! byte s0) OR drop_bit 4 (basis ! byte s1))"

definition b64_second :: "nat list \<Rightarrow> char \<Rightarrow> char \<Rightarrow> char" where
  "b64_second basis s1 s2 = char_of (push_bit 4 (basis ! byte s1) OR drop_bit 2 (basis ! byte s2))"

definition b64_third :: "nat list \<Rightarrow> char \<Rightarrow> char \<Rightarrow> char" where
  "b64_third basis s2 s3 = char_of (push_bit 6 (basis ! byte s2) OR basis ! byte s3)"

fun b64_decode :: "nat list \<Rightarrow> string \<Rightarrow> string" where
  "b64_decode basis (s0 # s1 # s2 # s3 # s) =
     b64_first basis s0 s1 # b64_second basis s1 s2 # b64_third basis s2 s3 # b64_decode basis s"
| "b64_decode basis [s0, s1, s2] = [b64_first basis s0 s1, b64_second basis s1 s2]"
| "b64_decode basis [s0, s1] = [b64_first basis s0 s1]"
| "b64_decode basis s = []"

definition ngx_decode_base64_internal :: "nat list \<Rightarrow> string \<Rightarrow> string option" where
  "ngx_decode_base64_internal basis src =
     (case b64_len basis src of
        None \<Rightarrow> None
      | Some len \<Rightarrow> if len mod 4 = 1 then None else Some (b64_decode basis (take len src)))"

definition ngx_decode_base64 :: "string \<Rightarrow> string option" where
  "ngx_decode_base64 src = ngx_decode_base64_internal b64_table src"

definition ngx_decode_base64url :: "string \<Rightarrow> string option" where
  "ngx_decode_base64url src = ngx_decode_base64_internal b64url_table src"

section \<open>UTF-8\<close>

text \<open>
  \<open>s\<close> are the bytes from \<open>*p\<close> on; the result is the value and how far \<open>*p\<close> was moved. The loop
  over the bytes that follow: \<open>len\<close> of them, \<open>k\<close> already read.
\<close>

fun utf8_tail :: "nat \<Rightarrow> nat \<Rightarrow> nat \<Rightarrow> string \<Rightarrow> (nat option \<times> nat) c_result" where
  "utf8_tail 0 u k s = Inr (Some u, k)"
| "utf8_tail (Suc len) u k [] = Inl BufferOverflow"
| "utf8_tail (Suc len) u k (c # s) =
     (if byte c < 0x80 then Inr (None, Suc k)
      else utf8_tail len (push_bit 6 u OR take_bit 6 (byte c)) (Suc k) s)"

definition ngx_utf8_decode :: "string \<Rightarrow> nat \<Rightarrow> (nat \<times> nat) c_result" where
  "ngx_utf8_decode s n =
     (case s of
        [] \<Rightarrow> Inl BufferOverflow
      | c # s' \<Rightarrow>
          let go = (\<lambda>u valid len.
                if (if n = 0 then 2 ^ 64 - 1 else n - 1) < len then Inr (0xfffffffe, 0)
                else bindr (utf8_tail len u 1 s') (\<lambda>(r, k).
                  case r of None \<Rightarrow> Inr (0xffffffff, k) | Some u' \<Rightarrow> Inr (if u' > valid then u' else 0xffffffff, k)))
          in if byte c \<ge> 0xf0 then go (take_bit 3 (byte c)) 0xffff 3
             else if byte c \<ge> 0xe0 then go (take_bit 4 (byte c)) 0x7ff 2
             else if byte c \<ge> 0xc2 then go (take_bit 5 (byte c)) 0x7f 1
             else Inr (0xffffffff, 1))"

lemma utf8_tail_moves: "utf8_tail len u k s = Inr (r, k') \<Longrightarrow> k \<le> k'"
  by (induction len u k s rule: utf8_tail.induct) (auto split: if_splits)

lemma utf8_decode_moves: "ngx_utf8_decode s n = Inr (u, k) \<Longrightarrow> u \<le> 0x10ffff \<Longrightarrow> 0 < k"
  by (auto simp: ngx_utf8_decode_def Let_def bindr_Inr_iff split: list.splits if_splits option.splits dest!: utf8_tail_moves)

text \<open>\<open>p\<close> is an index; the length given to the decoder is \<open>n\<close>, not what is left of it.\<close>

function utf8_length_loop :: "string \<Rightarrow> nat \<Rightarrow> nat \<Rightarrow> nat \<Rightarrow> nat c_result" where
  "utf8_length_loop s n p len =
     (if p < n then
        (if length s \<le> p then Inl BufferOverflow
         else if byte (s ! p) < 0x80 then utf8_length_loop s n (Suc p) (Suc len)
         else case ngx_utf8_decode (drop p s) n of
             Inl f \<Rightarrow> Inl f
           | Inr (u, k) \<Rightarrow> if u > 0x10ffff then Inr n else utf8_length_loop s n (p + k) (Suc len))
      else Inr len)"
  by pat_completeness auto
termination
  by (relation "measure (\<lambda>(s, n, p, len). n - p)") (auto dest: utf8_decode_moves)

declare utf8_length_loop.simps [simp del]

definition ngx_utf8_length :: "string \<Rightarrow> nat \<Rightarrow> nat c_result" where
  "ngx_utf8_length s n = utf8_length_loop s n 0 0"

text \<open>The loop \<open>while (--n)\<close>; \<open>len\<close> is a \<open>size_t\<close>.\<close>

definition size_minus :: "nat \<Rightarrow> nat \<Rightarrow> nat" where
  "size_minus a b = (a + 2 ^ 64 - b) mod 2 ^ 64"

fun utf8_cpy :: "nat \<Rightarrow> string \<Rightarrow> nat \<Rightarrow> string c_result" where
  "utf8_cpy 0 src len = Inr [NUL]"
| "utf8_cpy (Suc n) src len =
     (case src of
        [] \<Rightarrow> Inl BufferOverflow
      | c # s \<Rightarrow>
          if byte c < 0x80 then
            (if c \<noteq> NUL then bindr (utf8_cpy n s (size_minus len 1)) (\<lambda>dst. Inr (c # dst)) else Inr [NUL])
          else bindr (ngx_utf8_decode src len) (\<lambda>(u, k).
            if u > 0x10ffff then Inr [NUL]
            else bindr (utf8_cpy n (drop k src) (size_minus len k)) (\<lambda>dst. Inr (take k src @ dst))))"

definition ngx_utf8_cpystrn :: "string \<Rightarrow> nat \<Rightarrow> nat \<Rightarrow> string c_result" where
  "ngx_utf8_cpystrn src n len = (if n = 0 then Inr [] else utf8_cpy (n - 1) src len)"

section \<open>Escapes of URIs\<close>

definition escape_uri_table :: "nat list" where
  "escape_uri_table = [0xffffffff, 0x80000029, 0x00000000, 0x80000000, 0xffffffff, 0xffffffff, 0xffffffff, 0xffffffff]"

definition escape_args_table :: "nat list" where
  "escape_args_table = [0xffffffff, 0x88000869, 0x00000000, 0x80000000, 0xffffffff, 0xffffffff, 0xffffffff, 0xffffffff]"

definition escape_uri_component_table :: "nat list" where
  "escape_uri_component_table = [0xffffffff, 0xfc009fff, 0x78000001, 0xb8000001, 0xffffffff, 0xffffffff, 0xffffffff, 0xffffffff]"

definition escape_html_table :: "nat list" where
  "escape_html_table = [0xffffffff, 0x000000ad, 0x00000000, 0x80000000, 0xffffffff, 0xffffffff, 0xffffffff, 0xffffffff]"

definition escape_refresh_table :: "nat list" where
  "escape_refresh_table = [0xffffffff, 0x00000085, 0x00000000, 0x80000000, 0xffffffff, 0xffffffff, 0xffffffff, 0xffffffff]"

definition escape_memcached_table :: "nat list" where
  "escape_memcached_table = [0xffffffff, 0x00000021, 0, 0, 0, 0, 0, 0]"

definition escape_map :: "nat list list" where
  "escape_map = [escape_uri_table, escape_args_table, escape_uri_component_table, escape_html_table, escape_refresh_table,
     escape_memcached_table, escape_memcached_table]"

definition in_table :: "nat list \<Rightarrow> char \<Rightarrow> bool" where
  "in_table tbl c \<longleftrightarrow> bit (tbl ! (byte c div 32)) (byte c mod 32)"

text \<open>\<open>ngx_escape_uri\<close> with \<open>dst == NULL\<close> counts the bytes to escape; otherwise it writes.\<close>

fun escape_count :: "nat list \<Rightarrow> string \<Rightarrow> nat" where
  "escape_count escape [] = 0"
| "escape_count escape (c # src) = (if in_table escape c then Suc (escape_count escape src) else escape_count escape src)"

fun escape_write :: "nat list \<Rightarrow> string \<Rightarrow> string" where
  "escape_write escape [] = []"
| "escape_write escape (c # src) =
     (if in_table escape c
      then CHR ''%'' # hex ! drop_bit 4 (byte c) # hex ! take_bit 4 (byte c) # escape_write escape src
      else c # escape_write escape src)"

definition ngx_escape_uri :: "string \<Rightarrow> nat \<Rightarrow> string" where
  "ngx_escape_uri src type = escape_write (escape_map ! type) src"

definition ngx_escape_uri_count :: "string \<Rightarrow> nat \<Rightarrow> nat" where
  "ngx_escape_uri_count src type = escape_count (escape_map ! type) src"

text \<open>
  \<open>ngx_unescape_uri\<close>: the bytes written and the source that was not read. \<open>U_second\<close> carries the
  value of the first digit and the digit itself (\<open>*(s - 2)\<close>).
\<close>

datatype un_state = U_usual | U_quoted | U_second nat char

abbreviation (input) NGX_UNESCAPE_URI :: nat where "NGX_UNESCAPE_URI \<equiv> 1"
abbreviation (input) NGX_UNESCAPE_REDIRECT :: nat where "NGX_UNESCAPE_REDIRECT \<equiv> 2"

definition writes :: "string \<Rightarrow> string \<times> string \<Rightarrow> string \<times> string" where
  "writes cs r = (cs @ fst r, snd r)"

definition hex_byte :: "nat \<Rightarrow> char \<Rightarrow> char" where
  "hex_byte decoded ch =
     char_of (push_bit 4 decoded + (if is_digit ch then byte ch - 48 else byte (char_or_0x20 ch) - 97 + 10))"

fun unescape :: "nat \<Rightarrow> un_state \<Rightarrow> string \<Rightarrow> string \<times> string" where
  "unescape type st [] = ([], [])"
| "unescape type U_usual (ch # s) =
     (if ch = CHR ''?'' \<and> type AND (NGX_UNESCAPE_URI OR NGX_UNESCAPE_REDIRECT) \<noteq> 0 then ([ch], s)
      else if ch = CHR ''%'' then unescape type U_quoted s
      else writes [ch] (unescape type U_usual s))"
| "unescape type U_quoted (ch # s) =
     (if is_digit ch then unescape type (U_second (byte ch - 48) ch) s
      else if is_hex_lc ch then unescape type (U_second (byte (char_or_0x20 ch) - 97 + 10) ch) s
      else writes [ch] (unescape type U_usual s))"
| "unescape type (U_second decoded c1) (ch # s) =
     (if is_digit ch then
        (if type AND NGX_UNESCAPE_REDIRECT \<noteq> 0 then
           (if byte (hex_byte decoded ch) > 0x25 \<and> byte (hex_byte decoded ch) < 0x7f
            then writes [hex_byte decoded ch] (unescape type U_usual s)
            else writes [CHR ''%'', c1, ch] (unescape type U_usual s))
         else writes [hex_byte decoded ch] (unescape type U_usual s))
      else if is_hex_lc ch then
        (if type AND NGX_UNESCAPE_URI \<noteq> 0 then
           (if hex_byte decoded ch = CHR ''?'' then ([hex_byte decoded ch], s)
            else writes [hex_byte decoded ch] (unescape type U_usual s))
         else if type AND NGX_UNESCAPE_REDIRECT \<noteq> 0 then
           (if hex_byte decoded ch = CHR ''?'' then ([hex_byte decoded ch], s)
            else if byte (hex_byte decoded ch) > 0x25 \<and> byte (hex_byte decoded ch) < 0x7f
            then writes [hex_byte decoded ch] (unescape type U_usual s)
            else writes [CHR ''%'', c1, ch] (unescape type U_usual s))
         else writes [hex_byte decoded ch] (unescape type U_usual s))
      else unescape type U_usual s)"

definition ngx_unescape_uri :: "string \<Rightarrow> nat \<Rightarrow> string \<times> string" where
  "ngx_unescape_uri src type = unescape type U_usual src"

section \<open>Escapes of HTML\<close>

text \<open>\<open>ngx_escape_html\<close> with \<open>dst == NULL\<close> counts the bytes to add; otherwise it writes.\<close>

fun ngx_escape_html_count :: "string \<Rightarrow> nat" where
  "ngx_escape_html_count [] = 0"
| "ngx_escape_html_count (c # src) =
     (if c = CHR ''<'' then 3 else if c = CHR ''>'' then 3 else if c = CHR ''&'' then 4 else if c = CHR 0x22 then 5 else 0) +
     ngx_escape_html_count src"

fun ngx_escape_html :: "string \<Rightarrow> string" where
  "ngx_escape_html [] = []"
| "ngx_escape_html (c # src) =
     (if c = CHR ''<'' then ''&lt;''
      else if c = CHR ''>'' then ''&gt;''
      else if c = CHR ''&'' then ''&amp;''
      else if c = CHR 0x22 then ''&quot;''
      else [c]) @ ngx_escape_html src"

section \<open>Sorting\<close>

text \<open>
  The inner loop of \<open>ngx_sort\<close> moves the elements before index \<open>p2\<close> that are greater than \<open>p\<close> one
  place up and puts \<open>p\<close> into the gap; the outer loop does that for every index.
\<close>

fun sort_shift :: "('a \<Rightarrow> 'a \<Rightarrow> int) \<Rightarrow> 'a list \<Rightarrow> nat \<Rightarrow> 'a \<Rightarrow> 'a list" where
  "sort_shift cmp base 0 p = base[0 := p]"
| "sort_shift cmp base (Suc p2) p =
     (if cmp (base ! p2) p > 0 then sort_shift cmp (base[Suc p2 := base ! p2]) p2 p else base[Suc p2 := p])"

function sort_loop :: "('a \<Rightarrow> 'a \<Rightarrow> int) \<Rightarrow> 'a list \<Rightarrow> nat \<Rightarrow> nat \<Rightarrow> 'a list" where
  "sort_loop cmp base n p1 = (if p1 < n then sort_loop cmp (sort_shift cmp base p1 (base ! p1)) n (Suc p1) else base)"
  by pat_completeness auto
termination
  by (relation "measure (\<lambda>(cmp, base, n, p1). n - p1)") auto

declare sort_loop.simps [simp del]

text \<open>Without memory for the one element the array stays as it is.\<close>

definition ngx_sort :: "bool \<Rightarrow> 'a list \<Rightarrow> ('a \<Rightarrow> 'a \<Rightarrow> int) \<Rightarrow> 'a list" where
  "ngx_sort allocated base cmp = (if \<not> allocated then base else sort_loop cmp base (length base) 1)"

section \<open>Lemmas on bytes\<close>

lemma byte_less: "byte c < 256"
  by simp

lemma or_nat_disjoint: "(y :: nat) < 2 ^ n \<Longrightarrow> push_bit n x OR y = x * 2 ^ n + y"
proof -
  assume y: "y < 2 ^ n"
  then have "push_bit n x AND y = 0"
    by (simp add: bit_eq_iff bit_simps) (metis bit_take_bit_iff not_le take_bit_nat_eq_self)
  then show ?thesis by (simp add: disjunctive_add_eq_or [symmetric] push_bit_eq_mult)
qed

lemma hex_digit:
  assumes "n < 16"
  shows "is_digit (hex ! n) \<longleftrightarrow> n < 10" "\<not> n < 10 \<Longrightarrow> is_hex_lc (hex ! n)"
    "(if is_digit (hex ! n) then byte (hex ! n) - 48 else byte (char_or_0x20 (hex ! n)) - 97 + 10) = n"
proof -
  have "\<forall>n \<in> set [0..<16]. (is_digit (hex ! n) \<longleftrightarrow> n < 10) \<and> (\<not> n < 10 \<longrightarrow> is_hex_lc (hex ! n)) \<and>
    (if is_digit (hex ! n) then byte (hex ! n) - 48 else byte (char_or_0x20 (hex ! n)) - 97 + 10) = n"
    by code_simp
  then have "(is_digit (hex ! n) \<longleftrightarrow> n < 10) \<and> (\<not> n < 10 \<longrightarrow> is_hex_lc (hex ! n)) \<and>
    (if is_digit (hex ! n) then byte (hex ! n) - 48 else byte (char_or_0x20 (hex ! n)) - 97 + 10) = n"
    by (rule bspec) (use assms in simp)
  then show "is_digit (hex ! n) \<longleftrightarrow> n < 10" "\<not> n < 10 \<Longrightarrow> is_hex_lc (hex ! n)"
    "(if is_digit (hex ! n) then byte (hex ! n) - 48 else byte (char_or_0x20 (hex ! n)) - 97 + 10) = n" by blast+
qed

lemma b64_inverse:
  assumes "n < 64"
  shows "b64_table ! byte (basis64 ! n) = n" "basis64 ! n \<noteq> CHR ''=''"
proof -
  have "\<forall>n \<in> set [0..<64]. b64_table ! byte (basis64 ! n) = n \<and> basis64 ! n \<noteq> CHR ''=''" by code_simp
  then show "b64_table ! byte (basis64 ! n) = n" "basis64 ! n \<noteq> CHR ''=''" using assms by simp_all
qed

section \<open>Base64 round trip\<close>

text \<open>The sextets of a group, as numbers.\<close>

definition sext0 :: "char \<Rightarrow> nat" where "sext0 a = byte a div 4"
definition sext1 :: "char \<Rightarrow> nat \<Rightarrow> nat" where "sext1 a b = byte a mod 4 * 16 + b div 16"
definition sext2 :: "char \<Rightarrow> nat \<Rightarrow> nat" where "sext2 b c = byte b mod 16 * 4 + c div 64"

lemma byte_div: "byte a div 4 < 64" "byte a div 16 < 16" "byte a div 64 < 4"
  by (rule less_mult_imp_div_less, simp)+

lemma encode_index:
  "take_bit 6 (drop_bit 2 (byte a)) = sext0 a"
  "push_bit 4 (take_bit 2 (byte a)) OR drop_bit 4 (byte b) = sext1 a (byte b)"
  "push_bit 4 (take_bit 2 (byte a)) = sext1 a 0"
  "push_bit 2 (take_bit 4 (byte b)) OR drop_bit 6 (byte c) = sext2 b (byte c)"
  "push_bit 2 (take_bit 4 (byte b)) = sext2 b 0"
  "take_bit 6 (byte c) = byte c mod 64"
proof -
  show "take_bit 6 (drop_bit 2 (byte a)) = sext0 a"
    using byte_div(1) [of a] by (simp add: sext0_def take_bit_eq_mod drop_bit_eq_div)
  show "push_bit 4 (take_bit 2 (byte a)) OR drop_bit 4 (byte b) = sext1 a (byte b)"
    using byte_div(2) [of b] by (subst or_nat_disjoint) (simp_all add: sext1_def take_bit_eq_mod drop_bit_eq_div)
  show "push_bit 2 (take_bit 4 (byte b)) OR drop_bit 6 (byte c) = sext2 b (byte c)"
    using byte_div(3) [of c] by (subst or_nat_disjoint) (simp_all add: sext2_def take_bit_eq_mod drop_bit_eq_div)
qed (simp_all add: sext1_def sext2_def take_bit_eq_mod push_bit_eq_mult)

lemma sext_less: "sext0 a < 64" "b < 256 \<Longrightarrow> sext1 a b < 64" "c < 256 \<Longrightarrow> sext2 b' c < 64" "byte c' mod 64 < 64"
proof -
  show "sext1 a b < 64" if "b < 256"
  proof -
    have "byte a mod 4 \<le> 3" "b div 16 < 16" using that by simp_all
    then show ?thesis unfolding sext1_def by linarith
  qed
  show "sext2 b' c < 64" if "c < 256"
  proof -
    have "byte b' mod 16 \<le> 15" "c div 64 < 4" using that by simp_all
    then show ?thesis unfolding sext2_def by linarith
  qed
qed (simp_all add: sext0_def byte_div)

lemma sext_valid: "sext0 a \<noteq> 77" "b < 256 \<Longrightarrow> sext1 a b \<noteq> 77" "c < 256 \<Longrightarrow> sext2 b' c \<noteq> 77" "byte c' mod 64 \<noteq> 77"
  using sext_less(1) [of a] sext_less(2) [of b a] sext_less(3) [of c b'] sext_less(4) [of c'] by auto

lemma char_of_byte: "n mod 256 = byte c \<Longrightarrow> char_of n = c"
  by (metis char_of_char char_of_mod_256)

lemma b64_first_inverse: "b < 256 \<Longrightarrow> b64_first b64_table (basis64 ! sext0 a) (basis64 ! sext1 a b) = a"
proof -
  assume b: "b < 256"
  have "sext1 a b div 16 = byte a mod 4" using b by (simp add: sext1_def)
  moreover have "push_bit 2 (sext0 a) OR byte a mod 4 = byte a"
    using or_nat_disjoint [of "byte a mod 4" 2 "sext0 a"] by (simp add: sext0_def)
  ultimately show ?thesis
    using b by (simp add: b64_first_def b64_inverse sext_less drop_bit_eq_div)
qed

lemma b64_second_inverse: "c < 256 \<Longrightarrow> b64_second b64_table (basis64 ! sext1 a (byte b)) (basis64 ! sext2 b c) = b"
proof -
  assume c: "c < 256"
  have d: "sext2 b c div 4 = byte b mod 16" using c by (simp add: sext2_def)
  have "push_bit 4 (sext1 a (byte b)) OR byte b mod 16 = byte a mod 4 * 256 + byte b"
    using or_nat_disjoint [of "byte b mod 16" 4 "sext1 a (byte b)"] by (simp add: sext1_def algebra_simps)
  then show ?thesis
    using c d byte_less [of b] by (simp add: b64_second_def b64_inverse sext_less drop_bit_eq_div char_of_byte)
qed

lemma b64_third_inverse: "b64_third b64_table (basis64 ! sext2 b (byte c)) (basis64 ! (byte c mod 64)) = c"
proof -
  have "push_bit 6 (sext2 b (byte c)) OR byte c mod 64 = byte b mod 16 * 256 + byte c"
    using or_nat_disjoint [of "byte c mod 64" 6 "sext2 b (byte c)"] by (simp add: sext2_def algebra_simps)
  then show ?thesis using byte_less [of c] by (simp add: b64_third_def b64_inverse sext_less char_of_byte)
qed

lemmas b64_inverses = b64_first_inverse b64_second_inverse b64_third_inverse

text \<open>What the decoder reads of an encoded string: the part before the padding.\<close>

fun b64_body :: "string \<Rightarrow> string" where
  "b64_body (a # b # c # s) =
     basis64 ! sext0 a # basis64 ! sext1 a (byte b) # basis64 ! sext2 b (byte c) # basis64 ! (byte c mod 64) # b64_body s"
| "b64_body [a, b] = [basis64 ! sext0 a, basis64 ! sext1 a (byte b), basis64 ! sext2 b 0]"
| "b64_body [a] = [basis64 ! sext0 a, basis64 ! sext1 a 0]"
| "b64_body [] = []"

lemma encode_body: "\<exists>pad. ngx_encode_base64 s = b64_body s @ pad \<and> set pad \<subseteq> {CHR ''=''}"
proof (induction s rule: b64_body.induct)
  case (1 a b c s)
  then obtain pad where "ngx_encode_base64 s = b64_body s @ pad" "set pad \<subseteq> {CHR ''=''}" by blast
  then show ?case unfolding ngx_encode_base64.simps b64_body.simps encode_index(1,2,4,6) by (intro exI [of _ pad]) simp
next
  case (2 a b)
  show ?case unfolding ngx_encode_base64.simps b64_body.simps encode_index(1,2,5) by simp
qed (simp_all add: encode_index)

lemma b64_len_body: "set pad \<subseteq> {CHR ''=''} \<Longrightarrow> b64_len b64_table (b64_body s @ pad) = Some (length (b64_body s))"
proof (induction s rule: b64_body.induct)
  case 4
  then show ?case by (cases pad) auto
next
  case (2 a b)
  then show ?case by (cases pad) (auto simp: b64_inverse sext_less sext_valid)
next
  case (3 a)
  then show ?case by (cases pad) (auto simp: b64_inverse sext_less sext_valid)
next
  case (1 a b c s)
  then show ?case by (simp add: b64_inverse sext_less sext_valid)
qed

lemma b64_body_decodes: "b64_decode b64_table (b64_body s) = s \<and> length (b64_body s) mod 4 \<noteq> 1"
  by (induction s rule: b64_body.induct) (simp_all add: b64_inverses mod_Suc)

lemma decode_encode_base64: "ngx_decode_base64 (ngx_encode_base64 s) = Some s"
proof -
  obtain pad where pad: "ngx_encode_base64 s = b64_body s @ pad" "set pad \<subseteq> {CHR ''=''}" using encode_body by blast
  then show ?thesis using b64_len_body [OF pad(2), of s] b64_body_decodes [of s]
    by (simp add: ngx_decode_base64_def ngx_decode_base64_internal_def)
qed

section \<open>Escaping and unescaping\<close>

lemma escape_length: "length (escape_write tbl s) = length s + 2 * escape_count tbl s"
  by (induction s) auto

lemma unescape_hex:
  "unescape 0 U_usual (CHR ''%'' # hex ! drop_bit 4 (byte c) # hex ! take_bit 4 (byte c) # s) = writes [c] (unescape 0 U_usual s)"
proof -
  let ?h = "byte c div 16" let ?l = "byte c mod 16"
  have n: "drop_bit 4 (byte c) = ?h" "take_bit 4 (byte c) = ?l" by (simp_all add: drop_bit_eq_div take_bit_eq_mod)
  have less: "?h < 16" "?l < 16" using byte_div(2) [of c] by simp_all
  have byte: "hex_byte ?h (hex ! ?l) = c"
    unfolding hex_byte_def hex_digit(3) [OF less(2)] by (simp add: push_bit_eq_mult)
  have "unescape 0 U_quoted (hex ! ?h # hex ! ?l # s) = unescape 0 (U_second ?h (hex ! ?h)) (hex ! ?l # s)"
    using hex_digit [OF less(1)] by (cases "?h < 10") simp_all
  also have "\<dots> = writes [c] (unescape 0 U_usual s)"
    using hex_digit [OF less(2)] byte by (cases "?l < 10") simp_all
  finally show ?thesis unfolding n by simp
qed

lemma unescape_escape:
  "in_table tbl (CHR ''%'') \<Longrightarrow> unescape 0 U_usual (escape_write tbl s) = (s, [])"
proof (induction s)
  case (Cons c s)
  have "unescape 0 U_usual (escape_write tbl (c # s)) = writes [c] (unescape 0 U_usual (escape_write tbl s))"
  proof (cases "in_table tbl c")
    case True
    then show ?thesis by (simp only: escape_write.simps if_True unescape_hex)
  next
    case False
    with Cons.prems have "c \<noteq> CHR ''%''" by auto
    with False show ?thesis by simp
  qed
  with Cons show ?case by (simp add: writes_def)
qed simp

text \<open>Which bytes the tables escape.\<close>

definition ctl_byte :: "char \<Rightarrow> bool" where "ctl_byte c \<longleftrightarrow> byte c < 0x20 \<or> byte c \<ge> 0x7f"

lemma escape_tables_eq:
  "in_table escape_uri_table c \<longleftrightarrow> ctl_byte c \<or> c \<in> set '' #%?''"
  "in_table escape_args_table c \<longleftrightarrow> ctl_byte c \<or> c \<in> set '' #%&+;?''"
  "in_table escape_html_table c \<longleftrightarrow> ctl_byte c \<or> c \<in> {CHR '' '', CHR 0x22, CHR ''#'', CHR ''%'', CHR 0x27}"
  "in_table escape_refresh_table c \<longleftrightarrow> ctl_byte c \<or> c \<in> {CHR '' '', CHR 0x22, CHR 0x27}"
proof -
  have *: "(in_table escape_uri_table c \<longleftrightarrow> ctl_byte c \<or> c \<in> set '' #%?'') \<and>
    (in_table escape_args_table c \<longleftrightarrow> ctl_byte c \<or> c \<in> set '' #%&+;?'') \<and>
    (in_table escape_html_table c \<longleftrightarrow> ctl_byte c \<or> c \<in> {CHR '' '', CHR 0x22, CHR ''#'', CHR ''%'', CHR 0x27}) \<and>
    (in_table escape_refresh_table c \<longleftrightarrow> ctl_byte c \<or> c \<in> {CHR '' '', CHR 0x22, CHR 0x27})"
  proof (cases c)
    case (Char b0 b1 b2 b3 b4 b5 b6 b7)
    show ?thesis unfolding Char
      by (cases b7; cases b6; cases b5; cases b4; cases b3; cases b2; cases b1; cases b0)
         (simp_all add: in_table_def escape_uri_table_def escape_args_table_def escape_html_table_def escape_refresh_table_def
           ctl_byte_def bit_0)
  qed
  then show "in_table escape_uri_table c \<longleftrightarrow> ctl_byte c \<or> c \<in> set '' #%?''"
    "in_table escape_args_table c \<longleftrightarrow> ctl_byte c \<or> c \<in> set '' #%&+;?''"
    "in_table escape_html_table c \<longleftrightarrow> ctl_byte c \<or> c \<in> {CHR '' '', CHR 0x22, CHR ''#'', CHR ''%'', CHR 0x27}"
    "in_table escape_refresh_table c \<longleftrightarrow> ctl_byte c \<or> c \<in> {CHR '' '', CHR 0x22, CHR 0x27}" by blast+
qed

lemma percent_escaped: "type < 7 \<Longrightarrow> type \<noteq> 4 \<Longrightarrow> in_table (escape_map ! type) (CHR ''%'')"
proof -
  assume "type < 7" "type \<noteq> 4"
  then have "type \<in> {0, 1, 2, 3, 5, 6}" by auto
  then show ?thesis
    by (auto simp: escape_map_def in_table_def escape_uri_table_def escape_args_table_def escape_uri_component_table_def
        escape_html_table_def escape_memcached_table_def bit_0)
qed

section \<open>HTML\<close>

lemma escape_html_length: "length (ngx_escape_html s) = length s + ngx_escape_html_count s"
  by (induction s) auto

lemma escape_html_clean: "set (ngx_escape_html s) \<inter> {CHR ''<'', CHR ''>'', CHR 0x22} = {}"
  by (induction s) auto

section \<open>Sorting is the stable sort\<close>

lemma sort_shift_split:
  "\<exists>A B. pre = A @ B \<and> sort_shift cmp (pre @ y # post) (length pre) x = A @ x # B @ post \<and>
     (\<forall>b \<in> set B. cmp b x > 0) \<and> (A = [] \<or> \<not> cmp (last A) x > 0)"
proof (induction pre arbitrary: y post rule: rev_induct)
  case (snoc z pre)
  show ?case
  proof (cases "cmp z x > 0")
    case True
    obtain A B where AB: "pre = A @ B" "sort_shift cmp (pre @ z # z # post) (length pre) x = A @ x # B @ z # post"
      "\<forall>b \<in> set B. cmp b x > 0" "A = [] \<or> \<not> cmp (last A) x > 0" using snoc.IH [of z "z # post"] by blast
    have upd: "((pre @ [z]) @ y # post)[Suc (length pre) := z] = pre @ z # z # post" by (simp add: list_update_append)
    have "sort_shift cmp ((pre @ [z]) @ y # post) (length (pre @ [z])) x = A @ x # (B @ [z]) @ post"
      using True AB(2) upd by (simp add: nth_append)
    with AB True show ?thesis by (intro exI [of _ A] exI [of _ "B @ [z]"]) auto
  next
    case False
    then show ?thesis
      by (intro exI [of _ "pre @ [z]"] exI [of _ "[]"]) (simp add: nth_append list_update_append)
  qed
qed simp

text \<open>The comparison agrees with a key.\<close>

definition compares_key :: "('a \<Rightarrow> 'a \<Rightarrow> int) \<Rightarrow> ('a \<Rightarrow> 'k :: linorder) \<Rightarrow> bool" where
  "compares_key cmp key \<longleftrightarrow> (\<forall>a b. cmp a b > 0 \<longleftrightarrow> key b < key a)"

text \<open>What the outer loop has reached: a stably sorted copy of the elements before \<open>p1\<close>.\<close>

definition sorted_so_far :: "('a \<Rightarrow> 'k :: linorder) \<Rightarrow> 'a list \<Rightarrow> 'a list \<Rightarrow> bool" where
  "sorted_so_far key xs ys \<longleftrightarrow> sorted (map key ys) \<and> mset ys = mset xs \<and>
     (\<forall>k. filter (\<lambda>a. k = key a) ys = filter (\<lambda>a. k = key a) xs)"

lemma sorted_so_far_insert:
  assumes "compares_key cmp key" "sorted_so_far key xs (A @ B)" "\<forall>b \<in> set B. cmp b x > 0" "A = [] \<or> \<not> cmp (last A) x > 0"
  shows "sorted_so_far key (xs @ [x]) (A @ x # B)"
proof -
  have sorted: "sorted (map key (A @ B))" and m: "mset (A @ B) = mset xs"
    and f: "filter (\<lambda>a. k = key a) (A @ B) = filter (\<lambda>a. k = key a) xs" for k
    using assms(2) by (auto simp: sorted_so_far_def)
  have B: "key x < key b" if "b \<in> set B" for b using assms(1,3) that by (auto simp: compares_key_def)
  have A: "key a \<le> key x" if "a \<in> set A" for a
  proof -
    from that have ne: "A \<noteq> []" by auto
    then have "key (last A) \<le> key x" using assms(1,4) by (auto simp: compares_key_def not_less)
    moreover have "key a \<le> key (last A)" using sorted that ne
      by (cases A rule: rev_cases) (auto simp: sorted_append)
    ultimately show ?thesis by simp
  qed
  have "sorted (map key (A @ x # B))" using sorted A B by (auto simp: sorted_append intro: less_imp_le)
  moreover have "mset (A @ x # B) = mset (xs @ [x])" using m by (simp add: add.commute)
  moreover have "filter (\<lambda>a. k = key a) (A @ x # B) = filter (\<lambda>a. k = key a) (xs @ [x])" for k
  proof (cases "k = key x")
    case True
    then have "filter (\<lambda>a. k = key a) B = []" using B by (force simp: filter_empty_conv)
    with f [of k] True show ?thesis by simp
  next
    case False
    with f [of k] show ?thesis by simp
  qed
  ultimately show ?thesis by (simp add: sorted_so_far_def)
qed

lemma sort_loop_sorted:
  assumes "compares_key cmp key" "sorted_so_far key (take p xs) ys" "p \<le> length xs"
  shows "sorted_so_far key xs (sort_loop cmp (ys @ drop p xs) (length xs) p)"
  using assms(2,3)
proof (induction "length xs - p" arbitrary: p ys)
  case 0
  then show ?case by (simp add: sort_loop.simps)
next
  case (Suc n)
  then have p: "p < length xs" by simp
  have len: "length ys = p"
    using Suc.prems p by (metis length_take min.absorb2 size_mset sorted_so_far_def less_imp_le)
  have drop: "drop p xs = xs ! p # drop (Suc p) xs" using p by (rule Cons_nth_drop_Suc [symmetric])
  obtain A B where AB: "ys = A @ B" "sort_shift cmp (ys @ xs ! p # drop (Suc p) xs) (length ys) (xs ! p) = A @ xs ! p # B @ drop (Suc p) xs"
    "\<forall>b \<in> set B. cmp b (xs ! p) > 0" "A = [] \<or> \<not> cmp (last A) (xs ! p) > 0"
    using sort_shift_split [of ys cmp "xs ! p"] by blast
  have grown: "sorted_so_far key (take (Suc p) xs) (A @ xs ! p # B)"
    unfolding take_Suc_conv_app_nth [OF p]
    by (rule sorted_so_far_insert [OF assms(1)]) (use Suc.prems(1) AB in simp_all)
  have "sort_loop cmp (ys @ drop p xs) (length xs) p = sort_loop cmp ((A @ xs ! p # B) @ drop (Suc p) xs) (length xs) (Suc p)"
    using p len AB(2) drop by (subst sort_loop.simps) (simp add: nth_append)
  then show ?case using Suc.hyps(1) [OF _ grown] Suc.hyps(2) p by simp
qed

lemma ngx_sort_key:
  assumes "compares_key cmp key"
  shows "ngx_sort True xs cmp = sort_key key xs"
proof -
  have "sorted_so_far key xs (sort_loop cmp xs (length xs) 1)"
  proof (cases xs)
    case Nil
    then show ?thesis by (simp add: sort_loop.simps sorted_so_far_def)
  next
    case (Cons x xs')
    have "sorted_so_far key (take 1 xs) [x]" using Cons by (simp add: sorted_so_far_def)
    from sort_loop_sorted [OF assms this] Cons show ?thesis by simp
  qed
  then show ?thesis by (auto simp: ngx_sort_def sorted_so_far_def intro!: properties_for_sort_key [symmetric])
qed

section \<open>UTF-8 round trip\<close>

definition utf8_encode :: "nat \<Rightarrow> string" where
  "utf8_encode c = map char_of
     (if c < 0x80 then [c]
      else if c < 0x800 then [0xc0 + c div 64, 0x80 + c mod 64]
      else if c < 0x10000 then [0xe0 + c div 4096, 0x80 + c div 64 mod 64, 0x80 + c mod 64]
      else [0xf0 + c div 262144, 0x80 + c div 4096 mod 64, 0x80 + c div 64 mod 64, 0x80 + c mod 64])"

lemma add_multiple_mod: "m < b \<Longrightarrow> a = j * b \<Longrightarrow> (a + m) mod b = (m :: nat)"
  by simp

lemma utf8_tail_cont:
  assumes "m < 64"
  shows "utf8_tail (Suc len) u k (char_of (0x80 + m) # s) = utf8_tail len (u * 64 + m) (Suc k) s"
proof -
  have small: "byte (char_of (0x80 + m)) = 0x80 + m" using assms by (simp del: char_of_mod_256)
  have "take_bit 6 (0x80 + m) = m"
    using add_multiple_mod [of m 64 128 2] assms by (simp add: take_bit_eq_mod)
  then have "push_bit 6 u OR take_bit 6 (0x80 + m) = u * 64 + m"
    using or_nat_disjoint [of m 6 u] assms by simp
  then show ?thesis unfolding utf8_tail.simps small by simp
qed

lemma utf8_lead: "q < 32 \<Longrightarrow> take_bit 5 (0xc0 + q) = q" "q < 16 \<Longrightarrow> take_bit 4 (0xe0 + q) = q" "q < 8 \<Longrightarrow> take_bit 3 (0xf0 + q) = q"
  for q :: nat
  using add_multiple_mod [of q 32 192 6] add_multiple_mod [of q 16 224 14] add_multiple_mod [of q 8 240 30]
  by (simp_all add: take_bit_eq_mod)

lemma byte_char_of: "n < 256 \<Longrightarrow> byte (char_of n) = n"
  by simp

lemma utf8_decode_first:
  assumes "0xc2 \<le> h" "h < 256"
  shows "ngx_utf8_decode (char_of h # s) n =
    (let (u, valid, len) = (if h \<ge> 0xf0 then (take_bit 3 h, 0xffff, 3) else if h \<ge> 0xe0 then (take_bit 4 h, 0x7ff, 2)
         else (take_bit 5 h, 0x7f, 1))
     in if (if n = 0 then 2 ^ 64 - 1 else n - 1) < len then Inr (0xfffffffe, 0)
        else bindr (utf8_tail len u 1 s) (\<lambda>(r, k).
          case r of None \<Rightarrow> Inr (0xffffffff, k) | Some u' \<Rightarrow> Inr (if u' > valid then u' else 0xffffffff, k)))"
  using assms by (simp add: ngx_utf8_decode_def byte_char_of Let_def)

lemma sextets_sum:
  "(c div 4096 * 64 + c div 64 mod 64) * 64 + c mod 64 = (c :: nat)"
  "((c div 262144 * 64 + c div 4096 mod 64) * 64 + c div 64 mod 64) * 64 + c mod 64 = c"
proof -
  have d: "c div 4096 = c div 64 div 64" "c div 262144 = c div 64 div 64 div 64" by (simp_all add: div_mult2_eq [symmetric])
  show "(c div 4096 * 64 + c div 64 mod 64) * 64 + c mod 64 = c" unfolding d by simp
  show "((c div 262144 * 64 + c div 4096 mod 64) * 64 + c div 64 mod 64) * 64 + c mod 64 = c" unfolding d by simp
qed

lemma utf8_decode_encode:
  assumes "0x80 \<le> c" "c \<le> 0x10ffff" "length (utf8_encode c) \<le> n"
  shows "ngx_utf8_decode (utf8_encode c @ rest) n = Inr (c, length (utf8_encode c))"
proof -
  consider "c < 0x800" | "0x800 \<le> c" "c < 0x10000" | "0x10000 \<le> c" by linarith
  then show ?thesis
  proof cases
    case 1
    have q: "c div 64 < 32" "2 \<le> c div 64" using 1 assms(1) by (simp_all add: less_mult_imp_div_less)
    have enc: "utf8_encode c = [char_of (0xc0 + c div 64), char_of (0x80 + c mod 64)]" using 1 assms(1) by (simp add: utf8_encode_def)
    have "utf8_tail (Suc 0) (c div 64) 1 (char_of (0x80 + c mod 64) # rest) = Inr (Some c, 2)"
      by (subst utf8_tail_cont) (simp_all add: numeral_2_eq_2)
    with q assms(1,3) show ?thesis unfolding enc
      by (simp add: utf8_decode_first utf8_lead del: utf8_tail.simps)
  next
    case 2
    have q: "c div 4096 < 16" using 2 by (simp add: less_mult_imp_div_less)
    have enc: "utf8_encode c = [char_of (0xe0 + c div 4096), char_of (0x80 + c div 64 mod 64), char_of (0x80 + c mod 64)]"
      using 2 by (simp add: utf8_encode_def)
    note sum = sextets_sum(1) [of c]
    have "utf8_tail (Suc (Suc 0)) (c div 4096) 1 (char_of (0x80 + c div 64 mod 64) # char_of (0x80 + c mod 64) # rest) =
        Inr (Some ((c div 4096 * 64 + c div 64 mod 64) * 64 + c mod 64), 3)"
      by (subst utf8_tail_cont, simp, subst utf8_tail_cont) (simp_all add: numeral_3_eq_3)
    from this [unfolded sum] q 2 assms(3) show ?thesis unfolding enc
      by (simp add: utf8_decode_first utf8_lead numeral_2_eq_2 numeral_3_eq_3 del: utf8_tail.simps)
  next
    case 3
    have q: "c div 262144 < 8" using assms(2) by (simp add: less_mult_imp_div_less)
    have enc: "utf8_encode c = [char_of (0xf0 + c div 262144), char_of (0x80 + c div 4096 mod 64), char_of (0x80 + c div 64 mod 64),
        char_of (0x80 + c mod 64)]" using 3 by (simp add: utf8_encode_def)
    note sum = sextets_sum(2) [of c]
    have "utf8_tail (Suc (Suc (Suc 0))) (c div 262144) 1 (char_of (0x80 + c div 4096 mod 64) # char_of (0x80 + c div 64 mod 64) #
        char_of (0x80 + c mod 64) # rest) = Inr (Some (((c div 262144 * 64 + c div 4096 mod 64) * 64 + c div 64 mod 64) * 64 + c mod 64), 4)"
      by (subst utf8_tail_cont, simp, subst utf8_tail_cont, simp, subst utf8_tail_cont) simp_all
    from this [unfolded sum, folded numeral_3_eq_3] q 3 assms(3) show ?thesis unfolding enc
      by (simp add: utf8_decode_first utf8_lead del: utf8_tail.simps)
  qed
qed

lemma utf8_encode_head: "0x80 \<le> c \<Longrightarrow> c \<le> 0x10ffff \<Longrightarrow> 0x80 \<le> byte (hd (utf8_encode c))"
  by (auto simp: utf8_encode_def)

lemma utf8_encode_ne [simp]: "utf8_encode c \<noteq> []"
  by (simp add: utf8_encode_def)

lemma utf8_length_loop_eq:
  assumes "\<forall>c \<in> set cs. c \<le> 0x10ffff" "n = length pre + length (concat (map utf8_encode cs))"
  shows "utf8_length_loop (pre @ concat (map utf8_encode cs)) n (length pre) len = Inr (len + length cs)"
  using assms
proof (induction cs arbitrary: pre len)
  case Nil
  then show ?case by (simp add: utf8_length_loop.simps)
next
  case (Cons c cs)
  let ?rest = "concat (map utf8_encode cs)" let ?s = "pre @ utf8_encode c @ ?rest"
  have next_c: "utf8_length_loop ?s n (length pre + length (utf8_encode c)) (Suc len) = Inr (Suc len + length cs)"
    using Cons.IH [of "pre @ utf8_encode c" "Suc len"] Cons.prems by simp
  have at: "?s ! length pre = hd (utf8_encode c)" by (simp add: nth_append hd_append hd_conv_nth [symmetric])
  have p: "length pre < n" "length pre < length ?s" using Cons.prems(2) by simp_all
  show ?case
  proof (cases "c < 0x80")
    case True
    then have "utf8_encode c = [char_of c]" by (simp add: utf8_encode_def)
    then show ?thesis using next_c at p True by (subst utf8_length_loop.simps) simp
  next
    case False
    have "ngx_utf8_decode (utf8_encode c @ ?rest) n = Inr (c, length (utf8_encode c))"
      using False Cons.prems by (intro utf8_decode_encode) simp_all
    then show ?thesis using next_c at p False utf8_encode_head [of c] Cons.prems(1)
      by (subst utf8_length_loop.simps) simp
  qed
qed

section \<open>Properties\<close>

text \<open>
  Base64 is a round trip: every string of bytes, of any length, is read back by
  \<open>ngx_decode_base64\<close> from what \<open>ngx_encode_base64\<close> wrote.
\<close>

theorem base64_round_trip: "ngx_decode_base64 (ngx_encode_base64 s) = Some s"
  by (rule decode_encode_base64)

text \<open>
  Escaping a URI is a round trip for every type but \<open>NGX_ESCAPE_REFRESH\<close>, and needs exactly the
  bytes that the counting call announces.
\<close>

theorem uri_round_trip:
  assumes "type < 7" "type \<noteq> 4"
  shows "ngx_unescape_uri (ngx_escape_uri s type) 0 = (s, []) \<and>
    length (ngx_escape_uri s type) = length s + 2 * ngx_escape_uri_count s type"
  using unescape_escape [OF percent_escaped [OF assms]] escape_length
  by (simp add: ngx_unescape_uri_def ngx_escape_uri_def ngx_escape_uri_count_def)

theorem uri_round_trip_witness:
  "ngx_unescape_uri (ngx_escape_uri ''a b%c?'' 0) 0 = (''a b%c?'', []) \<and>
   length (ngx_escape_uri ''a b%c?'' 0) = length ''a b%c?'' + 2 * ngx_escape_uri_count ''a b%c?'' 0"
  by (rule uri_round_trip) simp_all

text \<open>
  The tables of \<open>ngx_escape_uri\<close>, against the comments above them: the table for arguments also
  escapes the semicolon, the table for \<open>Refresh\<close> does not escape the percent sign, so that
  unescaping does not undo it.
\<close>

theorem escape_tables:
  "(in_table escape_uri_table c \<longleftrightarrow> ctl_byte c \<or> c \<in> set '' #%?'') \<and>
   (in_table escape_args_table c \<longleftrightarrow> ctl_byte c \<or> c \<in> set '' #%&+;?'') \<and>
   (in_table escape_html_table c \<longleftrightarrow> ctl_byte c \<or> c \<in> {CHR '' '', CHR 0x22, CHR ''#'', CHR ''%'', CHR 0x27}) \<and>
   (in_table escape_refresh_table c \<longleftrightarrow> ctl_byte c \<or> c \<in> {CHR '' '', CHR 0x22, CHR 0x27}) \<and>
   ngx_unescape_uri (ngx_escape_uri ''%41'' 4) 0 = (''A'', [])"
proof -
  have "\<not> in_table escape_refresh_table (CHR ''%'')" "\<not> in_table escape_refresh_table (CHR ''4'')"
    "\<not> in_table escape_refresh_table (CHR ''1'')" unfolding escape_tables_eq by (simp_all add: ctl_byte_def)
  then have "ngx_escape_uri ''%41'' 4 = ''%41''" by (simp add: ngx_escape_uri_def escape_map_def)
  moreover have "ngx_unescape_uri ''%41'' 0 = (''A'', [])" by code_simp
  ultimately show ?thesis using escape_tables_eq by simp
qed

text \<open>
  Escaped HTML holds no angle bracket and no double quote, and needs exactly the bytes that the
  counting call announces.
\<close>

theorem html_escape_clean:
  "set (ngx_escape_html s) \<inter> {CHR ''<'', CHR ''>'', CHR 0x22} = {} \<and>
   length (ngx_escape_html s) = length s + ngx_escape_html_count s"
  using escape_html_clean escape_html_length by blast

text \<open>
  \<open>ngx_utf8_length\<close> counts characters: on the UTF-8 encoding of any sequence of code points it
  returns their number and reads nothing beyond it.
\<close>

theorem utf8_length_counts:
  assumes "\<forall>c \<in> set cs. c \<le> 0x10ffff"
  shows "ngx_utf8_length (concat (map utf8_encode cs)) (length (concat (map utf8_encode cs))) = Inr (length cs)"
  using utf8_length_loop_eq [OF assms, of _ "[]" 0] by (simp add: ngx_utf8_length_def)

theorem utf8_length_counts_witness:
  "ngx_utf8_length (utf8_encode 0x5317 @ utf8_encode 0x41) (length (utf8_encode 0x5317 @ utf8_encode 0x41)) = Inr 2"
  using utf8_length_counts [of "[0x5317, 0x41]"] by simp

text \<open>
  On a string that ends inside a character \<open>ngx_utf8_length\<close> reads past the end: it hands the
  decoder the length of the whole string instead of what is left.
\<close>

theorem utf8_length_reads_past_end:
  "ngx_utf8_length [CHR ''A'', CHR ''B'', CHR 0xC3] 3 = Inl BufferOverflow"
proof -
  have "ngx_utf8_decode [CHR 0xC3] 3 = Inl BufferOverflow" by (simp add: ngx_utf8_decode_def numeral_eq_Suc)
  then show ?thesis by (simp add: ngx_utf8_length_def utf8_length_loop.simps numeral_3_eq_3)
qed

text \<open>
  \<open>ngx_sort\<close> is a stable sort: with a comparison that agrees with a key it computes the stable
  sort by that key.
\<close>

theorem sort_is_stable_sort:
  assumes "compares_key cmp key"
  shows "ngx_sort True xs cmp = sort_key key xs"
  using assms by (rule ngx_sort_key)

theorem sort_is_stable_sort_witness:
  "ngx_sort True [(3 :: int, ''c''), (1, ''a''), (3, ''b'')] (\<lambda>a b. fst a - fst b) = [(1, ''a''), (3, ''c''), (3, ''b'')]"
  using sort_is_stable_sort [of "\<lambda>a b. fst a - fst b" fst "[(3 :: int, ''c''), (1, ''a''), (3, ''b'')]"]
  by (simp add: compares_key_def)

end
