(* ===== verification/Ngx_Pool.thy ===== *)
theory Ngx_Pool
  imports Nla_Prelude
begin

text \<open>
  The memory pools of \<^verbatim>\<open>src/nginx/src/core/ngx_palloc.c\<close>, from which the server and the module take the memory
  of a request.

  A pool is a chain of blocks of one size. The chain of \<open>d.next\<close> is the list \<open>pool_blocks\<close>, the pointer \<open>current\<close>
  an index into it, the chains \<open>large\<close> and \<open>cleanup\<close> are lists whose nodes carry the address they are stored at.
  Addresses are numbers; the difference of pointers cast to \<open>size_t\<close> is reduced modulo \<open>2 ^ 64\<close>. \<open>malloc\<close>,
  \<open>posix_memalign\<close> and \<open>free\<close> are the parameter \<open>sys_alloc\<close>, an oracle that sees the regions in use, with the
  contract \<open>alloc_contract\<close>: a new region is aligned and apart from those in use.
\<close>

section \<open>The system allocator\<close>

type_synonym c_ptr = nat
type_synonym region = "c_ptr \<times> nat"
type_synonym sys_alloc = "nat \<Rightarrow> region list \<Rightarrow> nat \<Rightarrow> nat \<Rightarrow> c_ptr option"

record sys_heap =
  sys_calls :: nat
  sys_live :: "region list"
  sys_mem :: "c_ptr \<Rightarrow> char"

abbreviation (input) NGX_ALIGNMENT :: nat where "NGX_ALIGNMENT \<equiv> 8"
abbreviation (input) NGX_POOL_ALIGNMENT :: nat where "NGX_POOL_ALIGNMENT \<equiv> 16"
abbreviation (input) sizeof_pool :: nat where "sizeof_pool \<equiv> 80"
abbreviation (input) sizeof_pool_data :: nat where "sizeof_pool_data \<equiv> 32"
abbreviation (input) sizeof_pool_large :: nat where "sizeof_pool_large \<equiv> 16"
abbreviation (input) sizeof_pool_cleanup :: nat where "sizeof_pool_cleanup \<equiv> 24"

definition ngx_align_ptr :: "c_ptr \<Rightarrow> nat \<Rightarrow> c_ptr" where
  "ngx_align_ptr p a = (p + (a - 1)) div a * a"

definition size_t_sub :: "nat \<Rightarrow> nat \<Rightarrow> nat" where
  "size_t_sub x y = nat ((int x - int y) mod 2 ^ 64)"

definition ngx_memalign :: "sys_alloc \<Rightarrow> nat \<Rightarrow> nat \<Rightarrow> sys_heap \<Rightarrow> c_ptr option \<times> sys_heap" where
  "ngx_memalign sys alignment sz s =
     (let s' = s\<lparr>sys_calls := sys_calls s + 1\<rparr> in
      case sys (sys_calls s) (sys_live s) alignment sz of
        None \<Rightarrow> (None, s')
      | Some p \<Rightarrow> (Some p, s'\<lparr>sys_live := (p, sz) # sys_live s\<rparr>))"

text \<open>\<open>malloc\<close> aligns for every type.\<close>

definition ngx_alloc :: "sys_alloc \<Rightarrow> nat \<Rightarrow> sys_heap \<Rightarrow> c_ptr option \<times> sys_heap" where
  "ngx_alloc sys sz s = ngx_memalign sys 16 sz s"

definition ngx_free :: "c_ptr \<Rightarrow> sys_heap \<Rightarrow> sys_heap c_result" where
  "ngx_free p s =
     (case find (\<lambda>(a, n). a = p) (sys_live s) of
        None \<Rightarrow> Inl BadFree
      | Some g \<Rightarrow> Inr (s\<lparr>sys_live := remove1 g (sys_live s)\<rparr>))"

definition ngx_memzero :: "c_ptr \<Rightarrow> nat \<Rightarrow> sys_heap \<Rightarrow> sys_heap" where
  "ngx_memzero p n s = s\<lparr>sys_mem := (\<lambda>a. if p \<le> a \<and> a < p + n then NUL else sys_mem s a)\<rparr>"

section \<open>The pool\<close>

record ngx_pool_data =
  d_start :: c_ptr
  d_last :: c_ptr
  d_end :: c_ptr
  d_failed :: nat

record ngx_pool_large =
  large_node :: c_ptr
  large_alloc :: "c_ptr option"

record 'h ngx_pool_cleanup =
  cleanup_node :: c_ptr
  cleanup_handler :: "'h option"
  cleanup_data :: "c_ptr option"

record 'h ngx_pool =
  pool_blocks :: "ngx_pool_data list"
  pool_max :: nat
  pool_current :: nat
  pool_large :: "ngx_pool_large list"
  pool_cleanup :: "'h ngx_pool_cleanup list"

definition ngx_create_pool :: "sys_alloc \<Rightarrow> nat \<Rightarrow> nat \<Rightarrow> sys_heap \<Rightarrow> 'h ngx_pool option \<times> sys_heap" where
  "ngx_create_pool sys pagesize sz s =
     (case ngx_memalign sys NGX_POOL_ALIGNMENT sz s of
        (None, s') \<Rightarrow> (None, s')
      | (Some p, s') \<Rightarrow>
          let rest = size_t_sub sz sizeof_pool in
          (Some \<lparr>pool_blocks = [\<lparr>d_start = p, d_last = p + sizeof_pool, d_end = p + sz, d_failed = 0\<rparr>],
             pool_max = (if rest < pagesize - 1 then rest else pagesize - 1), pool_current = 0, pool_large = [], pool_cleanup = []\<rparr>, s'))"

text \<open>The loop of \<open>ngx_palloc\<close> (\<open>align\<close>) and \<open>ngx_pnalloc\<close> from the block \<open>current\<close> on.\<close>

fun palloc_scan :: "bool \<Rightarrow> nat \<Rightarrow> ngx_pool_data list \<Rightarrow> (c_ptr \<times> ngx_pool_data list) option" where
  "palloc_scan align sz [] = None"
| "palloc_scan align sz (p # ps) =
     (let m = (if align then ngx_align_ptr (d_last p) NGX_ALIGNMENT else d_last p) in
      if sz \<le> size_t_sub (d_end p) m then Some (m, p\<lparr>d_last := m + sz\<rparr> # ps)
      else map_option (\<lambda>(m', ps'). (m', p # ps')) (palloc_scan align sz ps))"

text \<open>The loop of \<open>ngx_palloc_block\<close>: \<open>i\<close> is the index of the first block of the list.\<close>

fun bump_failed :: "nat \<Rightarrow> nat \<Rightarrow> ngx_pool_data list \<Rightarrow> ngx_pool_data list \<times> nat" where
  "bump_failed i current (p # q # ps) =
     (let (qs, current') = bump_failed (Suc i) (if d_failed p > 4 then Suc i else current) (q # ps)
      in (p\<lparr>d_failed := d_failed p + 1\<rparr> # qs, current'))"
| "bump_failed i current ps = (ps, current)"

definition ngx_palloc_block :: "sys_alloc \<Rightarrow> 'h ngx_pool \<Rightarrow> nat \<Rightarrow> sys_heap \<Rightarrow> c_ptr option \<times> 'h ngx_pool \<times> sys_heap" where
  "ngx_palloc_block sys pool sz s =
     (let psize = size_t_sub (d_end (hd (pool_blocks pool))) (d_start (hd (pool_blocks pool))) in
      case ngx_memalign sys NGX_POOL_ALIGNMENT psize s of
        (None, s') \<Rightarrow> (None, pool, s')
      | (Some m, s') \<Rightarrow>
          let m' = ngx_align_ptr (m + sizeof_pool_data) NGX_ALIGNMENT;
              new = \<lparr>d_start = m, d_last = m' + sz, d_end = m + psize, d_failed = 0\<rparr>;
              (qs, current) = bump_failed (pool_current pool) (pool_current pool) (drop (pool_current pool) (pool_blocks pool))
          in (Some m', pool\<lparr>pool_blocks := take (pool_current pool) (pool_blocks pool) @ qs @ [new], pool_current := current\<rparr>, s'))"

text \<open>What \<open>ngx_palloc\<close> and \<open>ngx_pnalloc\<close> do for a size up to \<open>max\<close>.\<close>

definition palloc_small :: "bool \<Rightarrow> sys_alloc \<Rightarrow> 'h ngx_pool \<Rightarrow> nat \<Rightarrow> sys_heap \<Rightarrow> c_ptr option \<times> 'h ngx_pool \<times> sys_heap" where
  "palloc_small align sys pool sz s =
     (case palloc_scan align sz (drop (pool_current pool) (pool_blocks pool)) of
        Some (m, qs) \<Rightarrow> (Some m, pool\<lparr>pool_blocks := take (pool_current pool) (pool_blocks pool) @ qs\<rparr>, s)
      | None \<Rightarrow> ngx_palloc_block sys pool sz s)"

text \<open>The search for a node of \<open>large\<close> without a block, among the first five.\<close>

fun large_slot :: "nat \<Rightarrow> c_ptr \<Rightarrow> ngx_pool_large list \<Rightarrow> ngx_pool_large list option" where
  "large_slot n p [] = None"
| "large_slot n p (l # ls) =
     (if large_alloc l = None then Some (l\<lparr>large_alloc := Some p\<rparr> # ls)
      else if n > 3 then None
      else map_option (\<lambda>ls'. l # ls') (large_slot (n + 1) p ls))"

text \<open>
  \<open>ngx_palloc\<close> and \<open>ngx_palloc_large\<close> call each other: a large block needs a node, which comes from
  \<open>ngx_palloc\<close> again. The fuel counts these calls.
\<close>

fun ngx_palloc :: "nat \<Rightarrow> sys_alloc \<Rightarrow> 'h ngx_pool \<Rightarrow> nat \<Rightarrow> sys_heap \<Rightarrow> (c_ptr option \<times> 'h ngx_pool \<times> sys_heap) c_result"
  and ngx_palloc_large :: "nat \<Rightarrow> sys_alloc \<Rightarrow> 'h ngx_pool \<Rightarrow> nat \<Rightarrow> sys_heap \<Rightarrow> (c_ptr option \<times> 'h ngx_pool \<times> sys_heap) c_result" where
  "ngx_palloc fuel sys pool sz s =
     (if sz \<le> pool_max pool then Inr (palloc_small True sys pool sz s)
      else ngx_palloc_large fuel sys pool sz s)"
| "ngx_palloc_large 0 sys pool sz s = Inl OutOfFuel"
| "ngx_palloc_large (Suc fuel) sys pool sz s =
     (case ngx_alloc sys sz s of
        (None, s') \<Rightarrow> Inr (None, pool, s')
      | (Some p, s') \<Rightarrow>
          (case large_slot 0 p (pool_large pool) of
             Some ls \<Rightarrow> Inr (Some p, pool\<lparr>pool_large := ls\<rparr>, s')
           | None \<Rightarrow>
               bindr (ngx_palloc fuel sys pool sizeof_pool_large s') (\<lambda>(large, pool', s'').
                 case large of
                   None \<Rightarrow> bindr (ngx_free p s'') (\<lambda>s3. Inr (None, pool', s3))
                 | Some l \<Rightarrow> Inr (Some p,
                     pool'\<lparr>pool_large := \<lparr>large_node = l, large_alloc = Some p\<rparr> # pool_large pool'\<rparr>, s''))))"

definition ngx_pnalloc :: "nat \<Rightarrow> sys_alloc \<Rightarrow> 'h ngx_pool \<Rightarrow> nat \<Rightarrow> sys_heap \<Rightarrow> (c_ptr option \<times> 'h ngx_pool \<times> sys_heap) c_result" where
  "ngx_pnalloc fuel sys pool sz s =
     (if sz \<le> pool_max pool then Inr (palloc_small False sys pool sz s)
      else ngx_palloc_large fuel sys pool sz s)"

definition ngx_pcalloc :: "nat \<Rightarrow> sys_alloc \<Rightarrow> 'h ngx_pool \<Rightarrow> nat \<Rightarrow> sys_heap \<Rightarrow> (c_ptr option \<times> 'h ngx_pool \<times> sys_heap) c_result" where
  "ngx_pcalloc fuel sys pool sz s =
     bindr (ngx_palloc fuel sys pool sz s) (\<lambda>(p, pool', s').
       case p of None \<Rightarrow> Inr (None, pool', s') | Some a \<Rightarrow> Inr (Some a, pool', ngx_memzero a sz s'))"

definition ngx_pmemalign ::
    "nat \<Rightarrow> sys_alloc \<Rightarrow> 'h ngx_pool \<Rightarrow> nat \<Rightarrow> nat \<Rightarrow> sys_heap \<Rightarrow> (c_ptr option \<times> 'h ngx_pool \<times> sys_heap) c_result" where
  "ngx_pmemalign fuel sys pool sz alignment s =
     (case ngx_memalign sys alignment sz s of
        (None, s') \<Rightarrow> Inr (None, pool, s')
      | (Some p, s') \<Rightarrow>
          bindr (ngx_palloc fuel sys pool sizeof_pool_large s') (\<lambda>(large, pool', s'').
            case large of
              None \<Rightarrow> bindr (ngx_free p s'') (\<lambda>s3. Inr (None, pool', s3))
            | Some l \<Rightarrow> Inr (Some p,
                pool'\<lparr>pool_large := \<lparr>large_node = l, large_alloc = Some p\<rparr> # pool_large pool'\<rparr>, s'')))"

text \<open>The first node of \<open>large\<close> that holds the block is emptied; \<open>False\<close> is \<open>NGX_DECLINED\<close>.\<close>

fun pfree_scan :: "c_ptr \<Rightarrow> ngx_pool_large list \<Rightarrow> sys_heap \<Rightarrow> (bool \<times> ngx_pool_large list \<times> sys_heap) c_result" where
  "pfree_scan p [] s = Inr (False, [], s)"
| "pfree_scan p (l # ls) s =
     (if large_alloc l = Some p then bindr (ngx_free p s) (\<lambda>s'. Inr (True, l\<lparr>large_alloc := None\<rparr> # ls, s'))
      else bindr (pfree_scan p ls s) (\<lambda>(rc, ls', s'). Inr (rc, l # ls', s')))"

definition ngx_pfree :: "'h ngx_pool \<Rightarrow> c_ptr \<Rightarrow> sys_heap \<Rightarrow> (bool \<times> 'h ngx_pool \<times> sys_heap) c_result" where
  "ngx_pfree pool p s = bindr (pfree_scan p (pool_large pool) s) (\<lambda>(rc, ls, s'). Inr (rc, pool\<lparr>pool_large := ls\<rparr>, s'))"

fun free_larges :: "ngx_pool_large list \<Rightarrow> sys_heap \<Rightarrow> sys_heap c_result" where
  "free_larges [] s = Inr s"
| "free_larges (l # ls) s =
     (case large_alloc l of None \<Rightarrow> free_larges ls s | Some p \<Rightarrow> bindr (ngx_free p s) (free_larges ls))"

definition ngx_reset_pool :: "'h ngx_pool \<Rightarrow> sys_heap \<Rightarrow> ('h ngx_pool \<times> sys_heap) c_result" where
  "ngx_reset_pool pool s =
     bindr (free_larges (pool_large pool) s) (\<lambda>s'.
       Inr (pool\<lparr>pool_large := [], pool_blocks := map (\<lambda>p. p\<lparr>d_last := d_start p + sizeof_pool\<rparr>) (pool_blocks pool)\<rparr>, s'))"

definition ngx_pool_cleanup_add ::
    "nat \<Rightarrow> sys_alloc \<Rightarrow> 'h ngx_pool \<Rightarrow> nat \<Rightarrow> sys_heap \<Rightarrow> ('h ngx_pool_cleanup option \<times> 'h ngx_pool \<times> sys_heap) c_result" where
  "ngx_pool_cleanup_add fuel sys pool sz s =
     bindr (ngx_palloc fuel sys pool sizeof_pool_cleanup s) (\<lambda>(c, pool', s').
       case c of None \<Rightarrow> Inr (None, pool', s')
       | Some a \<Rightarrow>
           if sz \<noteq> 0 then
             bindr (ngx_palloc fuel sys pool' sz s') (\<lambda>(dt, pool'', s'').
               case dt of None \<Rightarrow> Inr (None, pool'', s'')
               | Some d \<Rightarrow>
                   let cl = \<lparr>cleanup_node = a, cleanup_handler = None, cleanup_data = Some d\<rparr>
                   in Inr (Some cl, pool''\<lparr>pool_cleanup := cl # pool_cleanup pool''\<rparr>, s''))
           else
             let cl = \<lparr>cleanup_node = a, cleanup_handler = None, cleanup_data = None\<rparr>
             in Inr (Some cl, pool'\<lparr>pool_cleanup := cl # pool_cleanup pool'\<rparr>, s'))"

text \<open>\<open>ngx_destroy_pool\<close>: the handlers that ran, in their order, with their data, and the heap in the end.\<close>

fun run_cleanups :: "'h ngx_pool_cleanup list \<Rightarrow> ('h \<times> c_ptr option) list" where
  "run_cleanups [] = []"
| "run_cleanups (c # cs) =
     (case cleanup_handler c of None \<Rightarrow> run_cleanups cs | Some h \<Rightarrow> (h, cleanup_data c) # run_cleanups cs)"

fun free_blocks :: "ngx_pool_data list \<Rightarrow> sys_heap \<Rightarrow> sys_heap c_result" where
  "free_blocks [] s = Inr s"
| "free_blocks (p # ps) s = bindr (ngx_free (d_start p) s) (free_blocks ps)"

definition ngx_destroy_pool :: "'h ngx_pool \<Rightarrow> sys_heap \<Rightarrow> (('h \<times> c_ptr option) list \<times> sys_heap) c_result" where
  "ngx_destroy_pool pool s =
     bindr (free_larges (pool_large pool) s) (\<lambda>s'.
       bindr (free_blocks (pool_blocks pool) s') (\<lambda>s''. Inr (run_cleanups (pool_cleanup pool), s'')))"


lemma align_ptr_ge: "0 < a \<Longrightarrow> x \<le> ngx_align_ptr x a"
proof -
  assume "0 < a"
  then have "x + (a - 1) < (x + (a - 1)) div a * a + a" using dividend_less_div_times [of a "x + (a - 1)"] by simp
  then show ?thesis using \<open>0 < a\<close> by (simp add: ngx_align_ptr_def)
qed

end
