(* ===== verification/Ngx_Hash.thy ===== *)
theory Ngx_Hash
  imports Ngx_String Ngx_Pool
begin

text \<open>
  The hash tables of \<^verbatim>\<open>src/nginx/src/core/ngx_hash.c\<close>: keys, lookup, lookup with wildcards, and
  \<open>ngx_hash_init\<close>, which chooses a number of buckets and lays the elements out in memory. The server looks up the
  handlers of header fields and the names of virtual servers in them.

  An element takes \<open>elt_size\<close> bytes; the counters \<open>test\<close> are \<open>u_short\<close>, reduced modulo 65536 here. A bucket
  is given a number of bytes, and an element written behind them is the fault \<open>BufferOverflow\<close>. The theorems:
  a table that was built gives exactly the map it was built from, within the memory of its buckets, as long as
  the bucket size is at most 32768; above that the counters wrap around and the elements overrun their bucket.
\<close>

section \<open>Keys and lookup\<close>

definition ngx_hash :: "64 word \<Rightarrow> char \<Rightarrow> 64 word" where
  "ngx_hash key c = key * 31 + of_nat (of_char c)"

definition ngx_hash_key :: "string \<Rightarrow> 64 word" where
  "ngx_hash_key s = foldl ngx_hash 0 s"

definition ngx_hash_key_lc :: "string \<Rightarrow> 64 word" where
  "ngx_hash_key_lc s = foldl (\<lambda>key c. ngx_hash key (ngx_tolower c)) 0 s"

text \<open>The copy in lower case and its hash.\<close>

fun hash_strlow_loop :: "64 word \<Rightarrow> string \<Rightarrow> string \<times> 64 word" where
  "hash_strlow_loop key [] = ([], key)"
| "hash_strlow_loop key (c # s) =
     (case hash_strlow_loop (ngx_hash key (ngx_tolower c)) s of (dst, k) \<Rightarrow> (ngx_tolower c # dst, k))"

definition ngx_hash_strlow :: "string \<Rightarrow> string \<times> 64 word" where
  "ngx_hash_strlow s = hash_strlow_loop 0 s"

text \<open>A bucket is a sequence of elements that ends with one without a value; a bucket may be missing.\<close>

type_synonym 'v ngx_hash_t = "(string \<times> 'v) list option list"

fun hash_elt :: "(string \<times> 'v) list \<Rightarrow> string \<Rightarrow> 'v option" where
  "hash_elt [] name = None"
| "hash_elt ((n, v) # elts) name = (if length name \<noteq> length n then hash_elt elts name
     else if name \<noteq> n then hash_elt elts name else Some v)"

definition ngx_hash_find :: "'v ngx_hash_t \<Rightarrow> 64 word \<Rightarrow> string \<Rightarrow> 'v option c_result" where
  "ngx_hash_find buckets key name =
     (if buckets = [] then Inl DivisionByZero
      else Inr (case buckets ! (unat key mod length buckets) of None \<Rightarrow> None | Some elts \<Rightarrow> hash_elt elts name))"

section \<open>Wildcards\<close>

text \<open>
  The two low bits of a value: data for the name and for names below it, data for names below it only, a table for
  both, a table for names below it only.
\<close>

datatype 'v wildcard = Wildcard (wc_hash: "(string \<times> 'v wc_value) list option list") (wc_data: "'v option")
  and 'v wc_value = Wc_data 'v | Wc_below 'v | Wc_table "'v wildcard" | Wc_table_below "'v wildcard"

text \<open>The last label of a name starts at \<open>label_start\<close>.\<close>

fun label_start :: "string \<Rightarrow> nat \<Rightarrow> nat" where
  "label_start name 0 = 0"
| "label_start name (Suc n) = (if name ! n = CHR ''.'' then Suc n else label_start name n)"

lemma label_start_le: "label_start name n \<le> n"
  by (induction n) auto

function ngx_hash_find_wc_head :: "'v wildcard \<Rightarrow> string \<Rightarrow> 'v option c_result" where
  "ngx_hash_find_wc_head hwc name =
     (let n = label_start name (length name) in
      bindr (ngx_hash_find (wc_hash hwc) (ngx_hash_key (drop n name)) (drop n name)) (\<lambda>value.
        case value of
          None \<Rightarrow> Inr (wc_data hwc)
        | Some (Wc_table hwc') \<Rightarrow>
            if n = 0 then Inr (wc_data hwc')
            else bindr (ngx_hash_find_wc_head hwc' (take (n - 1) name)) (\<lambda>v. Inr (if v = None then wc_data hwc' else v))
        | Some (Wc_table_below hwc') \<Rightarrow>
            if n = 0 then Inr None
            else bindr (ngx_hash_find_wc_head hwc' (take (n - 1) name)) (\<lambda>v. Inr (if v = None then wc_data hwc' else v))
        | Some (Wc_below v) \<Rightarrow> Inr (if n = 0 then None else Some v)
        | Some (Wc_data v) \<Rightarrow> Inr (Some v)))"
  by pat_completeness auto
termination
proof (relation "measure (\<lambda>(hwc, name). length name)", goal_cases)
  case (2 hwc name n)
  then show ?case using label_start_le [of name "length name"] by simp
next
  case (3 hwc name n)
  then show ?case using label_start_le [of name "length name"] by simp
qed simp_all

declare ngx_hash_find_wc_head.simps [simp del]

function ngx_hash_find_wc_tail :: "'v wildcard \<Rightarrow> string \<Rightarrow> 'v option c_result" where
  "ngx_hash_find_wc_tail hwc name =
     (let label = takeWhile (\<lambda>c. c \<noteq> CHR ''.'') name; i = length label in
      if i = length name then Inr None
      else bindr (ngx_hash_find (wc_hash hwc) (ngx_hash_key label) label) (\<lambda>value.
        case value of
          None \<Rightarrow> Inr (wc_data hwc)
        | Some (Wc_table hwc') \<Rightarrow>
            bindr (ngx_hash_find_wc_tail hwc' (drop (i + 1) name)) (\<lambda>v. Inr (if v = None then wc_data hwc' else v))
        | Some (Wc_table_below hwc') \<Rightarrow>
            bindr (ngx_hash_find_wc_tail hwc' (drop (i + 1) name)) (\<lambda>v. Inr (if v = None then wc_data hwc' else v))
        | Some (Wc_below v) \<Rightarrow> Inr (Some v)
        | Some (Wc_data v) \<Rightarrow> Inr (Some v)))"
  by pat_completeness auto
termination
proof (relation "measure (\<lambda>(hwc, name). length name)", goal_cases)
  case (2 hwc name label i)
  then show ?case by (cases name) auto
next
  case (3 hwc name label i)
  then show ?case by (cases name) auto
qed simp_all

declare ngx_hash_find_wc_tail.simps [simp del]

record 'v ngx_hash_combined =
  cb_hash :: "'v ngx_hash_t option"
  cb_wc_head :: "'v wildcard option"
  cb_wc_tail :: "'v wildcard option"

definition or_else :: "'v option c_result \<Rightarrow> 'v option c_result \<Rightarrow> 'v option c_result" where
  "or_else a b = bindr a (\<lambda>v. if v = None then b else Inr v)"

definition ngx_hash_find_combined :: "'v ngx_hash_combined \<Rightarrow> 64 word \<Rightarrow> string \<Rightarrow> 'v option c_result" where
  "ngx_hash_find_combined h key name =
     or_else (case cb_hash h of None \<Rightarrow> Inr None | Some b \<Rightarrow> ngx_hash_find b key name)
       (if name = [] then Inr None
        else or_else (case cb_wc_head h of None \<Rightarrow> Inr None | Some w \<Rightarrow> ngx_hash_find_wc_head w name)
          (case cb_wc_tail h of None \<Rightarrow> Inr None | Some w \<Rightarrow> ngx_hash_find_wc_tail w name))"

section \<open>Building a table\<close>

text \<open>An entry whose \<open>key.data\<close> is \<open>NULL\<close> is skipped.\<close>

record 'v ngx_hash_key_t =
  hk_null :: bool
  hk_key :: string
  hk_hash :: "64 word"
  hk_value :: 'v

definition u16 :: "nat \<Rightarrow> nat" where
  "u16 x = x mod 65536"

definition elt_size :: "'v ngx_hash_key_t \<Rightarrow> nat" where
  "elt_size k = 8 + ngx_align_ptr (length (hk_key k) + 2) 8"

definition key_index :: "nat \<Rightarrow> 'v ngx_hash_key_t \<Rightarrow> nat" where
  "key_index n k = unat (hk_hash k) mod n"

fun test_names :: "nat \<Rightarrow> nat \<Rightarrow> 'v ngx_hash_key_t list \<Rightarrow> nat list \<Rightarrow> bool" where
  "test_names n bucket_size [] test = True"
| "test_names n bucket_size (k # ks) test =
     (if hk_null k then test_names n bucket_size ks test
      else
        let key = key_index n k; t = u16 (test ! key + elt_size k) in
        if t > u16 bucket_size then False else test_names n bucket_size ks (test[key := t]))"

function find_size :: "nat \<Rightarrow> nat \<Rightarrow> 'v ngx_hash_key_t list \<Rightarrow> nat \<Rightarrow> nat option" where
  "find_size max_size bucket_size ks n =
     (if n < max_size then (if test_names n bucket_size ks (replicate n 0) then Some n else find_size max_size bucket_size ks (n + 1))
      else None)"
  by pat_completeness auto
termination
  by (relation "measure (\<lambda>(m, b, ks, n). m - n)") auto

declare find_size.simps [simp del]

fun count_sizes :: "nat \<Rightarrow> 'v ngx_hash_key_t list \<Rightarrow> nat list \<Rightarrow> nat list" where
  "count_sizes n [] test = test"
| "count_sizes n (k # ks) test =
     (if hk_null k then count_sizes n ks test
      else let key = key_index n k in count_sizes n ks (test[key := u16 (test ! key + elt_size k)]))"

text \<open>A bucket under construction: the bytes it was given, the bytes used, its elements.\<close>

record 'v hash_bucket =
  hb_bytes :: nat
  hb_used :: nat
  hb_elts :: "(string \<times> 'v) list"

definition new_bucket :: "nat \<Rightarrow> nat \<Rightarrow> 'v hash_bucket option" where
  "new_bucket cacheline t = (if t = 8 then None else Some \<lparr>hb_bytes = u16 (ngx_align_ptr t cacheline), hb_used = 0, hb_elts = []\<rparr>)"

fun fill_buckets :: "nat \<Rightarrow> 'v ngx_hash_key_t list \<Rightarrow> 'v hash_bucket option list \<Rightarrow> 'v hash_bucket option list c_result" where
  "fill_buckets n [] bs = Inr bs"
| "fill_buckets n (k # ks) bs =
     (if hk_null k then fill_buckets n ks bs
      else
        let key = key_index n k in
        case bs ! key of
          None \<Rightarrow> Inl NullDeref
        | Some b \<Rightarrow>
            if hb_used b + 10 + length (hk_key k) > hb_bytes b then Inl BufferOverflow
            else fill_buckets n ks (bs[key := Some (b\<lparr>hb_used := u16 (hb_used b + elt_size k),
              hb_elts := hb_elts b @ [(map ngx_tolower (hk_key k), hk_value k)]\<rparr>)]))"

text \<open>The element without a value at the end of a bucket.\<close>

fun end_buckets :: "'v hash_bucket option list \<Rightarrow> 'v ngx_hash_t c_result" where
  "end_buckets [] = Inr []"
| "end_buckets (None # bs) = bindr (end_buckets bs) (\<lambda>t. Inr (None # t))"
| "end_buckets (Some b # bs) =
     (if hb_used b + 8 > hb_bytes b then Inl BufferOverflow else bindr (end_buckets bs) (\<lambda>t. Inr (Some (hb_elts b) # t)))"

text \<open>
  \<open>None\<close> is \<open>NGX_ERROR\<close>. \<open>have_memory\<close> says whether the three allocations succeed. An element stores its length
  as \<open>u_short\<close>; the first test keeps it below the bucket size.
\<close>

definition ngx_hash_init ::
    "nat \<Rightarrow> bool \<Rightarrow> nat \<Rightarrow> nat \<Rightarrow> 'v ngx_hash_key_t list \<Rightarrow> 'v ngx_hash_t option c_result" where
  "ngx_hash_init cacheline have_memory max_size hinit_bucket_size ks =
     (if \<exists>k\<in>set ks. hinit_bucket_size < elt_size k + 8 then Inr None
      else if \<not> have_memory then Inr None
      else
        let bucket_size = size_t_sub hinit_bucket_size 8; nelts = length ks in
        if bucket_size div 16 = 0 then Inl DivisionByZero
        else
          let start = nelts div (bucket_size div 16);
              start = (if start = 0 then 1 else start);
              start = (if max_size > 10000 \<and> nelts \<noteq> 0 \<and> max_size div nelts < 100 then max_size - 1000 else start)
          in case find_size max_size bucket_size ks start of
               None \<Rightarrow> Inr None
             | Some n \<Rightarrow>
                 let test = count_sizes n ks (replicate n 8)
                 in bindr (fill_buckets n ks (map (new_bucket cacheline) test)) (\<lambda>bs. bindr (end_buckets bs) (\<lambda>t. Inr (Some t))))"

section \<open>Lemmas on keys\<close>

lemma strlow_all: "ngx_strlow s (length s) = Inr (map ngx_tolower s)"
  by (induction s) simp_all

lemma hash_lc_append: "foldl (\<lambda>key c. ngx_hash key (ngx_tolower c)) k s = foldl ngx_hash k (map ngx_tolower s)"
  by (induction s arbitrary: k) simp_all

lemma hash_strlow_eq: "hash_strlow_loop k s = (map ngx_tolower s, foldl ngx_hash k (map ngx_tolower s))"
  by (induction s arbitrary: k) simp_all

section \<open>What is built\<close>

definition entries :: "'v ngx_hash_key_t list \<Rightarrow> (string \<times> 'v) list" where
  "entries ks = map (\<lambda>k. (map ngx_tolower (hk_key k), hk_value k)) (filter (\<lambda>k. \<not> hk_null k) ks)"

definition in_bucket :: "nat \<Rightarrow> nat \<Rightarrow> 'v ngx_hash_key_t list \<Rightarrow> 'v ngx_hash_key_t list" where
  "in_bucket n i ks = filter (\<lambda>k. \<not> hk_null k \<and> key_index n k = i) ks"

definition bucket_sum :: "nat \<Rightarrow> nat \<Rightarrow> 'v ngx_hash_key_t list \<Rightarrow> nat" where
  "bucket_sum n i ks = sum_list (map elt_size (in_bucket n i ks))"

lemma bucket_sum_simps [simp]:
  "bucket_sum n i [] = 0"
  "bucket_sum n i (k # ks) = (if \<not> hk_null k \<and> key_index n k = i then elt_size k + bucket_sum n i ks else bucket_sum n i ks)"
  by (simp_all add: bucket_sum_def in_bucket_def)

lemma entries_simps [simp]:
  "entries [] = []"
  "entries (k # ks) = (if hk_null k then entries ks else (map ngx_tolower (hk_key k), hk_value k) # entries ks)"
  by (simp_all add: entries_def)

lemma in_bucket_simps [simp]:
  "in_bucket n i [] = []"
  "in_bucket n i (k # ks) = (if \<not> hk_null k \<and> key_index n k = i then k # in_bucket n i ks else in_bucket n i ks)"
  by (simp_all add: in_bucket_def)

lemma elt_size_ge: "10 + length (hk_key k) \<le> elt_size k"
  using align_ptr_ge [of 8 "length (hk_key k) + 2"] by (simp add: elt_size_def)

lemma key_index_less: "0 < n \<Longrightarrow> key_index n k < n"
  by (simp add: key_index_def)

lemma u16_id: "x < 65536 \<Longrightarrow> u16 x = x"
  by (simp add: u16_def)

lemma test_names_sum:
  assumes "test_names n bs ks test" "length test = n" "0 < n" "\<forall>i<n. test ! i \<le> bs" "\<forall>k\<in>set ks. elt_size k \<le> bs" "2 * bs < 65536" "i < n"
  shows "test ! i + bucket_sum n i ks \<le> bs"
  using assms
proof (induction ks arbitrary: test)
  case (Cons k ks)
  show ?case
  proof (cases "hk_null k")
    case False
    let ?j = "key_index n k"
    have j: "?j < n" using key_index_less [OF Cons.prems(3)] .
    have "test ! ?j \<le> bs" "elt_size k \<le> bs" using Cons.prems(4,5) j by simp_all
    then have u: "u16 (test ! ?j + elt_size k) = test ! ?j + elt_size k" "u16 bs = bs" using Cons.prems(6) by (simp_all add: u16_id)
    have t: "test_names n bs ks (test[?j := test ! ?j + elt_size k])" "test ! ?j + elt_size k \<le> bs"
      using Cons.prems(1) False u by (simp_all add: Let_def split: if_splits)
    have "\<forall>i<n. (test[?j := test ! ?j + elt_size k]) ! i \<le> bs" using Cons.prems(2,4) t(2) j by (simp add: nth_list_update)
    from Cons.IH [OF t(1) _ Cons.prems(3) this _ Cons.prems(6,7)] Cons.prems(2,5,7) False j
    show ?thesis by (cases "?j = i") (simp_all add: nth_list_update add.assoc)
  qed (use Cons in simp)
qed simp

lemma count_sizes_nth:
  assumes "length test = n" "0 < n" "\<forall>i<n. test ! i + bucket_sum n i ks < 65536"
  shows "length (count_sizes n ks test) = n" "i < n \<Longrightarrow> count_sizes n ks test ! i = test ! i + bucket_sum n i ks"
proof -
  have "length (count_sizes n ks test) = n \<and> (\<forall>i<n. count_sizes n ks test ! i = test ! i + bucket_sum n i ks)"
    using assms
  proof (induction ks arbitrary: test)
    case (Cons k ks)
    show ?case
    proof (cases "hk_null k")
      case False
      let ?j = "key_index n k"
      have j: "?j < n" using key_index_less [OF Cons.prems(2)] .
      have u: "u16 (test ! ?j + elt_size k) = test ! ?j + elt_size k" using Cons.prems(3) j False by (intro u16_id) (auto split: if_splits)
      have "\<forall>i<n. (test[?j := test ! ?j + elt_size k]) ! i + bucket_sum n i ks < 65536"
      proof (intro allI impI)
        fix i assume i: "i < n"
        then show "(test[?j := test ! ?j + elt_size k]) ! i + bucket_sum n i ks < 65536"
          using Cons.prems(1) Cons.prems(3) [rule_format, OF i] False j by (cases "?j = i") (simp_all add: nth_list_update add.assoc)
      qed
      from Cons.IH [OF _ Cons.prems(2) this] Cons.prems(1) u False j show ?thesis
        by (auto simp: Let_def nth_list_update)
    qed (use Cons in simp)
  qed simp
  then show "length (count_sizes n ks test) = n" "i < n \<Longrightarrow> count_sizes n ks test ! i = test ! i + bucket_sum n i ks" by simp_all
qed

definition filled :: "nat \<Rightarrow> 'v ngx_hash_key_t list \<Rightarrow> 'v hash_bucket option list \<Rightarrow> nat \<Rightarrow> 'v hash_bucket option" where
  "filled n ks bs i = map_option (\<lambda>b. b\<lparr>hb_used := hb_used b + bucket_sum n i ks, hb_elts := hb_elts b @ entries (in_bucket n i ks)\<rparr>) (bs ! i)"

text \<open>A bucket has room for what is still to come and for the end mark.\<close>

definition has_room :: "nat \<Rightarrow> 'v ngx_hash_key_t list \<Rightarrow> 'v hash_bucket option list \<Rightarrow> nat \<Rightarrow> bool" where
  "has_room n ks bs i \<longleftrightarrow> (case bs ! i of None \<Rightarrow> bucket_sum n i ks = 0
     | Some b \<Rightarrow> hb_used b + bucket_sum n i ks + 8 \<le> hb_bytes b \<and> hb_bytes b < 65536)"

lemma fill_buckets_filled:
  assumes "length bs = n" "0 < n" "\<forall>i<n. has_room n ks bs i"
  shows "\<exists>bs'. fill_buckets n ks bs = Inr bs' \<and> length bs' = n \<and> (\<forall>i<n. bs' ! i = filled n ks bs i)"
  using assms
proof (induction ks arbitrary: bs)
  case Nil
  then show ?case by (auto simp: filled_def in_bucket_def entries_def map_option.id [unfolded id_def] option.map_ident)
next
  case (Cons k ks)
  show ?case
  proof (cases "hk_null k")
    case True
    then have "has_room n ks bs i = has_room n (k # ks) bs i" for i by (simp add: has_room_def split: option.split)
    then have "\<forall>i<n. has_room n ks bs i" using Cons.prems(3) by simp
    from Cons.IH [OF Cons.prems(1,2) this] True show ?thesis by (simp add: filled_def in_bucket_def)
  next
    case False
    let ?j = "key_index n k"
    have j: "?j < n" using key_index_less [OF Cons.prems(2)] .
    have room: "has_room n (k # ks) bs ?j" using Cons.prems(3) j by simp
    then obtain b where b: "bs ! ?j = Some b" "hb_used b + elt_size k + bucket_sum n ?j ks + 8 \<le> hb_bytes b" "hb_bytes b < 65536"
      using False elt_size_ge [of k] by (auto simp: has_room_def split: option.splits)
    let ?b = "b\<lparr>hb_used := hb_used b + elt_size k, hb_elts := hb_elts b @ [(map ngx_tolower (hk_key k), hk_value k)]\<rparr>"
    let ?bs = "bs[?j := Some ?b]"
    have u: "u16 (hb_used b + elt_size k) = hb_used b + elt_size k" "\<not> hb_used b + 10 + length (hk_key k) > hb_bytes b"
      using b(2,3) elt_size_ge [of k] by (simp_all add: u16_id)
    have r: "has_room n ks ?bs i" if i: "i < n" for i
      using Cons.prems(1,3) i b False j by (cases "?j = i") (auto simp: has_room_def split: option.splits)
    obtain bs' where bs': "fill_buckets n ks ?bs = Inr bs'" "length bs' = n" "\<forall>i<n. bs' ! i = filled n ks ?bs i"
      using Cons.IH [of ?bs] Cons.prems(1,2) r by auto
    have "filled n ks ?bs i = filled n (k # ks) bs i" if "i < n" for i
      using that Cons.prems(1) b(1) False j by (cases "?j = i") (auto simp: filled_def in_bucket_def entries_def add.assoc)
    then show ?thesis using bs' b(1) u False by (simp add: Let_def)
  qed
qed

lemma end_buckets_eq:
  "\<forall>b. Some b \<in> set bs \<longrightarrow> hb_used b + 8 \<le> hb_bytes b \<Longrightarrow> end_buckets bs = Inr (map (map_option hb_elts) bs)"
proof (induction bs)
  case (Cons a bs)
  then show ?case by (cases a) auto
qed simp

text \<open>The table: per index the elements that belong there.\<close>

definition table_of :: "nat \<Rightarrow> 'v ngx_hash_key_t list \<Rightarrow> 'v ngx_hash_t" where
  "table_of n ks = map (\<lambda>i. if in_bucket n i ks = [] then None else Some (entries (in_bucket n i ks))) [0..<n]"

lemma align_ptr_le: "0 < a \<Longrightarrow> ngx_align_ptr x a \<le> x + (a - 1)"
  by (simp add: ngx_align_ptr_def)

lemma bucket_sum_0: "bucket_sum n i ks = 0 \<longleftrightarrow> in_bucket n i ks = []"
proof -
  have "elt_size k \<noteq> 0" for k :: "'a ngx_hash_key_t" using elt_size_ge [of k] by simp
  then show ?thesis by (cases "in_bucket n i ks") (simp_all add: bucket_sum_def)
qed

lemma layout_table:
  assumes n: "0 < n" and sums: "\<And>i. i < n \<Longrightarrow> bucket_sum n i ks + 8 + cacheline \<le> 65536" and c: "0 < cacheline"
  shows "bindr (fill_buckets n ks (map (new_bucket cacheline) (count_sizes n ks (replicate n 8)))) end_buckets = Inr (table_of n ks)"
proof -
  let ?bs = "map (new_bucket cacheline) (count_sizes n ks (replicate n 8))"
  have small: "\<forall>i<n. replicate n 8 ! i + bucket_sum n i ks < 65536"
  proof (intro allI impI)
    fix i assume "i < n"
    then show "replicate n 8 ! i + bucket_sum n i ks < 65536" using sums [of i] c by simp
  qed
  have cs: "length (count_sizes n ks (replicate n 8)) = n" "\<And>i. i < n \<Longrightarrow> count_sizes n ks (replicate n 8) ! i = 8 + bucket_sum n i ks"
    using count_sizes_nth [of "replicate n 8" n ks] n small by simp_all
  have nth: "?bs ! i = (if in_bucket n i ks = [] then None
      else Some \<lparr>hb_bytes = ngx_align_ptr (8 + bucket_sum n i ks) cacheline, hb_used = 0, hb_elts = []\<rparr>)"
    and bytes: "8 + bucket_sum n i ks \<le> ngx_align_ptr (8 + bucket_sum n i ks) cacheline" "ngx_align_ptr (8 + bucket_sum n i ks) cacheline < 65536"
    if i: "i < n" for i
  proof -
    show b: "8 + bucket_sum n i ks \<le> ngx_align_ptr (8 + bucket_sum n i ks) cacheline" by (rule align_ptr_ge [OF c])
    show b': "ngx_align_ptr (8 + bucket_sum n i ks) cacheline < 65536" using align_ptr_le [OF c, of "8 + bucket_sum n i ks"] sums [OF i] c by linarith
    show "?bs ! i = (if in_bucket n i ks = [] then None
      else Some \<lparr>hb_bytes = ngx_align_ptr (8 + bucket_sum n i ks) cacheline, hb_used = 0, hb_elts = []\<rparr>)"
      using cs i b' by (simp add: new_bucket_def u16_id bucket_sum_0)
  qed
  have "has_room n ks ?bs i" if "i < n" for i
    unfolding has_room_def nth [OF that] using bytes [OF that] by (simp add: bucket_sum_0)
  then obtain bs' where bs': "fill_buckets n ks ?bs = Inr bs'" "length bs' = n" "\<forall>i<n. bs' ! i = filled n ks ?bs i"
    using fill_buckets_filled [of ?bs n ks] cs(1) n by auto
  have "hb_used b + 8 \<le> hb_bytes b" if b: "Some b \<in> set bs'" for b
  proof -
    obtain i where "i < length bs'" "bs' ! i = Some b" using b by (auto simp: in_set_conv_nth)
    then have i: "i < n" "filled n ks ?bs i = Some b" using bs'(2,3) by simp_all
    from i(2) [unfolded filled_def nth [OF i(1)]] bytes [OF i(1)] show ?thesis by (auto split: if_splits)
  qed
  then have "end_buckets bs' = Inr (map (map_option hb_elts) bs')" by (intro end_buckets_eq) blast
  moreover have "map (map_option hb_elts) bs' = table_of n ks"
  proof (rule nth_equalityI)
    fix i assume "i < length (map (map_option hb_elts) bs')"
    then have i: "i < n" using bs'(2) by simp
    then show "map (map_option hb_elts) bs' ! i = table_of n ks ! i"
      using bs'(2,3) by (simp add: table_of_def filled_def nth [OF i] del: nth_map) (simp add: nth [OF i, simplified])
  qed (simp add: bs'(2) table_of_def)
  ultimately show ?thesis using bs'(1) by simp
qed

lemma find_size_found:
  "find_size m b ks n = Some k \<Longrightarrow> n \<le> k \<and> test_names k b ks (replicate k 0)"
proof (induction m b ks n rule: find_size.induct)
  case (1 m b ks n)
  then show ?case by (subst (asm) (2) find_size.simps) (auto split: if_splits)
qed

lemma hash_elt_map_of: "hash_elt elts name = map_of elts name"
  by (induction elts name rule: hash_elt.induct) auto

text \<open>Entries carry the hash of their name.\<close>

definition hashed :: "'v ngx_hash_key_t list \<Rightarrow> bool" where
  "hashed ks \<longleftrightarrow> (\<forall>k\<in>set ks. hk_hash k = ngx_hash_key_lc (hk_key k))"

lemma map_of_in_bucket:
  assumes "hashed ks"
  shows "map_of (entries (in_bucket n (unat (ngx_hash_key name) mod n) ks)) name = map_of (entries ks) name"
  using assms
proof (induction ks)
  case (Cons k ks)
  have "key_index n k = unat (ngx_hash_key name) mod n" if "map ngx_tolower (hk_key k) = name"
    using Cons.prems that by (auto simp: hashed_def key_index_def ngx_hash_key_lc_def ngx_hash_key_def hash_lc_append)
  moreover have "hashed ks" using Cons.prems by (simp add: hashed_def)
  ultimately show ?case using Cons.IH by auto
qed simp

lemma find_table_of:
  assumes "hashed ks" "0 < n"
  shows "ngx_hash_find (table_of n ks) (ngx_hash_key name) name = Inr (map_of (entries ks) name)"
  using map_of_in_bucket [OF assms(1), of n name] assms(2)
  by (simp add: ngx_hash_find_def table_of_def hash_elt_map_of) (auto simp: entries_def)

text \<open>What the callers of \<open>ngx_hash_init\<close> give it.\<close>

definition hinit_ok :: "nat \<Rightarrow> nat \<Rightarrow> bool" where
  "hinit_ok cacheline bucket_size \<longleftrightarrow> 0 < cacheline \<and> cacheline \<le> 32768 \<and> 24 \<le> bucket_size \<and> bucket_size \<le> 32768"

lemma hash_init_cases:
  assumes "hinit_ok cacheline bucket_size"
  shows "ngx_hash_init cacheline mem max_size bucket_size ks = Inr None \<or>
    (\<exists>n>0. ngx_hash_init cacheline mem max_size bucket_size ks = Inr (Some (table_of n ks)))"
proof (cases "(\<exists>k\<in>set ks. bucket_size < elt_size k + 8) \<or> \<not> mem")
  case True
  then show ?thesis by (auto simp: ngx_hash_init_def)
next
  case False
  have b: "size_t_sub bucket_size 8 = bucket_size - 8" "(bucket_size - 8) div 16 \<noteq> 0"
  proof -
    show "size_t_sub bucket_size 8 = bucket_size - 8"
      using assms by (simp add: size_t_sub_def hinit_ok_def nat_diff_distrib of_nat_diff [symmetric] del: of_nat_diff)
    have "16 div 16 \<le> (bucket_size - 8) div 16" using assms unfolding hinit_ok_def by (intro div_le_mono) linarith
    then show "(bucket_size - 8) div 16 \<noteq> 0" by simp
  qed
  let ?s = "length ks div ((bucket_size - 8) div 16)"
  define start where "start = (if 10000 < max_size \<and> length ks \<noteq> 0 \<and> max_size div length ks < 100 then max_size - 1000 else if ?s = 0 then 1 else ?s)"
  have start: "0 < start" by (auto simp: start_def)
  have eq: "ngx_hash_init cacheline mem max_size bucket_size ks =
    (case find_size max_size (bucket_size - 8) ks start of None \<Rightarrow> Inr None
     | Some n \<Rightarrow> bindr (bindr (fill_buckets n ks (map (new_bucket cacheline) (count_sizes n ks (replicate n 8)))) end_buckets) (\<lambda>t. Inr (Some t)))"
    using False b by (auto simp: ngx_hash_init_def Let_def start_def bindr_def split: option.split sum.split)
  show ?thesis
  proof (cases "find_size max_size (bucket_size - 8) ks start")
    case None
    then show ?thesis using eq by simp
  next
    case (Some n)
    then have n: "0 < n" "test_names n (bucket_size - 8) ks (replicate n 0)" using find_size_found [OF Some] start by auto
    have "bucket_sum n i ks + 8 + cacheline \<le> 65536" if "i < n" for i
      using test_names_sum [OF n(2) _ n(1) _ _ _ that] False that assms by (force simp: hinit_ok_def)
    from layout_table [OF n(1) this] assms eq Some n(1) show ?thesis by (auto simp: hinit_ok_def)
  qed
qed

text \<open>
  C22. A hash table gives back the map it was built from. \<open>ngx_hash_init\<close> with a bucket size from 24 to 32768
  ends without a fault, and when it succeeds, \<open>ngx_hash_find\<close> returns for every name (in lower case, with its hash)
  the value of the first entry of that name in any case, and nothing for a name without an entry; all elements
  and their end marks lie within the bytes of their bucket.
\<close>

theorem hash_init_find:
  assumes "hinit_ok cacheline bucket_size" "hashed ks"
  shows "\<exists>r. ngx_hash_init cacheline mem max_size bucket_size ks = Inr r \<and>
    (\<forall>t name. r = Some t \<longrightarrow> ngx_hash_find t (ngx_hash_key name) name = Inr (map_of (entries ks) name))"
  using hash_init_cases [OF assms(1), of mem max_size ks] find_table_of [OF assms(2)] by auto

definition demo_keys :: "nat ngx_hash_key_t list" where
  "demo_keys = map (\<lambda>(n, v). \<lparr>hk_null = False, hk_key = n, hk_hash = ngx_hash_key_lc n, hk_value = v\<rparr>)
     [(''Host'', 1), (''Range'', 2), (''Expect'', 3)]"

lemma key_index_1 [simp]: "key_index (Suc 0) k = 0"
  by (simp add: key_index_def)

lemma demo_table: "\<exists>t. ngx_hash_init 64 True 512 64 demo_keys = Inr (Some t)"
  by (simp add: ngx_hash_init_def demo_keys_def elt_size_def ngx_align_ptr_def size_t_sub_def Let_def find_size.simps [of 512]
      u16_def new_bucket_def)

theorem hash_init_find_witness:
  "\<exists>t. ngx_hash_init 64 True 512 64 demo_keys = Inr (Some t) \<and>
     ngx_hash_find t (ngx_hash_key ''range'') ''range'' = Inr (Some 2) \<and> ngx_hash_find t (ngx_hash_key ''via'') ''via'' = Inr None"
proof -
  have "hashed demo_keys" by (simp add: hashed_def demo_keys_def)
  moreover have "hinit_ok 64 64" by (simp add: hinit_ok_def)
  moreover have "entries demo_keys = [(''host'', 1), (''range'', 2), (''expect'', 3)]"
    by (simp add: demo_keys_def ngx_tolower_def char_or_0x20_def less_eq_char_def)
  ultimately show ?thesis using hash_init_find [of 64 64 demo_keys True 512] demo_table by auto
qed



text \<open>
  Above that bound the counters of 16 bits wrap around: with a bucket size of 40000 and two names of 34990
  bytes, one bucket passes the test, is given less memory than the first name takes, and the name is written behind its end.
\<close>

theorem hash_init_wraps:
  assumes "length a = 34990" "length b = 34990" "a \<noteq> b"
  shows "ngx_hash_init 64 True 512 40000
    [\<lparr>hk_null = False, hk_key = a, hk_hash = ngx_hash_key_lc a, hk_value = v\<rparr>,
     \<lparr>hk_null = False, hk_key = b, hk_hash = ngx_hash_key_lc b, hk_value = w\<rparr>] = Inl BufferOverflow"
proof -
  have e: "elt_size \<lparr>hk_null = False, hk_key = c, hk_hash = h, hk_value = v\<rparr> = 35000" if "length c = 34990" for c h v
    using that by (simp add: elt_size_def ngx_align_ptr_def)
  show ?thesis using assms by (simp add: ngx_hash_init_def e size_t_sub_def Let_def find_size.simps [of 512] u16_def new_bucket_def ngx_align_ptr_def)
qed

theorem hash_init_wraps_witness:
  "ngx_hash_init 64 True 512 40000
     [\<lparr>hk_null = False, hk_key = replicate 34990 CHR ''a'', hk_hash = ngx_hash_key_lc (replicate 34990 CHR ''a''), hk_value = True\<rparr>,
      \<lparr>hk_null = False, hk_key = replicate 34990 CHR ''b'', hk_hash = ngx_hash_key_lc (replicate 34990 CHR ''b''), hk_value = False\<rparr>] =
   Inl BufferOverflow"
  by (rule hash_init_wraps) (simp_all only: length_replicate replicate_eq_replicate, simp)

end
