(* ===== verification/Ngx_Http_Header.thy ===== *)
theory Ngx_Http_Header
  imports Ngx_Http_Parse Ngx_Hash
begin

text \<open>
  The header of a request: \<open>ngx_http_parse_header_line\<close> of \<^verbatim>\<open>src/nginx/src/http/ngx_http_parse.c\<close>, and the loop of
  \<open>ngx_http_process_request_headers\<close> of \<^verbatim>\<open>src/nginx/src/http/ngx_http_request.c\<close> over the bytes that were read.

  \<open>header\<close> interprets the contract \<open>resumable\<close>. \<open>header_block_round_trip\<close>: the lines of a header come out as
  the list of its fields, each with the lower case name and the hash under which its handler is looked up.
\<close>

section \<open>A header line\<close>

datatype header_line_state =
    hl_start | hl_name | hl_space_before_value | hl_value | hl_space_after_value | hl_ignore_line
  | hl_almost_done | hl_header_almost_done

record ngx_header_in =
  h_state :: header_line_state
  header_hash :: "64 word"
  lowcase_index :: nat
  lowcase_header :: string
  header_name_start :: nat
  header_name_end :: nat
  header_start :: nat
  header_end :: nat
  invalid_header :: bool

datatype header_exit = HL_done | HL_header_done | HL_invalid

abbreviation (input) NGX_HTTP_PARSE_HEADER_DONE :: int where "NGX_HTTP_PARSE_HEADER_DONE \<equiv> 1"
abbreviation (input) NGX_HTTP_PARSE_INVALID_HEADER :: int where "NGX_HTTP_PARSE_INVALID_HEADER \<equiv> 13"
abbreviation (input) NGX_HTTP_LC_HEADER_LEN :: nat where "NGX_HTTP_LC_HEADER_LEN \<equiv> 32"

definition lowcase :: string where
  "lowcase = replicate 45 NUL @ ''-'' @ [NUL, NUL] @ ''0123456789'' @ replicate 6 NUL
     @ NUL # ''abcdefghijklmnopqrstuvwxyz'' @ replicate 5 NUL
     @ NUL # ''abcdefghijklmnopqrstuvwxyz'' @ replicate 5 NUL @ replicate 128 NUL"

abbreviation lowcase_of :: "char \<Rightarrow> char" where "lowcase_of ch \<equiv> lowcase ! of_char ch"

text \<open>A byte of the name goes into the hash and into \<open>lowcase_header\<close>, a ring of 32 bytes.\<close>

definition name_byte :: "char \<Rightarrow> ngx_header_in \<Rightarrow> ngx_header_in" where
  "name_byte c r = r\<lparr>header_hash := ngx_hash (header_hash r) c, lowcase_header := (lowcase_header r)[lowcase_index r := c],
     lowcase_index := (lowcase_index r + 1) mod NGX_HTTP_LC_HEADER_LEN\<rparr>"

definition step_header_start :: "char \<Rightarrow> nat \<Rightarrow> ngx_header_in \<Rightarrow> (ngx_header_in, header_exit) ctl" where
  "step_header_start ch p r =
     (let r = r\<lparr>header_name_start := p, invalid_header := False\<rparr> in
      if ch = CR then Next (r\<lparr>header_end := p, h_state := hl_header_almost_done\<rparr>)
      else if ch = LF then Stop HL_header_done (r\<lparr>header_end := p\<rparr>)
      else
        let r = r\<lparr>h_state := hl_name\<rparr>; c = lowcase_of ch in
        if c \<noteq> NUL then Next (r\<lparr>header_hash := ngx_hash 0 c, lowcase_header := (lowcase_header r)[0 := c], lowcase_index := 1\<rparr>)
        else if ch = NUL then Stop HL_invalid r
        else Next (r\<lparr>invalid_header := True\<rparr>))"

definition step_header_name ::
    "bool \<Rightarrow> bool \<Rightarrow> string \<Rightarrow> nat \<Rightarrow> ngx_header_in \<Rightarrow> (ngx_header_in, header_exit) ctl" where
  "step_header_name allow_underscores upstream b p r =
     (let ch = b ! p; c = lowcase_of ch in
      if c \<noteq> NUL then Next (name_byte c r)
      else if ch = CHR ''_'' then
        (if allow_underscores then Next (name_byte ch r) else Next (r\<lparr>invalid_header := True\<rparr>))
      else if ch = CHR '':'' then Next (r\<lparr>header_name_end := p, h_state := hl_space_before_value\<rparr>)
      else if ch = CR then Next (r\<lparr>header_name_end := p, header_start := p, header_end := p, h_state := hl_almost_done\<rparr>)
      else if ch = LF then Stop HL_done (r\<lparr>header_name_end := p, header_start := p, header_end := p\<rparr>)
      else if ch = CHR ''/'' \<and> upstream \<and> p - header_name_start r = 4 \<and> slice b (header_name_start r) p = ''HTTP''
        then Next (r\<lparr>h_state := hl_ignore_line\<rparr>)
      else if ch = NUL then Stop HL_invalid r
      else Next (r\<lparr>invalid_header := True\<rparr>))"

definition step_header_value :: "char \<Rightarrow> nat \<Rightarrow> ngx_header_in \<Rightarrow> (ngx_header_in, header_exit) ctl" where
  "step_header_value ch p r =
     (case h_state r of
        hl_space_before_value \<Rightarrow>
          (if ch = CHR '' '' then Next r
           else if ch = CR then Next (r\<lparr>header_start := p, header_end := p, h_state := hl_almost_done\<rparr>)
           else if ch = LF then Stop HL_done (r\<lparr>header_start := p, header_end := p\<rparr>)
           else if ch = NUL then Stop HL_invalid r
           else Next (r\<lparr>header_start := p, h_state := hl_value\<rparr>))
      | hl_value \<Rightarrow>
          (if ch = CHR '' '' then Next (r\<lparr>header_end := p, h_state := hl_space_after_value\<rparr>)
           else if ch = CR then Next (r\<lparr>header_end := p, h_state := hl_almost_done\<rparr>)
           else if ch = LF then Stop HL_done (r\<lparr>header_end := p\<rparr>)
           else if ch = NUL then Stop HL_invalid r
           else Next r)
      | _ \<Rightarrow>
          (if ch = CHR '' '' then Next r
           else if ch = CR then Next (r\<lparr>h_state := hl_almost_done\<rparr>)
           else if ch = LF then Stop HL_done r
           else if ch = NUL then Stop HL_invalid r
           else Next (r\<lparr>h_state := hl_value\<rparr>)))"

definition header_line_step ::
    "bool \<Rightarrow> bool \<Rightarrow> string \<Rightarrow> nat \<Rightarrow> ngx_header_in \<Rightarrow> (ngx_header_in, header_exit) ctl" where
  "header_line_step allow_underscores upstream b p r =
     (let ch = b ! p in
      case h_state r of
        hl_start \<Rightarrow> step_header_start ch p r
      | hl_name \<Rightarrow> step_header_name allow_underscores upstream b p r
      | hl_ignore_line \<Rightarrow> if ch = LF then Next (r\<lparr>h_state := hl_start\<rparr>) else Next r
      | hl_almost_done \<Rightarrow> if ch = LF then Stop HL_done r else if ch = CR then Next r else Stop HL_invalid r
      | hl_header_almost_done \<Rightarrow> if ch = LF then Stop HL_header_done r else Stop HL_invalid r
      | _ \<Rightarrow> step_header_value ch p r)"

text \<open>
  The state, the hash and the index are locals of the function: at the end of the header the hash and
  the index are not written back, for an invalid byte none of them, and \<open>b->pos\<close> stays too.
\<close>

definition ngx_http_parse_header_line ::
    "bool \<Rightarrow> bool \<Rightarrow> string \<Rightarrow> nat \<Rightarrow> ngx_header_in \<Rightarrow> int \<times> nat \<times> ngx_header_in" where
  "ngx_http_parse_header_line allow_underscores upstream b pos r0 =
     (case run_steps (header_line_step allow_underscores upstream) b pos r0 of
        (p, r, None) \<Rightarrow> (NGX_AGAIN, p, r)
      | (p, r, Some HL_done) \<Rightarrow> (NGX_OK, p + 1, r\<lparr>h_state := hl_start\<rparr>)
      | (p, r, Some HL_header_done) \<Rightarrow> (NGX_HTTP_PARSE_HEADER_DONE, p + 1,
          r\<lparr>h_state := hl_start, header_hash := header_hash r0, lowcase_index := lowcase_index r0\<rparr>)
      | (p, r, Some HL_invalid) \<Rightarrow> (NGX_HTTP_PARSE_INVALID_HEADER, pos,
          r\<lparr>h_state := h_state r0, header_hash := header_hash r0, lowcase_index := lowcase_index r0\<rparr>))"

lemma slice_prefix: "p < length b \<Longrightarrow> slice (b @ c) i p = slice b i p"
  by (cases "i \<le> p") (simp_all add: slice_def)

lemma step_header_name_prefix: "p < length b \<Longrightarrow> step_header_name u v (b @ c) p r = step_header_name u v b p r"
  by (simp add: step_header_name_def Let_def nth_append slice_prefix cong: if_cong)

lemma header_line_step_prefix: "p < length b \<Longrightarrow> header_line_step u v (b @ c) p r = header_line_step u v b p r"
  by (simp add: header_line_step_def nth_append step_header_name_prefix cong: header_line_state.case_cong)

interpretation header: resumable "header_line_step u v"
  by unfold_locales (rule header_line_step_prefix)

section \<open>The header of a request\<close>

text \<open>
  The loop of \<open>ngx_http_process_request_headers\<close> over the bytes in the buffer. The server's configuration, which a handler may change,
  gives \<open>underscores_in_headers\<close>, \<open>ignore_invalid_headers\<close> and the table of known headers
  \<open>headers_in_hash\<close>; \<open>handler hh h s\<close> is the call of the handler \<open>hh\<close> for the field \<open>h\<close> in the state \<open>s\<close> of the
  request (\<open>headers_in\<close>), which goes on with a new state or ends the request with a status. The handlers of the
  server are in \<open>Ngx_Http_Request\<close>. \<open>push_alloc\<close> and \<open>name_alloc\<close> say whether the n-th field of the list and the
  n-th copy of a name can be had. The NUL bytes that the code writes behind a name and a value go to
  bytes that were read already.
\<close>

record ngx_table_elt =
  h_hash :: "64 word"
  h_key :: string
  h_value :: string
  h_lowcase_key :: string

record ('v, 's) headers_conf =
  underscores_in_headers :: "'s \<Rightarrow> bool"
  ignore_invalid_headers :: "'s \<Rightarrow> bool"
  headers_in_hash :: "'v ngx_hash_t"
  handler :: "'v \<Rightarrow> ngx_table_elt \<Rightarrow> 's \<Rightarrow> (int + 's) c_result"
  push_alloc :: "nat \<Rightarrow> bool"
  name_alloc :: "nat \<Rightarrow> bool"

datatype headers_outcome =
    Headers_done nat | Headers_again nat ngx_header_in | Headers_bad_request | Headers_closed | Headers_stopped int

definition header_field :: "string \<Rightarrow> ngx_header_in \<Rightarrow> ngx_table_elt c_result" where
  "header_field b r =
     (let key = slice b (header_name_start r) (header_name_end r); len = length key in
      bindr (if len = lowcase_index r then Inr (take len (lowcase_header r)) else ngx_strlow key len) (\<lambda>lc.
        Inr \<lparr>h_hash = header_hash r, h_key = key, h_value = slice b (header_start r) (header_end r), h_lowcase_key = lc\<rparr>))"

lemma parse_header_line_moves:
  assumes "ngx_http_parse_header_line u v b pos r = (NGX_OK, p, r')"
  shows "length b - p < length b - pos"
proof -
  obtain q s x where run: "run_steps (header_line_step u v) b pos r = (q, s, x)" by (metis prod_cases3)
  with assms have x: "x = Some HL_done" "p = q + 1"
    by (auto simp: ngx_http_parse_header_line_def split: option.splits header_exit.splits)
  from run_steps_stop_pos [OF run [unfolded x(1)]] x(2) show ?thesis by linarith
qed

definition call_handler :: "('v, 's) headers_conf \<Rightarrow> ngx_table_elt \<Rightarrow> 's \<Rightarrow> (int + 's) c_result" where
  "call_handler cf h s =
     bindr (ngx_hash_find (headers_in_hash cf) (h_hash h) (h_lowcase_key h)) (\<lambda>found.
       case found of None \<Rightarrow> Inr (Inr s) | Some hh \<Rightarrow> handler cf hh h s)"

function ngx_http_process_request_headers ::
    "('v, 's) headers_conf \<Rightarrow> string \<Rightarrow> nat \<Rightarrow> ngx_header_in \<Rightarrow> ngx_table_elt list \<Rightarrow> 's \<Rightarrow>
     (headers_outcome \<times> ngx_table_elt list \<times> 's) c_result" where
  "ngx_http_process_request_headers cf b pos r hs s =
     (let (rc, p, r') = ngx_http_parse_header_line (underscores_in_headers cf s) False b pos r in
      if rc = NGX_OK then
        (if invalid_header r' \<and> ignore_invalid_headers cf s then ngx_http_process_request_headers cf b p r' hs s
         else if \<not> push_alloc cf (length hs) then Inr (Headers_closed, hs, s)
         else if \<not> name_alloc cf (length hs) then Inr (Headers_closed, hs, s)
         else bindr (header_field b r') (\<lambda>h.
           bindr (call_handler cf h s) (\<lambda>res.
             case res of
               Inl code \<Rightarrow> Inr (Headers_stopped code, hs @ [h], s)
             | Inr s' \<Rightarrow> ngx_http_process_request_headers cf b p r' (hs @ [h]) s')))
      else if rc = NGX_HTTP_PARSE_HEADER_DONE then Inr (Headers_done p, hs, s)
      else if rc = NGX_AGAIN then Inr (Headers_again p r', hs, s)
      else Inr (Headers_bad_request, hs, s))"
  by pat_completeness auto
termination
  by (relation "measure (\<lambda>(cf, b, pos, r, hs, s). length b - pos)")
     (auto intro: parse_header_line_moves [OF sym])

declare ngx_http_process_request_headers.simps [simp del]

section \<open>Names\<close>

lemma lowcase_table: "list_all2 (\<lambda>c ch. c = NUL \<or> c = ngx_tolower ch) lowcase Enum.enum"
  by code_simp

lemma lowcase_tolower: "lowcase_of ch \<noteq> NUL \<Longrightarrow> lowcase_of ch = ngx_tolower ch"
proof -
  have n: "of_char ch < (256 :: nat)" by simp
  then have "lowcase_of ch = NUL \<or> lowcase_of ch = ngx_tolower (Enum.enum ! of_char ch)"
    using list_all2_nthD2 [OF lowcase_table, of "of_char ch"] by (simp add: enum_char_unfold)
  moreover assume "lowcase_of ch \<noteq> NUL"
  ultimately show ?thesis using n by (simp add: enum_char_unfold)
qed

definition header_name :: "string \<Rightarrow> bool" where
  "header_name n \<longleftrightarrow> n \<noteq> [] \<and> list_all (\<lambda>ch. lowcase_of ch \<noteq> NUL) n"

lemma not_name_bytes [simp]: "lowcase_of CR = NUL" "lowcase_of LF = NUL" "lowcase ! 58 = NUL"
  by (simp_all add: lowcase_def nth_append)

text \<open>
  Reading a name: the hash runs over its lower case, the index counts it modulo 32, and while there is no
  wrap-around \<open>lowcase_header\<close> holds it.
\<close>

lemma run_name:
  assumes "h_state r = hl_name" "list_all (\<lambda>ch. lowcase_of ch \<noteq> NUL) n" "length (lowcase_header r) = 32" "lowcase_index r < 32"
  shows "\<exists>lh. run_steps (header_line_step u v) (a @ n @ t) (length a) r =
      run_steps (header_line_step u v) (a @ n @ t) (length a + length n)
        (r\<lparr>header_hash := foldl ngx_hash (header_hash r) (map ngx_tolower n), lowcase_header := lh,
           lowcase_index := (lowcase_index r + length n) mod 32\<rparr>) \<and> length lh = 32 \<and>
    (lowcase_index r + length n < 32 \<longrightarrow>
      take (lowcase_index r + length n) lh = take (lowcase_index r) (lowcase_header r) @ map ngx_tolower n)"
  using assms
proof (induction n arbitrary: a r)
  case Nil
  then show ?case by (intro exI [of _ "lowcase_header r"]) simp
next
  case (Cons c n)
  let ?r = "name_byte (ngx_tolower c) r"
  have c: "lowcase_of c = ngx_tolower c" "ngx_tolower c \<noteq> NUL" using Cons.prems(2) lowcase_tolower [of c] by auto
  have "run_steps (header_line_step u v) (a @ (c # n) @ t) (length a) r =
      run_steps (header_line_step u v) ((a @ [c]) @ n @ t) (length (a @ [c])) ?r"
    using Cons.prems(1) c by (simp add: run_steps_Next header_line_step_def step_header_name_def)
  moreover obtain lh where "run_steps (header_line_step u v) ((a @ [c]) @ n @ t) (length (a @ [c])) ?r =
      run_steps (header_line_step u v) ((a @ [c]) @ n @ t) (length (a @ [c]) + length n)
        (?r\<lparr>header_hash := foldl ngx_hash (header_hash ?r) (map ngx_tolower n), lowcase_header := lh,
           lowcase_index := (lowcase_index ?r + length n) mod 32\<rparr>)" "length lh = 32"
    "lowcase_index ?r + length n < 32 \<longrightarrow>
      take (lowcase_index ?r + length n) lh = take (lowcase_index ?r) (lowcase_header ?r) @ map ngx_tolower n"
    using Cons.IH [of ?r "a @ [c]"] Cons.prems by (auto simp: name_byte_def)
  moreover have "(Suc (lowcase_index r) mod 32 + length n) mod 32 = (lowcase_index r + length (c # n)) mod 32"
    by (simp add: mod_add_left_eq)
  moreover have "take (lowcase_index ?r) (lowcase_header ?r) = take (lowcase_index r) (lowcase_header r) @ [ngx_tolower c]"
    if "lowcase_index r + length (c # n) < 32"
    using that Cons.prems(3) by (simp add: name_byte_def take_Suc_conv_app_nth)
  ultimately show ?case by (intro exI [of _ lh]) (auto simp: name_byte_def)
qed

section \<open>Values and lines\<close>

definition header_value :: "string \<Rightarrow> bool" where
  "header_value v \<longleftrightarrow> set v \<inter> {CR, LF, NUL} = {} \<and> (v \<noteq> [] \<longrightarrow> hd v \<noteq> CHR '' '' \<and> last v \<noteq> CHR '' '')"

lemma run_value:
  assumes "h_state r \<in> {hl_value, hl_space_after_value}" "set w \<inter> {CR, LF, NUL} = {}"
  shows "\<exists>s e. run_steps (header_line_step u v) (a @ w @ t) (length a) r =
      run_steps (header_line_step u v) (a @ w @ t) (length a + length w) (r\<lparr>h_state := s, header_end := e\<rparr>) \<and>
    s = (if w = [] then h_state r else if last w = CHR '' '' then hl_space_after_value else hl_value)"
  using assms
proof (induction w arbitrary: a r)
  case Nil
  then show ?case by (intro exI [of _ "h_state r"] exI [of _ "header_end r"]) simp
next
  case (Cons c w)
  define r' where "r' = (if c = CHR '' '' \<and> h_state r = hl_value then r\<lparr>header_end := length a, h_state := hl_space_after_value\<rparr>
    else if c = CHR '' '' \<or> h_state r = hl_value then r else r\<lparr>h_state := hl_value\<rparr>)"
  have step: "run_steps (header_line_step u v) (a @ (c # w) @ t) (length a) r =
      run_steps (header_line_step u v) ((a @ [c]) @ w @ t) (length (a @ [c])) r'"
    using Cons.prems by (auto simp: run_steps_Next header_line_step_def step_header_value_def r'_def)
  have st: "h_state r' = (if c = CHR '' '' then hl_space_after_value else hl_value)" using Cons.prems by (auto simp: r'_def)
  have r': "r' = r\<lparr>h_state := h_state r', header_end := header_end r'\<rparr>" by (cases r) (auto simp: r'_def)
  have "h_state r' \<in> {hl_value, hl_space_after_value}" "set w \<inter> {CR, LF, NUL} = {}" using st Cons.prems by auto
  from Cons.IH [OF this, of "a @ [c]"] obtain s e where
    "run_steps (header_line_step u v) ((a @ [c]) @ w @ t) (length (a @ [c])) r' =
      run_steps (header_line_step u v) ((a @ [c]) @ w @ t) (length (a @ [c]) + length w) (r'\<lparr>h_state := s, header_end := e\<rparr>)"
    "s = (if w = [] then h_state r' else if last w = CHR '' '' then hl_space_after_value else hl_value)" by blast
  moreover have "r'\<lparr>h_state := s, header_end := e\<rparr> = r\<lparr>h_state := s, header_end := e\<rparr>" by (subst r') simp
  ultimately show ?case using step st by (intro exI [of _ s] exI [of _ e]) auto
qed

fun field_line :: "string \<times> string \<Rightarrow> string" where
  "field_line (n, v) = n @ '': '' @ v @ [CR, LF]"

fun field_wf :: "string \<times> string \<Rightarrow> bool" where
  "field_wf (n, v) \<longleftrightarrow> header_name n \<and> header_value v"

lemma run_field_value:
  assumes "h_state r = hl_space_before_value" "header_value w"
  shows "\<exists>r'. run_steps (header_line_step u v) (a @ '' '' @ w @ [CR, LF] @ t) (length a) r = (length a + length w + 2, r', Some HL_done) \<and>
    header_start r' = length a + 1 \<and> header_end r' = length a + 1 + length w \<and>
    r' = r\<lparr>header_start := header_start r', header_end := header_end r', h_state := h_state r'\<rparr>"
proof -
  let ?b = "a @ '' '' @ w @ [CR, LF] @ t"
  let ?step = "header_line_step u v"
  have sp: "run_steps ?step ?b (length a) r = run_steps ?step ?b (Suc (length a)) r"
    using assms(1) by (simp add: run_steps_Next header_line_step_def step_header_value_def)
  show ?thesis
  proof (cases w)
    case Nil
    with assms(1) sp show ?thesis
      by (simp add: run_steps_Next run_steps_Stop header_line_step_def step_header_value_def nth_append_right)
  next
    case (Cons c w')
    let ?r = "r\<lparr>header_start := length a + 1, h_state := hl_value\<rparr>"
    have c: "c \<notin> {CR, LF, NUL, CHR '' ''}" "set w' \<inter> {CR, LF, NUL} = {}" "w' \<noteq> [] \<Longrightarrow> last w' \<noteq> CHR '' ''"
      using assms(2) Cons by (auto simp: header_value_def)
    have "run_steps ?step ?b (Suc (length a)) r = run_steps ?step ((a @ [CHR '' '', c]) @ w' @ [CR, LF] @ t) (length (a @ [CHR '' '', c])) ?r"
      using assms(1) c(1) Cons by (simp add: run_steps_Next header_line_step_def step_header_value_def nth_append_right)
    also obtain e where "\<dots> = run_steps ?step ((a @ [CHR '' '', c]) @ w' @ [CR, LF] @ t) (length (a @ [CHR '' '', c]) + length w')
        (?r\<lparr>h_state := hl_value, header_end := e\<rparr>)"
      using run_value [of ?r w' u v "a @ [CHR '' '', c]" "[CR, LF] @ t"] c(2,3) by (auto split: if_splits)
    also have "\<dots> = (length a + length w + 2, ?r\<lparr>h_state := hl_almost_done, header_end := length a + 1 + length w\<rparr>, Some HL_done)"
      using Cons by (simp add: run_steps_Next run_steps_Stop header_line_step_def step_header_value_def nth_append_right)
    finally show ?thesis using sp by simp
  qed
qed

text \<open>The name and the colon behind it.\<close>

lemma run_field_name:
  assumes "h_state r = hl_start" "length (lowcase_header r) = 32" "header_name n"
  shows "\<exists>r'. run_steps (header_line_step u v) (a @ n @ CHR '':'' # t) (length a) r =
      run_steps (header_line_step u v) (a @ n @ CHR '':'' # t) (length (a @ n) + 1) r' \<and> h_state r' = hl_space_before_value \<and>
    header_hash r' = ngx_hash_key_lc n \<and> lowcase_index r' = length n mod 32 \<and> length (lowcase_header r') = 32 \<and>
    (length n < 32 \<longrightarrow> take (length n) (lowcase_header r') = map ngx_tolower n) \<and>
    header_name_start r' = length a \<and> header_name_end r' = length a + length n \<and> \<not> invalid_header r'"
proof -
  obtain c n' where n: "n = c # n'" using assms(3) by (cases n) (auto simp: header_name_def)
  have c: "lowcase_of c = ngx_tolower c" "ngx_tolower c \<noteq> NUL" and n': "list_all (\<lambda>ch. lowcase_of ch \<noteq> NUL) n'"
    using assms(3) n lowcase_tolower [of c] by (auto simp: header_name_def)
  have "c \<noteq> CR" "c \<noteq> LF" using c not_name_bytes by metis+
  define r1 where "r1 = r\<lparr>header_name_start := length a, invalid_header := False, h_state := hl_name,
    header_hash := ngx_hash 0 (ngx_tolower c), lowcase_header := (lowcase_header r)[0 := ngx_tolower c], lowcase_index := 1\<rparr>"
  let ?step = "header_line_step u v" let ?b = "(a @ [c]) @ n' @ CHR '':'' # t"
  have 1: "run_steps ?step ?b (length a) r = run_steps ?step ?b (length (a @ [c])) r1"
    using assms(1) c \<open>c \<noteq> CR\<close> \<open>c \<noteq> LF\<close>
    by (simp add: run_steps_Next header_line_step_def step_header_start_def Let_def r1_def)
  obtain lh where 2: "run_steps ?step ?b (length (a @ [c])) r1 = run_steps ?step ?b (length (a @ [c]) + length n')
        (r1\<lparr>header_hash := foldl ngx_hash (header_hash r1) (map ngx_tolower n'), lowcase_header := lh,
           lowcase_index := (lowcase_index r1 + length n') mod 32\<rparr>)" and lh: "length lh = 32"
    "lowcase_index r1 + length n' < 32 \<longrightarrow>
      take (lowcase_index r1 + length n') lh = take (lowcase_index r1) (lowcase_header r1) @ map ngx_tolower n'"
    using run_name [of r1 n' u v "a @ [c]" "CHR '':'' # t", OF _ n'] assms(2) unfolding r1_def by auto
  let ?r2 = "r1\<lparr>header_hash := ngx_hash_key_lc n, lowcase_header := lh, lowcase_index := length n mod 32,
     header_name_end := length (a @ n), h_state := hl_space_before_value\<rparr>"
  have "(a @ c # n' @ CHR '':'' # x) ! Suc (length a + length n') = CHR '':''" for x
    using nth_append_length [of "a @ c # n'"] by simp
  then have "run_steps ?step ?b (length a) r = run_steps ?step ?b (length (a @ n) + 1) ?r2" unfolding 1 2 using n
    by (simp add: run_steps_Next header_line_step_def step_header_name_def Let_def r1_def ngx_hash_key_lc_def hash_lc_append)
  moreover have "length n < 32 \<Longrightarrow> take (length n) lh = map ngx_tolower n"
    using lh(2) n assms(2) by (cases "lowcase_header r") (simp_all add: r1_def)
  ultimately show ?thesis using n lh(1) by (intro exI [of _ ?r2]) (simp add: r1_def)
qed

lemma parse_field_line:
  assumes "h_state r = hl_start" "length (lowcase_header r) = 32" "header_name n" "header_value w"
  shows "\<exists>r'. ngx_http_parse_header_line u v (a @ field_line (n, w) @ t) (length a) r =
      (NGX_OK, length (a @ field_line (n, w)), r') \<and> h_state r' = hl_start \<and> length (lowcase_header r') = 32 \<and> \<not> invalid_header r' \<and>
    header_field (a @ field_line (n, w) @ t) r' =
      Inr \<lparr>h_hash = ngx_hash_key_lc n, h_key = n, h_value = w, h_lowcase_key = map ngx_tolower n\<rparr>"
proof -
  let ?b = "a @ field_line (n, w) @ t" let ?step = "header_line_step u v" let ?c = "a @ n @ '':''"
  from run_field_name [OF assms(1-3), of u v a "'' '' @ w @ [CR, LF] @ t"] obtain r2 where
    r2: "run_steps ?step ?b (length a) r = run_steps ?step ?b (length ?c) r2" "h_state r2 = hl_space_before_value"
      "header_hash r2 = ngx_hash_key_lc n" "lowcase_index r2 = length n mod 32" "length (lowcase_header r2) = 32"
      "length n < 32 \<longrightarrow> take (length n) (lowcase_header r2) = map ngx_tolower n"
      "header_name_start r2 = length a" "header_name_end r2 = length a + length n" "\<not> invalid_header r2"
    by auto
  from run_field_value [OF r2(2) assms(4), of u v ?c t] obtain r3 where
    r3: "run_steps ?step ?b (length ?c) r2 = (length ?c + length w + 2, r3, Some HL_done)" "header_start r3 = length ?c + 1"
      "header_end r3 = length ?c + 1 + length w"
      "r3 = r2\<lparr>header_start := header_start r3, header_end := header_end r3, h_state := h_state r3\<rparr>"
    by auto
  have sel: "header_hash r3 = header_hash r2" "lowcase_header r3 = lowcase_header r2" "lowcase_index r3 = lowcase_index r2"
    "header_name_start r3 = header_name_start r2" "header_name_end r3 = header_name_end r2" "invalid_header r3 = invalid_header r2"
    by (subst r3(4), simp)+
  have "length n = length n mod 32 \<longleftrightarrow> length n < 32" by (metis mod_less mod_less_divisor zero_less_numeral)
  then have "header_field ?b (r3\<lparr>h_state := hl_start\<rparr>) =
      Inr \<lparr>h_hash = ngx_hash_key_lc n, h_key = n, h_value = w, h_lowcase_key = map ngx_tolower n\<rparr>"
    using r2(3-8) strlow_all [of n] r3(2,3) by (simp add: header_field_def sel slice_def Let_def)
  with r2 r3(1) sel show ?thesis by (simp add: ngx_http_parse_header_line_def)
qed

section \<open>Properties\<close>

definition field_of :: "string \<times> string \<Rightarrow> ngx_table_elt" where
  "field_of nv = \<lparr>h_hash = ngx_hash_key_lc (fst nv), h_key = fst nv, h_value = snd nv, h_lowcase_key = map ngx_tolower (fst nv)\<rparr>"

definition header_block :: "(string \<times> string) list \<Rightarrow> string" where
  "header_block fs = concat (map field_line fs) @ [CR, LF]"

definition fresh_header :: ngx_header_in where
  "fresh_header = \<lparr>h_state = hl_start, header_hash = 0, lowcase_index = 0, lowcase_header = replicate 32 NUL,
     header_name_start = 0, header_name_end = 0, header_start = 0, header_end = 0, invalid_header = False\<rparr>"

definition memory_ok :: "('v, 's) headers_conf \<Rightarrow> bool" where
  "memory_ok cf \<longleftrightarrow> push_alloc cf = (\<lambda>n. True) \<and> name_alloc cf = (\<lambda>n. True)"

text \<open>The handlers of a list of fields, one after the other.\<close>

fun call_handlers :: "('v, 's) headers_conf \<Rightarrow> ngx_table_elt list \<Rightarrow> 's \<Rightarrow> (int + 's) c_result" where
  "call_handlers cf [] s = Inr (Inr s)"
| "call_handlers cf (h # hs) s =
     bindr (call_handler cf h s) (\<lambda>res. case res of Inl code \<Rightarrow> Inr (Inl code) | Inr s' \<Rightarrow> call_handlers cf hs s')"

lemma process_header_end:
  assumes "h_state r = hl_start"
  shows "ngx_http_process_request_headers cf (a @ header_block [] @ t) (length a) r hs s = Inr (Headers_done (length (a @ header_block [])), hs, s)"
proof -
  have "ngx_http_parse_header_line (underscores_in_headers cf s) False (a @ header_block [] @ t) (length a) r =
      (NGX_HTTP_PARSE_HEADER_DONE, length a + 2, r\<lparr>header_name_start := length a, invalid_header := False, header_end := length a\<rparr>)"
    using assms by (simp add: ngx_http_parse_header_line_def header_block_def run_steps_Next run_steps_Stop
        header_line_step_def step_header_start_def Let_def nth_append_right)
  then show ?thesis by (simp add: ngx_http_process_request_headers.simps [of cf "a @ CR # LF # t"] header_block_def)
qed

lemma process_header_field:
  assumes "memory_ok cf" "field_wf f" "h_state r = hl_start" "length (lowcase_header r) = 32"
  shows "\<exists>r'. ngx_http_process_request_headers cf (a @ header_block (f # fs) @ t) (length a) r hs s =
      bindr (call_handler cf (field_of f) s) (\<lambda>res. case res of
        Inl code \<Rightarrow> Inr (Headers_stopped code, hs @ [field_of f], s)
      | Inr s' \<Rightarrow> ngx_http_process_request_headers cf (a @ field_line f @ header_block fs @ t) (length a + length (field_line f)) r' (hs @ [field_of f]) s') \<and>
    h_state r' = hl_start \<and> length (lowcase_header r') = 32"
proof -
  obtain n w where f: "f = (n, w)" by (cases f)
  let ?b = "a @ field_line (n, w) @ header_block fs @ t"
  from parse_field_line [of r n w "underscores_in_headers cf s" False a "header_block fs @ t"] assms(2-4) f obtain r' where
    r': "ngx_http_parse_header_line (underscores_in_headers cf s) False ?b (length a) r = (NGX_OK, length (a @ field_line (n, w)), r')"
      "h_state r' = hl_start" "length (lowcase_header r') = 32" "\<not> invalid_header r'" "header_field ?b r' = Inr (field_of (n, w))"
    by (auto simp: field_of_def)
  have b: "a @ header_block ((n, w) # fs) @ t = ?b" by (simp add: header_block_def)
  show ?thesis unfolding f
    using r' assms(1) by (intro exI [of _ r']) (simp add: b ngx_http_process_request_headers.simps [of cf ?b "length a"]
      memory_ok_def del: field_line.simps)
qed

lemma process_header_block:
  assumes "memory_ok cf" "list_all field_wf fs" "h_state r = hl_start" "length (lowcase_header r) = 32"
  shows "call_handlers cf (map field_of fs) s = Inr (Inr s') \<Longrightarrow>
      ngx_http_process_request_headers cf (a @ header_block fs @ t) (length a) r hs s =
      Inr (Headers_done (length (a @ header_block fs)), hs @ map field_of fs, s')"
    and "call_handlers cf (map field_of fs) s = Inr (Inl code) \<Longrightarrow>
      \<exists>hs' s'. ngx_http_process_request_headers cf (a @ header_block fs @ t) (length a) r hs s = Inr (Headers_stopped code, hs', s')"
    and "call_handlers cf (map field_of fs) s = Inl e \<Longrightarrow>
      ngx_http_process_request_headers cf (a @ header_block fs @ t) (length a) r hs s = Inl e"
proof -
  have "(\<forall>s'. call_handlers cf (map field_of fs) s = Inr (Inr s') \<longrightarrow>
      ngx_http_process_request_headers cf (a @ header_block fs @ t) (length a) r hs s =
        Inr (Headers_done (length (a @ header_block fs)), hs @ map field_of fs, s')) \<and>
    (\<forall>code. call_handlers cf (map field_of fs) s = Inr (Inl code) \<longrightarrow>
      (\<exists>hs' s'. ngx_http_process_request_headers cf (a @ header_block fs @ t) (length a) r hs s = Inr (Headers_stopped code, hs', s'))) \<and>
    (\<forall>e. call_handlers cf (map field_of fs) s = Inl e \<longrightarrow>
      ngx_http_process_request_headers cf (a @ header_block fs @ t) (length a) r hs s = Inl e)"
    using assms(2-4)
  proof (induction fs arbitrary: a r hs s)
    case Nil
    then show ?case by (simp add: process_header_end)
  next
    case (Cons f fs)
    have "field_wf f" using Cons.prems(1) by simp
    from process_header_field [OF assms(1) this Cons.prems(2,3), of a fs t hs s] obtain r' where
      r': "ngx_http_process_request_headers cf (a @ header_block (f # fs) @ t) (length a) r hs s =
        bindr (call_handler cf (field_of f) s) (\<lambda>res. case res of
          Inl code \<Rightarrow> Inr (Headers_stopped code, hs @ [field_of f], s)
        | Inr s' \<Rightarrow> ngx_http_process_request_headers cf (a @ field_line f @ header_block fs @ t) (length a + length (field_line f)) r' (hs @ [field_of f]) s')"
        "h_state r' = hl_start" "length (lowcase_header r') = 32" by blast
    have len: "length (header_block (f # fs)) = length (field_line f) + length (header_block fs)" by (simp add: header_block_def)
    show ?case
      using Cons.IH [of r' _ "a @ field_line f" "hs @ [field_of f]"] r'(2,3) Cons.prems(1)
      by (cases "call_handler cf (field_of f) s") (auto simp: r'(1) len split: sum.split)
  qed
  then show "call_handlers cf (map field_of fs) s = Inr (Inr s') \<Longrightarrow>
      ngx_http_process_request_headers cf (a @ header_block fs @ t) (length a) r hs s =
      Inr (Headers_done (length (a @ header_block fs)), hs @ map field_of fs, s')"
    "call_handlers cf (map field_of fs) s = Inr (Inl code) \<Longrightarrow>
      \<exists>hs' s'. ngx_http_process_request_headers cf (a @ header_block fs @ t) (length a) r hs s = Inr (Headers_stopped code, hs', s')"
    "call_handlers cf (map field_of fs) s = Inl e \<Longrightarrow>
      ngx_http_process_request_headers cf (a @ header_block fs @ t) (length a) r hs s = Inl e"
    by simp_all
qed

lemma field_of_strlow: "(h_lowcase_key (field_of f), h_hash (field_of f)) = ngx_hash_strlow (fst f)"
  by (simp add: field_of_def ngx_hash_strlow_def hash_strlow_eq ngx_hash_key_lc_def hash_lc_append)

lemma header_step_no_NUL:
  assumes "h_state r \<noteq> hl_ignore_line"
  shows "header_line_step u False b p r = Next r' \<Longrightarrow> b ! p \<noteq> NUL \<and> h_state r' \<noteq> hl_ignore_line"
    and "header_line_step u False b p r = Stop HL_done r' \<Longrightarrow> b ! p \<noteq> NUL"
proof -
  have nul: "lowcase ! 0 = NUL" by (simp add: lowcase_def nth_append)
  show "header_line_step u False b p r = Next r' \<Longrightarrow> b ! p \<noteq> NUL \<and> h_state r' \<noteq> hl_ignore_line"
    "header_line_step u False b p r = Stop HL_done r' \<Longrightarrow> b ! p \<noteq> NUL"
    using assms nul by (cases "h_state r"; auto simp: header_line_step_def step_header_start_def step_header_name_def
        step_header_value_def name_byte_def Let_def split: if_splits)+
qed

lemma run_no_NUL:
  "run_steps (header_line_step u False) b p r = (q, r', Some HL_done) \<Longrightarrow> h_state r \<noteq> hl_ignore_line \<Longrightarrow>
   p \<le> i \<Longrightarrow> i \<le> q \<Longrightarrow> b ! i \<noteq> NUL"
proof (induction "length b - p" arbitrary: p r)
  case 0
  then show ?case by (simp add: run_steps_end)
next
  case (Suc n)
  then have p: "p < length b" by simp
  show ?case
  proof (cases "header_line_step u False b p r")
    case (Next s)
    note step = header_step_no_NUL(1) [OF Suc.prems(2) Next]
    have "run_steps (header_line_step u False) b (Suc p) s = (q, r', Some HL_done)"
      using Suc.prems(1) run_steps_Next [of p b "header_line_step u False", OF p Next] by simp
    with Suc.hyps(1) [of "Suc p" s] Suc.hyps(2) Suc.prems(3,4) step show ?thesis by (cases "i = p") auto
  next
    case (Stop x s)
    with Suc.prems(1) p have "x = HL_done" "q = p" by (simp_all add: run_steps_Stop)
    with header_step_no_NUL(2) [OF Suc.prems(2)] Stop Suc.prems(3,4) show ?thesis by simp
  qed
qed

lemma header_done_handlers:
  assumes "memory_ok cf" "list_all field_wf fs" "h_state r = hl_start" "length (lowcase_header r) = 32"
    "ngx_http_process_request_headers cf (a @ header_block fs @ t) (length a) r hs s = Inr (Headers_done p, hs', s')"
  shows "call_handlers cf (map field_of fs) s = Inr (Inr s') \<and> p = length (a @ header_block fs) \<and> hs' = hs @ map field_of fs"
proof (cases "call_handlers cf (map field_of fs) s")
  case (Inl e)
  then show ?thesis using process_header_block(3) [OF assms(1-4), of s e a t hs] assms(5) by simp
next
  case (Inr res)
  then show ?thesis using process_header_block(1,2) [OF assms(1-4), of s _ a t hs] assms(5) by (cases res) fastforce+
qed

text \<open>
  C12. The header of a request is read into its fields: on the lines \<open>Name: value\<close> of any number of fields
  (names of letters, digits and dashes, of any length; values of any other bytes than CR, LF and NUL, without
  blanks at the ends) and the empty line behind them, the loop calls the handlers of exactly these fields in their
  order and ends right behind the empty line with the list of them, each with its name in lower case and the hash of
  that, as \<open>ngx_hash_strlow\<close> computes them, also where the name is longer than the ring of 32 bytes that collects it.
\<close>

theorem header_block_round_trip:
  assumes "memory_ok cf" "list_all field_wf fs" "call_handlers cf (map field_of fs) s = Inr (Inr s')"
  shows "\<exists>hs. ngx_http_process_request_headers cf (a @ header_block fs @ t) (length a) fresh_header [] s =
      Inr (Headers_done (length (a @ header_block fs)), hs, s') \<and> map (\<lambda>h. (h_key h, h_value h)) hs = fs \<and>
    list_all (\<lambda>h. (h_lowcase_key h, h_hash h) = ngx_hash_strlow (h_key h)) hs"
proof (intro exI conjI)
  show "ngx_http_process_request_headers cf (a @ header_block fs @ t) (length a) fresh_header [] s =
      Inr (Headers_done (length (a @ header_block fs)), map field_of fs, s')"
    using process_header_block(1) [OF assms(1,2), of fresh_header s s' a t "[]"] assms(3) by (simp add: fresh_header_def)
  show "map (\<lambda>h. (h_key h, h_value h)) (map field_of fs) = fs" by (simp add: field_of_def comp_def)
  show "list_all (\<lambda>h. (h_lowcase_key h, h_hash h) = ngx_hash_strlow (h_key h)) (map field_of fs)"
    using field_of_strlow by (simp add: list_all_iff) (simp add: field_of_def)
qed

definition demo_headers :: "(nat, nat list) headers_conf" where
  "demo_headers = \<lparr>underscores_in_headers = (\<lambda>s. False), ignore_invalid_headers = (\<lambda>s. True), headers_in_hash = [Some [(''host'', 7)]],
     handler = (\<lambda>hh h s. Inr (Inr (hh # s))), push_alloc = (\<lambda>n. True), name_alloc = (\<lambda>n. True)\<rparr>"

lemma demo_fields: "list_all field_wf [(''Host'', ''a.b''), (''Accept'', [])]"
  by code_simp

theorem header_block_round_trip_witness:
  "\<exists>hs. ngx_http_process_request_headers demo_headers (header_block [(''Host'', ''a.b''), (''Accept'', [])] @ ''x'') 0
       fresh_header [] [] = Inr (Headers_done 23, hs, [7]) \<and> map (\<lambda>h. (h_key h, h_value h)) hs = [(''Host'', ''a.b''), (''Accept'', [])]"
proof -
  have "length (header_block [(''Host'', ''a.b''), (''Accept'', [])]) = 23" by (simp add: header_block_def)
  moreover have "memory_ok demo_headers" by (simp add: memory_ok_def demo_headers_def)
  moreover have "call_handlers demo_headers (map field_of [(''Host'', ''a.b''), (''Accept'', [])]) [] = Inr (Inr [7])"
    by (simp add: call_handler_def demo_headers_def ngx_hash_find_def field_of_def ngx_tolower_def char_or_0x20_def less_eq_char_def)
  ultimately show ?thesis using header_block_round_trip [OF _ demo_fields, of demo_headers "[]" "[7]" "[]" "''x''"] by auto
qed

text \<open>
  A header line with a NUL byte anywhere is never accepted: when \<open>ngx_http_parse_header_line\<close> accepts a line
  of a client's request, no byte it has read is NUL.
\<close>

theorem header_line_no_NUL:
  assumes "ngx_http_parse_header_line u False b pos r = (NGX_OK, p, r')" "h_state r \<noteq> hl_ignore_line"
  shows "NUL \<notin> set (slice b pos p)"
proof -
  obtain q s x where run: "run_steps (header_line_step u False) b pos r = (q, s, x)" by (metis prod_cases3)
  with assms(1) have x: "x = Some HL_done" "p = q + 1"
    by (auto simp: ngx_http_parse_header_line_def split: option.splits header_exit.splits)
  from run_no_NUL [OF run [unfolded x(1)] assms(2)] x(2) show ?thesis
    by (auto simp: slice_def in_set_conv_nth)
qed

theorem header_line_no_NUL_witness:
  "NUL \<notin> set (slice (field_line (''Host'', ''a'')) 0 9)"
proof -
  have "header_name ''Host''" "header_value ''a''" by code_simp+
  moreover have "h_state fresh_header = hl_start" "length (lowcase_header fresh_header) = 32" by (simp_all add: fresh_header_def)
  moreover have "length (field_line (''Host'', ''a'')) = 9" by simp
  ultimately obtain r' where "ngx_http_parse_header_line False False (field_line (''Host'', ''a'')) 0 fresh_header = (NGX_OK, 9, r')"
    using parse_field_line [of fresh_header "''Host''" "''a''" False False "[]" "[]"] by (auto simp del: field_line.simps)
  from header_line_no_NUL [OF this] show ?thesis by (simp add: fresh_header_def)
qed

end
