(* ===== verification/Ngx_Http_Request.thy ===== *)
theory Ngx_Http_Request
  imports Ngx_Http_Header
begin

text \<open>
  From the header lines to the request: the handlers of the known header fields, the choice of the virtual server and
  \<open>ngx_http_process_request_header\<close> of \<^verbatim>\<open>src/nginx/src/http/ngx_http_request.c\<close>, with the table of handlers
  \<open>ngx_http_headers_in\<close> of the default build and \<open>ngx_http_init_headers_in_hash\<close> of \<^verbatim>\<open>src/nginx/src/http/ngx_http.c\<close>.

  The pointers of \<open>headers_in\<close> that a handler reaches by an offset are the functions \<open>hi_elt\<close> and \<open>hi_array\<close>
  of the member. A handler goes on or ends the request with a status. Regular expressions of server names are a
  parameter. \<open>ngx_http_validate_host\<close> is compared with a reference; what the handlers make of a header is in
  \<open>Ngx_Http_Framing\<close>.
\<close>

unbundle bit_operations_syntax

section \<open>Hosts\<close>

datatype host_state = sw_usual | sw_literal | sw_rest

record host_scan =
  hs_dot_pos :: nat
  hs_host_len :: nat
  hs_state :: host_state
  hs_alloc :: bool

definition host_byte :: "nat \<Rightarrow> char \<Rightarrow> host_scan \<Rightarrow> host_scan option" where
  "host_byte i ch s =
     (if ch = CHR ''.'' then (if 0 < i \<and> hs_dot_pos s = i - 1 then None else Some (s\<lparr>hs_dot_pos := i\<rparr>))
      else if ch = CHR '':'' then Some (if hs_state s = sw_usual then s\<lparr>hs_host_len := i, hs_state := sw_rest\<rparr> else s)
      else if ch = CHR ''['' then Some (if i = 0 then s\<lparr>hs_state := sw_literal\<rparr> else s)
      else if ch = CHR '']'' then Some (if hs_state s = sw_literal then s\<lparr>hs_host_len := i + 1, hs_state := sw_rest\<rparr> else s)
      else if ch = NUL then None
      else if ch = CHR ''/'' then None
      else Some (if CHR ''A'' \<le> ch \<and> ch \<le> CHR ''Z'' then s\<lparr>hs_alloc := True\<rparr> else s))"

fun host_loop :: "nat \<Rightarrow> string \<Rightarrow> host_scan \<Rightarrow> host_scan option" where
  "host_loop i [] s = Some s"
| "host_loop i (ch # h) s = (case host_byte i ch s of None \<Rightarrow> None | Some s' \<Rightarrow> host_loop (i + 1) h s')"

text \<open>
  The comparisons \<open>dot_pos == i - 1\<close> and \<open>dot_pos == host_len - 1\<close> are on \<open>size_t\<close>: where the right side is
  below zero it is larger than any position. \<open>mem\<close> says whether \<open>ngx_pnalloc\<close> succeeds.
\<close>

definition ngx_http_validate_host :: "bool \<Rightarrow> bool \<Rightarrow> string \<Rightarrow> (int \<times> string) c_result" where
  "ngx_http_validate_host mem alloc host =
     (case host_loop 0 host \<lparr>hs_dot_pos = length host, hs_host_len = length host, hs_state = sw_usual, hs_alloc = alloc\<rparr> of
        None \<Rightarrow> Inr (NGX_DECLINED, host)
      | Some s \<Rightarrow>
          let host_len = (if 0 < hs_host_len s \<and> hs_dot_pos s = hs_host_len s - 1 then hs_host_len s - 1 else hs_host_len s) in
          if host_len = 0 then Inr (NGX_DECLINED, host)
          else if hs_alloc s then
            (if \<not> mem then Inr (NGX_ERROR, host) else bindr (ngx_strlow host host_len) (\<lambda>h. Inr (NGX_OK, h)))
          else Inr (NGX_OK, take host_len host))"

section \<open>Virtual servers\<close>

text \<open>\<open>rx re host\<close> is \<open>ngx_http_regex_exec\<close>; \<open>'c\<close> is a server configuration.\<close>

record ('re, 'c) virtual_names =
  vn_names :: "'c ngx_hash_combined"
  vn_regex :: "('re \<times> 'c) list"

fun regex_scan :: "('re \<Rightarrow> string \<Rightarrow> int) \<Rightarrow> ('re \<times> 'c) list \<Rightarrow> string \<Rightarrow> int \<times> 'c option" where
  "regex_scan rx [] host = (NGX_DECLINED, None)"
| "regex_scan rx ((re, server) # sn) host =
     (let n = rx re host in
      if n = NGX_DECLINED then regex_scan rx sn host
      else if n = NGX_OK then (NGX_OK, Some server)
      else (NGX_ERROR, None))"

definition ngx_http_find_virtual_server ::
    "('re \<Rightarrow> string \<Rightarrow> int) \<Rightarrow> ('re, 'c) virtual_names option \<Rightarrow> string \<Rightarrow> (int \<times> 'c option) c_result" where
  "ngx_http_find_virtual_server rx virtual_names host =
     (case virtual_names of
        None \<Rightarrow> Inr (NGX_DECLINED, None)
      | Some vn \<Rightarrow>
          bindr (ngx_hash_find_combined (vn_names vn) (ngx_hash_key host) host) (\<lambda>cscf.
            case cscf of
              Some c \<Rightarrow> Inr (NGX_OK, Some c)
            | None \<Rightarrow> if host \<noteq> [] \<and> vn_regex vn \<noteq> [] then Inr (regex_scan rx (vn_regex vn) host) else Inr (NGX_DECLINED, None)))"

section \<open>The known header fields\<close>

datatype hi_member =
    Hi_host | Hi_connection | Hi_if_modified_since | Hi_if_unmodified_since | Hi_if_match | Hi_if_none_match | Hi_user_agent
  | Hi_referer | Hi_content_length | Hi_content_type | Hi_range | Hi_if_range | Hi_transfer_encoding | Hi_expect | Hi_upgrade
  | Hi_accept_encoding | Hi_via | Hi_authorization | Hi_keep_alive

datatype hi_list = Hi_x_forwarded_for | Hi_cookies

datatype connection_type = Connection_unset | NGX_HTTP_CONNECTION_CLOSE | NGX_HTTP_CONNECTION_KEEP_ALIVE

record ngx_http_headers_in_t =
  hi_elt :: "hi_member \<Rightarrow> ngx_table_elt option"
  hi_array :: "hi_list \<Rightarrow> ngx_table_elt list"
  hi_server :: string
  content_length_n :: int
  keep_alive_n :: int
  hi_connection_type :: connection_type
  hi_chunked :: bool
  hi_msie :: bool
  hi_msie6 :: bool
  hi_opera :: bool
  hi_gecko :: bool
  hi_chrome :: bool
  hi_safari :: bool
  hi_konqueror :: bool

text \<open>What the handlers change of a request: \<open>headers_in\<close> and the chosen server.\<close>

record 'c request_state =
  rq_in :: ngx_http_headers_in_t
  rq_srv_conf :: 'c

definition fresh_headers_in :: ngx_http_headers_in_t where
  "fresh_headers_in = \<lparr>hi_elt = (\<lambda>m. None), hi_array = (\<lambda>l. []), hi_server = [], content_length_n = - 1, keep_alive_n = - 1,
     hi_connection_type = Connection_unset, hi_chunked = False, hi_msie = False, hi_msie6 = False, hi_opera = False,
     hi_gecko = False, hi_chrome = False, hi_safari = False, hi_konqueror = False\<rparr>"

record ('re, 'c) request_conf =
  rc_virtual_names :: "('re, 'c) virtual_names option"
  rc_regex :: "'re \<Rightarrow> string \<Rightarrow> int"
  rc_host_mem :: bool
  rc_array_mem :: "nat \<Rightarrow> bool"

abbreviation (input) NGX_HTTP_BAD_REQUEST :: int where "NGX_HTTP_BAD_REQUEST \<equiv> 400"
abbreviation (input) NGX_HTTP_NOT_ALLOWED :: int where "NGX_HTTP_NOT_ALLOWED \<equiv> 405"
abbreviation (input) NGX_HTTP_INTERNAL_SERVER_ERROR :: int where "NGX_HTTP_INTERNAL_SERVER_ERROR \<equiv> 500"
abbreviation (input) NGX_HTTP_NOT_IMPLEMENTED :: int where "NGX_HTTP_NOT_IMPLEMENTED \<equiv> 501"

type_synonym 'c handler_result = "(int + 'c request_state) c_result"

definition ngx_http_set_virtual_server :: "('re, 'c) request_conf \<Rightarrow> string \<Rightarrow> 'c request_state \<Rightarrow> 'c handler_result" where
  "ngx_http_set_virtual_server cf host r =
     bindr (ngx_http_find_virtual_server (rc_regex cf) (rc_virtual_names cf) host) (\<lambda>(rc, cscf).
       if rc = NGX_ERROR then Inr (Inl NGX_HTTP_INTERNAL_SERVER_ERROR)
       else case cscf of
           None \<Rightarrow> Inr (Inr r)
         | Some c \<Rightarrow> Inr (Inr (r\<lparr>rq_srv_conf := c\<rparr>)))"

definition set_elt :: "hi_member \<Rightarrow> ngx_table_elt \<Rightarrow> ngx_http_headers_in_t \<Rightarrow> ngx_http_headers_in_t" where
  "set_elt m h hi = hi\<lparr>hi_elt := (hi_elt hi)(m := Some h)\<rparr>"

definition ngx_http_process_header_line :: "hi_member \<Rightarrow> ngx_table_elt \<Rightarrow> 'c request_state \<Rightarrow> 'c handler_result" where
  "ngx_http_process_header_line m h r =
     Inr (Inr (if hi_elt (rq_in r) m = None then r\<lparr>rq_in := set_elt m h (rq_in r)\<rparr> else r))"

definition ngx_http_process_unique_header_line :: "hi_member \<Rightarrow> ngx_table_elt \<Rightarrow> 'c request_state \<Rightarrow> 'c handler_result" where
  "ngx_http_process_unique_header_line m h r =
     (if hi_elt (rq_in r) m = None then Inr (Inr (r\<lparr>rq_in := set_elt m h (rq_in r)\<rparr>)) else Inr (Inl NGX_HTTP_BAD_REQUEST))"

definition ngx_http_process_host :: "('re, 'c) request_conf \<Rightarrow> ngx_table_elt \<Rightarrow> 'c request_state \<Rightarrow> 'c handler_result" where
  "ngx_http_process_host cf h r =
     (let r = (if hi_elt (rq_in r) Hi_host = None then r\<lparr>rq_in := set_elt Hi_host h (rq_in r)\<rparr> else r) in
      bindr (ngx_http_validate_host (rc_host_mem cf) False (h_value h)) (\<lambda>(rc, host).
        if rc = NGX_DECLINED then Inr (Inl NGX_HTTP_BAD_REQUEST)
        else if rc = NGX_ERROR then Inr (Inl NGX_HTTP_INTERNAL_SERVER_ERROR)
        else if hi_server (rq_in r) \<noteq> [] then Inr (Inr r)
        else bindr (ngx_http_set_virtual_server cf host r) (\<lambda>res. case res of
            Inl code \<Rightarrow> Inr (Inl code)
          | Inr r' \<Rightarrow> Inr (Inr (r'\<lparr>rq_in := (rq_in r')\<lparr>hi_server := host\<rparr>\<rparr>)))))"

definition ngx_http_process_connection :: "ngx_table_elt \<Rightarrow> 'c request_state \<Rightarrow> 'c handler_result" where
  "ngx_http_process_connection h r =
     Inr (Inr (if ngx_strcasestrn (h_value h) ''close'' 4 \<noteq> None
        then r\<lparr>rq_in := (rq_in r)\<lparr>hi_connection_type := NGX_HTTP_CONNECTION_CLOSE\<rparr>\<rparr>
        else if ngx_strcasestrn (h_value h) ''keep-alive'' 9 \<noteq> None
        then r\<lparr>rq_in := (rq_in r)\<lparr>hi_connection_type := NGX_HTTP_CONNECTION_KEEP_ALIVE\<rparr>\<rparr>
        else r))"

text \<open>The browser: \<open>msie + 7 < user_agent + len\<close> keeps the reads behind \<open>msie\<close> within the value and its NUL.\<close>

definition user_agent_msie :: "string \<Rightarrow> ngx_http_headers_in_t \<Rightarrow> ngx_http_headers_in_t" where
  "user_agent_msie ua hi =
     (case ngx_strstrn ua ''MSIE '' 4 of
        None \<Rightarrow> hi
      | Some msie \<Rightarrow>
          if msie + 7 < length ua then
            let hi = hi\<lparr>hi_msie := True\<rparr> in
            if ua ! (msie + 6) = CHR ''.'' then
              (if ua ! (msie + 5) = CHR ''4'' \<or> ua ! (msie + 5) = CHR ''5'' then hi\<lparr>hi_msie6 := True\<rparr>
               else if ua ! (msie + 5) = CHR ''6'' \<and> ngx_strstrn (drop (msie + 8) ua) ''SV1'' 2 = None then hi\<lparr>hi_msie6 := True\<rparr>
               else hi)
            else hi
          else hi)"

definition user_agent_other :: "string \<Rightarrow> ngx_http_headers_in_t \<Rightarrow> ngx_http_headers_in_t" where
  "user_agent_other ua hi =
     (if \<not> hi_msie hi \<and> \<not> hi_opera hi then
        if ngx_strstrn ua ''Gecko/'' 5 \<noteq> None then hi\<lparr>hi_gecko := True\<rparr>
        else if ngx_strstrn ua ''Chrome/'' 6 \<noteq> None then hi\<lparr>hi_chrome := True\<rparr>
        else if ngx_strstrn ua ''Safari/'' 6 \<noteq> None \<and> ngx_strstrn ua ''Mac OS X'' 7 \<noteq> None then hi\<lparr>hi_safari := True\<rparr>
        else if ngx_strstrn ua ''Konqueror'' 8 \<noteq> None then hi\<lparr>hi_konqueror := True\<rparr>
        else hi
      else hi)"

definition ngx_http_process_user_agent :: "ngx_table_elt \<Rightarrow> 'c request_state \<Rightarrow> 'c handler_result" where
  "ngx_http_process_user_agent h r =
     (if hi_elt (rq_in r) Hi_user_agent \<noteq> None then Inr (Inr r)
      else
        let ua = h_value h;
            hi = user_agent_msie ua (set_elt Hi_user_agent h (rq_in r));
            hi = (if ngx_strstrn ua ''Opera'' 4 \<noteq> None then hi\<lparr>hi_opera := True, hi_msie := False, hi_msie6 := False\<rparr> else hi)
        in Inr (Inr (r\<lparr>rq_in := user_agent_other ua hi\<rparr>)))"

text \<open>\<open>rc_array_mem n\<close>: the array of n fields can be made one longer.\<close>

definition ngx_http_process_multi_header_lines ::
    "('re, 'c) request_conf \<Rightarrow> hi_list \<Rightarrow> ngx_table_elt \<Rightarrow> 'c request_state \<Rightarrow> 'c handler_result" where
  "ngx_http_process_multi_header_lines cf l h r =
     (let hs = hi_array (rq_in r) l in
      if \<not> rc_array_mem cf (length hs) then Inr (Inl NGX_HTTP_INTERNAL_SERVER_ERROR)
      else Inr (Inr (r\<lparr>rq_in := (rq_in r)\<lparr>hi_array := (hi_array (rq_in r))(l := hs @ [h])\<rparr>\<rparr>)))"

datatype hi_handler =
    Process_host | Process_connection | Process_user_agent | Process_line hi_member | Process_unique hi_member | Process_multi hi_list

definition run_handler :: "('re, 'c) request_conf \<Rightarrow> hi_handler \<Rightarrow> ngx_table_elt \<Rightarrow> 'c request_state \<Rightarrow> 'c handler_result" where
  "run_handler cf hh h r =
     (case hh of
        Process_host \<Rightarrow> ngx_http_process_host cf h r
      | Process_connection \<Rightarrow> ngx_http_process_connection h r
      | Process_user_agent \<Rightarrow> ngx_http_process_user_agent h r
      | Process_line m \<Rightarrow> ngx_http_process_header_line m h r
      | Process_unique m \<Rightarrow> ngx_http_process_unique_header_line m h r
      | Process_multi l \<Rightarrow> ngx_http_process_multi_header_lines cf l h r)"

text \<open>The table in a build with the default modules.\<close>

definition ngx_http_headers_in :: "(string \<times> hi_handler) list" where
  "ngx_http_headers_in =
     [(''Host'', Process_host), (''Connection'', Process_connection),
      (''If-Modified-Since'', Process_unique Hi_if_modified_since), (''If-Unmodified-Since'', Process_unique Hi_if_unmodified_since),
      (''If-Match'', Process_unique Hi_if_match), (''If-None-Match'', Process_unique Hi_if_none_match),
      (''User-Agent'', Process_user_agent), (''Referer'', Process_line Hi_referer),
      (''Content-Length'', Process_unique Hi_content_length), (''Content-Type'', Process_line Hi_content_type),
      (''Range'', Process_line Hi_range), (''If-Range'', Process_unique Hi_if_range),
      (''Transfer-Encoding'', Process_line Hi_transfer_encoding), (''Expect'', Process_unique Hi_expect),
      (''Upgrade'', Process_line Hi_upgrade), (''Accept-Encoding'', Process_line Hi_accept_encoding),
      (''Via'', Process_line Hi_via), (''Authorization'', Process_unique Hi_authorization),
      (''Keep-Alive'', Process_line Hi_keep_alive), (''X-Forwarded-For'', Process_multi Hi_x_forwarded_for),
      (''Cookie'', Process_multi Hi_cookies)]"

definition headers_in_keys :: "hi_handler ngx_hash_key_t list" where
  "headers_in_keys = map (\<lambda>(n, v). \<lparr>hk_null = False, hk_key = n, hk_hash = ngx_hash_key_lc n, hk_value = v\<rparr>) ngx_http_headers_in"

definition ngx_http_init_headers_in_hash :: "nat \<Rightarrow> bool \<Rightarrow> hi_handler ngx_hash_t option c_result" where
  "ngx_http_init_headers_in_hash cacheline mem =
     ngx_hash_init cacheline mem 512 (ngx_align_ptr 64 cacheline) headers_in_keys"

section \<open>The end of the header\<close>

definition ngx_http_process_request_header ::
    "('re, 'c) request_conf \<Rightarrow> nat \<Rightarrow> nat \<Rightarrow> 'c request_state \<Rightarrow> 'c handler_result" where
  "ngx_http_process_request_header cf version method r =
     bindr (if hi_server (rq_in r) = [] then ngx_http_set_virtual_server cf [] r else Inr (Inr r)) (\<lambda>res. case res of
       Inl code \<Rightarrow> Inr (Inl code)
     | Inr r \<Rightarrow>
       if hi_elt (rq_in r) Hi_host = None \<and> version > 1000 then Inr (Inl NGX_HTTP_BAD_REQUEST)
       else
         let hi = (case hi_elt (rq_in r) Hi_content_length of
             None \<Rightarrow> rq_in r | Some h \<Rightarrow> (rq_in r)\<lparr>content_length_n := ngx_atoof (h_value h)\<rparr>) in
         if hi_elt hi Hi_content_length \<noteq> None \<and> content_length_n hi = NGX_ERROR then Inr (Inl NGX_HTTP_BAD_REQUEST)
         else if method AND NGX_HTTP_TRACE \<noteq> 0 then Inr (Inl NGX_HTTP_NOT_ALLOWED)
         else bindr (case hi_elt hi Hi_transfer_encoding of
             None \<Rightarrow> Inr (Inr hi)
           | Some h \<Rightarrow>
               if length (h_value h) = 7 \<and> ngx_strncasecmp (h_value h) ''chunked'' 7 = 0 then
                 Inr (Inr (hi\<lparr>hi_elt := (hi_elt hi)(Hi_content_length := None), content_length_n := - 1, hi_chunked := True\<rparr>))
               else if length (h_value h) \<noteq> 8 \<or> ngx_strncasecmp (h_value h) ''identity'' 8 \<noteq> 0 then Inr (Inl NGX_HTTP_NOT_IMPLEMENTED)
               else Inr (Inr hi)) (\<lambda>res2. case res2 of
             Inl code \<Rightarrow> Inr (Inl code)
           | Inr hi \<Rightarrow>
               Inr (Inr (r\<lparr>rq_in := (case hi_elt hi Hi_keep_alive of
                   Some h \<Rightarrow> if hi_connection_type hi = NGX_HTTP_CONNECTION_KEEP_ALIVE
                     then hi\<lparr>keep_alive_n := ngx_atotm (h_value h)\<rparr> else hi
                 | None \<Rightarrow> hi)\<rparr>))))"

section \<open>A request up to the end of its header\<close>

text \<open>The configuration of the loop over the header lines: the table of the server and its handlers.\<close>

definition server_headers :: "('re, 'c) request_conf \<Rightarrow> ('c \<Rightarrow> bool) \<Rightarrow> ('c \<Rightarrow> bool) \<Rightarrow> hi_handler ngx_hash_t \<Rightarrow> (hi_handler, 'c request_state) headers_conf" where
  "server_headers cf underscores ignore_invalid t = \<lparr>underscores_in_headers = (\<lambda>r. underscores (rq_srv_conf r)),
     ignore_invalid_headers = (\<lambda>r. ignore_invalid (rq_srv_conf r)), headers_in_hash = t, handler = run_handler cf,
     push_alloc = (\<lambda>n. True), name_alloc = (\<lambda>n. True)\<rparr>"

text \<open>
  A server: the names, the settings of a server configuration \<open>'c\<close>, the table of known fields and the default server of
  the address. \<open>ngx_http_process_request_line\<close> on the bytes in the buffer, with \<open>ngx_http_process_request_headers\<close>, which it
  calls, up to the call of \<open>ngx_http_process_request\<close>; memory for the list of fields and for the URI is there.
\<close>

record ('re, 'c) http_server =
  sc_conf :: "('re, 'c) request_conf"
  sc_merge_slashes :: "'c \<Rightarrow> bool"
  sc_underscores :: "'c \<Rightarrow> bool"
  sc_ignore_invalid :: "'c \<Rightarrow> bool"
  sc_table :: "hi_handler ngx_hash_t"
  sc_default :: 'c

datatype 'c read_outcome = Read_again | Read_status int | Read_closed | Read_ready "'c request_state" ngx_http_request http_uri nat

definition request_line_server :: "('re, 'c) request_conf \<Rightarrow> string \<Rightarrow> ngx_http_request \<Rightarrow> 'c request_state \<Rightarrow> 'c handler_result" where
  "request_line_server cf b r rq =
     (case (host_start r, host_end r) of
        (Some hs, Some he) \<Rightarrow>
          bindr (ngx_http_validate_host (rc_host_mem cf) False (slice b hs he)) (\<lambda>(rc, host).
            if rc = NGX_DECLINED then Inr (Inl NGX_HTTP_BAD_REQUEST)
            else if rc = NGX_ERROR then Inr (Inl NGX_HTTP_INTERNAL_SERVER_ERROR)
            else bindr (ngx_http_set_virtual_server cf host rq) (\<lambda>res. case res of
                Inl code \<Rightarrow> Inr (Inl code)
              | Inr rq' \<Rightarrow> Inr (Inr (rq'\<lparr>rq_in := (rq_in rq')\<lparr>hi_server := host\<rparr>\<rparr>))))
      | _ \<Rightarrow> Inr (Inr rq))"

definition read_header ::
    "('re, 'c) http_server \<Rightarrow> string \<Rightarrow> nat \<Rightarrow> ngx_http_request \<Rightarrow> http_uri \<Rightarrow> 'c request_state \<Rightarrow> 'c read_outcome c_result" where
  "read_header sc b p r u rq =
     bindr (ngx_http_process_request_headers (server_headers (sc_conf sc) (sc_underscores sc) (sc_ignore_invalid sc) (sc_table sc))
       b p fresh_header [] rq) (\<lambda>(outcome, hs, rq).
         case outcome of
           Headers_done q \<Rightarrow>
             bindr (ngx_http_process_request_header (sc_conf sc) (http_version r) (r_method r) rq) (\<lambda>res. case res of
               Inl code \<Rightarrow> Inr (Read_status code)
             | Inr rq \<Rightarrow> Inr (Read_ready rq r u q))
         | Headers_again q h \<Rightarrow> Inr Read_again
         | Headers_bad_request \<Rightarrow> Inr (Read_status NGX_HTTP_BAD_REQUEST)
         | Headers_closed \<Rightarrow> Inr Read_closed
         | Headers_stopped code \<Rightarrow> Inr (Read_status code))"

definition ngx_http_process_request_line :: "('re, 'c) http_server \<Rightarrow> string \<Rightarrow> 'c read_outcome c_result" where
  "ngx_http_process_request_line sc b =
     (case ngx_http_parse_request_line b 0 fresh_request of
        (rc, p, r) \<Rightarrow>
          if rc = NGX_AGAIN then Inr Read_again
          else if rc \<noteq> NGX_OK then Inr (Read_status NGX_HTTP_BAD_REQUEST)
          else case ngx_http_process_request_uri (sc_merge_slashes sc (sc_default sc)) b r of
              None \<Rightarrow> Inr (Read_status NGX_HTTP_BAD_REQUEST)
            | Some (r, u) \<Rightarrow>
                bindr (request_line_server (sc_conf sc) b r \<lparr>rq_in = fresh_headers_in, rq_srv_conf = sc_default sc\<rparr>) (\<lambda>res. case res of
                  Inl code \<Rightarrow> Inr (Read_status code)
                | Inr rq \<Rightarrow>
                    if http_version r < 1000 then
                      bindr (if hi_server (rq_in rq) = [] then ngx_http_set_virtual_server (sc_conf sc) [] rq else Inr (Inr rq)) (\<lambda>res. case res of
                        Inl code \<Rightarrow> Inr (Read_status code)
                      | Inr rq \<Rightarrow> Inr (Read_ready rq r u p))
                    else read_header sc b p r u rq))"

section \<open>Hosts and their reference\<close>

text \<open>
  The name in a host: for an address in brackets everything up to the closing bracket, otherwise everything before the
  first colon; a dot at its end is dropped, unless there is another one behind the name.
\<close>

definition host_name :: "string \<Rightarrow> string" where
  "host_name h =
     (if cur h = CHR ''['' then (if CHR '']'' \<in> set h then takeWhile (\<lambda>c. c \<noteq> CHR '']'') h @ '']'' else h)
      else takeWhile (\<lambda>c. c \<noteq> CHR '':'') h)"

definition server_name :: "string \<Rightarrow> string" where
  "server_name h =
     (let n = host_name h in
      if n \<noteq> [] \<and> last n = CHR ''.'' \<and> CHR ''.'' \<notin> set (drop (length n) h) then butlast n else n)"

fun double_dot :: "string \<Rightarrow> bool" where
  "double_dot (a # b # h) \<longleftrightarrow> a = CHR ''.'' \<and> b = CHR ''.'' \<or> double_dot (b # h)"
| "double_dot _ \<longleftrightarrow> False"

definition host_bytes_ok :: "string \<Rightarrow> bool" where
  "host_bytes_ok h \<longleftrightarrow> NUL \<notin> set h \<and> CHR ''/'' \<notin> set h \<and> \<not> double_dot h"

lemma double_dot_snoc: "double_dot (p @ [c]) \<longleftrightarrow> double_dot p \<or> p \<noteq> [] \<and> last p = CHR ''.'' \<and> c = CHR ''.''"
  by (induction p rule: double_dot.induct) auto

text \<open>The position of the last dot, or the length \<open>N\<close> of the whole host where there is none.\<close>

definition last_dot :: "nat \<Rightarrow> string \<Rightarrow> nat \<Rightarrow> bool" where
  "last_dot N p k \<longleftrightarrow> (if CHR ''.'' \<in> set p then k < length p \<and> p ! k = CHR ''.'' \<and> CHR ''.'' \<notin> set (drop (Suc k) p) else k = N)"

definition name_complete :: "string \<Rightarrow> bool" where
  "name_complete p \<longleftrightarrow> (if cur p = CHR ''['' then CHR '']'' \<in> set p else CHR '':'' \<in> set p)"

definition is_upper :: "char \<Rightarrow> bool" where
  "is_upper c \<longleftrightarrow> CHR ''A'' \<le> c \<and> c \<le> CHR ''Z''"

definition scanned :: "nat \<Rightarrow> bool \<Rightarrow> string \<Rightarrow> host_scan \<Rightarrow> bool" where
  "scanned N alloc p s \<longleftrightarrow> last_dot N p (hs_dot_pos s) \<and>
     hs_state s = (if name_complete p then sw_rest else if cur p = CHR ''['' then sw_literal else sw_usual) \<and>
     hs_host_len s = (if name_complete p then length (host_name p) else N) \<and> hs_alloc s = (alloc \<or> (\<exists>c\<in>set p. is_upper c))"

lemma last_dot_snoc:
  "last_dot N (p @ [CHR ''.'']) (length p)"
  "c \<noteq> CHR ''.'' \<Longrightarrow> last_dot N (p @ [c]) k \<longleftrightarrow> last_dot N p k"
  by (auto simp: last_dot_def nth_append)

lemma last_dot_before:
  "last_dot N p k \<Longrightarrow> length p < N \<Longrightarrow> 0 < length p \<and> k = length p - 1 \<longleftrightarrow> p \<noteq> [] \<and> last p = CHR ''.''"
proof -
  assume a: "last_dot N p k" "length p < N"
  show ?thesis
  proof (cases "p \<noteq> [] \<and> last p = CHR ''.''")
    case True
    then obtain q where q: "p = q @ [CHR ''.'']" by (metis append_butlast_last_id)
    then show ?thesis using a(1) by (cases "k < length q") (auto simp: last_dot_def)
  next
    case False
    then show ?thesis using a by (auto simp: last_dot_def last_conv_nth split: if_splits)
  qed
qed

lemma host_name_snoc: "name_complete p \<Longrightarrow> host_name (p @ [c]) = host_name p"
  by (cases p) (auto simp: name_complete_def host_name_def split: if_splits)

lemma name_complete_snoc:
  "name_complete (p @ [c]) \<longleftrightarrow> name_complete p \<or> (if p = [] then c = CHR '':'' else if cur p = CHR ''['' then c = CHR '']'' else c = CHR '':'')"
  by (cases p) (auto simp: name_complete_def)

lemma takeWhile_snoc: "x \<notin> set xs \<Longrightarrow> takeWhile (\<lambda>c. c \<noteq> x) (xs @ [x]) = xs"
  by (induction xs) auto

lemma name_complete_short [simp]: "\<not> name_complete []" "name_complete [c] \<longleftrightarrow> c = CHR '':''" "host_name '':'' = []"
  by (auto simp: name_complete_def host_name_def)

lemma host_name_end:
  assumes "\<not> name_complete p" "name_complete (p @ [c])"
  shows "length (host_name (p @ [c])) = (if cur p = CHR ''['' then length p + 1 else length p)"
  using assms by (cases p) (auto simp: name_complete_def host_name_def takeWhile_snoc split: if_splits)

lemma cur_snoc: "p \<noteq> [] \<Longrightarrow> cur (p @ [c]) = cur p"
  by (cases p) auto

lemma scanned_parts:
  assumes "scanned N alloc p s" "c \<noteq> CHR ''.''" "hs_dot_pos s' = hs_dot_pos s" "hs_alloc s' = (hs_alloc s \<or> is_upper c)"
    "hs_state s' = (if name_complete (p @ [c]) then sw_rest else if cur (p @ [c]) = CHR ''['' then sw_literal else sw_usual)"
    "hs_host_len s' = (if name_complete (p @ [c]) then length (host_name (p @ [c])) else N)"
  shows "scanned N alloc (p @ [c]) s'"
  using assms last_dot_snoc(2) [OF assms(2), of N p] by (auto simp: scanned_def)

lemma host_byte_other:
  assumes s: "scanned N alloc p s" and c: "c \<noteq> CHR ''.''" "c \<noteq> NUL" "c \<noteq> CHR ''/''"
  shows "\<exists>s'. host_byte (length p) c s = Some s' \<and> scanned N alloc (p @ [c]) s'"
proof -
  note d = scanned_def name_complete_snoc host_byte_def is_upper_def
  let ?s = "the (host_byte (length p) c s)"
  have some: "host_byte (length p) c s = Some ?s" and dot: "hs_dot_pos ?s = hs_dot_pos s" "hs_alloc ?s = (hs_alloc s \<or> is_upper c)"
    using c by (auto simp: host_byte_def is_upper_def)
  consider (complete) "name_complete p" | (empty) "p = []" | (literal) "\<not> name_complete p" "p \<noteq> []" "cur p = CHR ''[''"
    | (usual) "\<not> name_complete p" "p \<noteq> []" "cur p \<noteq> CHR ''[''" by blast
  then have "hs_state ?s = (if name_complete (p @ [c]) then sw_rest else if cur (p @ [c]) = CHR ''['' then sw_literal else sw_usual) \<and>
    hs_host_len ?s = (if name_complete (p @ [c]) then length (host_name (p @ [c])) else N)"
  proof cases
    case complete
    then have "p \<noteq> []" by auto
    then show ?thesis using complete s c by (auto simp: d host_name_snoc)
  next
    case empty
    then show ?thesis using s c by (auto simp: d)
  next
    case literal
    then show ?thesis using s c host_name_end [of p c] by (auto simp: d cur_snoc)
  next
    case usual
    then show ?thesis using s c host_name_end [of p c] by (auto simp: d cur_snoc)
  qed
  then have "scanned N alloc (p @ [c]) ?s" using scanned_parts [OF s c(1) dot] by blast
  then show ?thesis using some by blast
qed

lemma host_byte_dot:
  assumes s: "scanned N alloc p s" and N: "length p < N"
  shows "host_byte (length p) CHR ''.'' s =
      (if p \<noteq> [] \<and> last p = CHR ''.'' then None else Some (s\<lparr>hs_dot_pos := length p\<rparr>)) \<and>
    scanned N alloc (p @ [CHR ''.'']) (s\<lparr>hs_dot_pos := length p\<rparr>)"
proof -
  have "0 < length p \<and> hs_dot_pos s = length p - 1 \<longleftrightarrow> p \<noteq> [] \<and> last p = CHR ''.''"
    using last_dot_before [OF _ N, of "hs_dot_pos s"] s by (simp add: scanned_def)
  moreover have "name_complete (p @ [CHR ''.'']) = name_complete p" by (auto simp: name_complete_snoc)
  moreover have "cur (p @ [CHR ''.'']) = CHR ''['' \<longleftrightarrow> cur p = CHR ''[''" by (cases p) auto
  ultimately show ?thesis
    using s last_dot_snoc(1) [of N p] by (simp add: host_byte_def scanned_def host_name_snoc is_upper_def)
qed

lemma double_dot_append: "double_dot p \<Longrightarrow> double_dot (p @ q)"
  by (induction p rule: double_dot.induct) auto

lemma host_bytes_prefix: "host_bytes_ok (p @ q) \<Longrightarrow> host_bytes_ok p"
  by (auto simp: host_bytes_ok_def double_dot_append)

lemma host_loop_scanned:
  assumes "scanned N alloc p s" "length p + length h = N" "host_bytes_ok p"
  shows "case host_loop (length p) h s of None \<Rightarrow> \<not> host_bytes_ok (p @ h) | Some s' \<Rightarrow> host_bytes_ok (p @ h) \<and> scanned N alloc (p @ h) s'"
  using assms
proof (induction h arbitrary: p s)
  case (Cons c h)
  have N: "length p < N" using Cons.prems(2) by simp
  have bad: "\<not> host_bytes_ok (p @ c # h)" if "\<not> host_bytes_ok (p @ [c])"
    using host_bytes_prefix [of "p @ [c]" h] that by auto
  have step: ?case if b: "host_byte (length p) c s = Some s'" "scanned N alloc (p @ [c]) s'" "host_bytes_ok (p @ [c])" for s'
    using Cons.IH [OF b(2) _ b(3)] Cons.prems(2) b(1) by (simp split: option.splits)
  show ?case
  proof (cases "c = CHR ''.''")
    case True
    note dot = host_byte_dot [OF Cons.prems(1) N]
    show ?thesis
    proof (cases "p \<noteq> [] \<and> last p = CHR ''.''")
      case twice: True
      then have "\<not> host_bytes_ok (p @ [c])" using True by (simp add: host_bytes_ok_def double_dot_snoc)
      then show ?thesis using bad dot twice True by simp
    next
      case False
      have "host_bytes_ok (p @ [c])" using False True Cons.prems(3) by (auto simp: host_bytes_ok_def double_dot_snoc)
      then show ?thesis using step [of "s\<lparr>hs_dot_pos := length p\<rparr>"] dot False True by simp
    qed
  next
    case False
    show ?thesis
    proof (cases "c = NUL \<or> c = CHR ''/''")
      case True
      then have "\<not> host_bytes_ok (p @ [c])" "host_byte (length p) c s = None" by (auto simp: host_bytes_ok_def host_byte_def)
      then show ?thesis using bad by simp
    next
      case ok: False
      then have "host_bytes_ok (p @ [c])" using False Cons.prems(3) by (auto simp: host_bytes_ok_def double_dot_snoc)
      then show ?thesis using host_byte_other [OF Cons.prems(1) False] step ok by blast
    qed
  qed
qed simp

lemma takeWhile_first: "x \<notin> set ys \<Longrightarrow> takeWhile (\<lambda>c. c \<noteq> x) (ys @ x # zs) = ys"
  by (induction ys) auto

lemma host_name_take: "\<exists>r. h = host_name h @ r"
proof (cases "cur h = CHR ''[''")
  case True
  show ?thesis
  proof (cases "CHR '']'' \<in> set h")
    case closed: True
    obtain ys zs where h: "h = ys @ CHR '']'' # zs" "CHR '']'' \<notin> set ys" using split_list_first [OF closed] by blast
    then have "host_name h = ys @ '']''" using True closed takeWhile_first [OF h(2)] by (simp add: host_name_def)
    then show ?thesis using h(1) by simp
  qed (simp add: host_name_def True)
qed (metis host_name_def takeWhile_dropWhile_id)

lemma host_name_whole: "\<not> name_complete h \<Longrightarrow> host_name h = h"
proof -
  have "x \<notin> set h \<Longrightarrow> takeWhile (\<lambda>c. c \<noteq> x) h = h" for x by (induction h) auto
  then show "\<not> name_complete h \<Longrightarrow> host_name h = h" by (auto simp: name_complete_def host_name_def split: if_splits)
qed

lemma strip_dot:
  assumes "last_dot (length h) h k" "h = n @ r"
  shows "0 < length n \<and> k = length n - 1 \<longleftrightarrow> n \<noteq> [] \<and> last n = CHR ''.'' \<and> CHR ''.'' \<notin> set r"
proof (cases "n = []")
  case False
  then obtain q c where n: "n = q @ [c]" by (metis append_butlast_last_id)
  show ?thesis
  proof (cases "CHR ''.'' \<in> set h")
    case True
    then have k: "k < length h" "h ! k = CHR ''.''" "CHR ''.'' \<notin> set (drop (Suc k) h)" using assms(1) by (simp_all add: last_dot_def)
    show ?thesis
    proof (cases "k = length q")
      case True
      then show ?thesis using k n assms(2) by (simp add: nth_append)
    next
      case ne: False
      have "r ! (k - Suc (length q)) \<in> set r" if "length q < k" using that k(1) n assms(2) by (intro nth_mem) simp
      then show ?thesis using k n ne assms(2) by (cases "k < length q") (auto simp: nth_append nth_Cons')
    qed
  next
    case False
    then show ?thesis using assms n by (auto simp: last_dot_def)
  qed
qed simp

lemma lower_id: "\<forall>c\<in>set s. \<not> is_upper c \<Longrightarrow> map ngx_tolower s = s"
  by (induction s) (auto simp: ngx_tolower_def is_upper_def)

lemma strlow_take: "n \<le> length s \<Longrightarrow> ngx_strlow s n = Inr (map ngx_tolower (take n s))"
proof (induction s arbitrary: n)
  case (Cons c s)
  then show ?case by (cases n) auto
qed simp

lemma validate_host_ref:
  "ngx_http_validate_host True alloc host =
     Inr (if host_bytes_ok host \<and> server_name host \<noteq> [] then (NGX_OK, map ngx_tolower (server_name host)) else (NGX_DECLINED, host))"
proof -
  let ?N = "length host"
  let ?s0 = "\<lparr>hs_dot_pos = ?N, hs_host_len = ?N, hs_state = sw_usual, hs_alloc = alloc\<rparr>"
  have "scanned ?N alloc [] ?s0" by (simp add: scanned_def last_dot_def)
  from host_loop_scanned [OF this, of host] have loop: "case host_loop 0 host ?s0 of None \<Rightarrow> \<not> host_bytes_ok host
    | Some s \<Rightarrow> host_bytes_ok host \<and> scanned ?N alloc host s" by (simp add: host_bytes_ok_def split: option.splits)
  show ?thesis
  proof (cases "host_loop 0 host ?s0")
    case None
    then show ?thesis using loop by (simp add: ngx_http_validate_host_def)
  next
    case (Some s)
    then have ok: "host_bytes_ok host" and s: "scanned ?N alloc host s" using loop by simp_all
    obtain r where r: "host = host_name host @ r" using host_name_take by blast
    have hlen: "hs_host_len s = length (host_name host)"
      using s host_name_whole [of host] by (cases "name_complete host") (simp_all add: scanned_def)
    have rest: "drop (length (host_name host)) host = r" using r by (metis append_eq_conv_conj)
    have dot: "last_dot ?N host (hs_dot_pos s)" using s by (simp add: scanned_def)
    define len where "len = (if 0 < hs_host_len s \<and> hs_dot_pos s = hs_host_len s - 1 then hs_host_len s - 1 else hs_host_len s)"
    have strip: "0 < hs_host_len s \<and> hs_dot_pos s = hs_host_len s - 1 \<longleftrightarrow> host_name host \<noteq> [] \<and> last (host_name host) = CHR ''.'' \<and> CHR ''.'' \<notin> set r"
      using strip_dot [OF dot r] hlen by simp
    have le: "len \<le> length (host_name host)" using hlen by (simp add: len_def)
    have "take len host = take len (host_name host)" using r le by (metis append_Nil2 diff_is_0_eq take0 take_append)
    then have sn: "take len host = server_name host" using strip rest hlen by (auto simp: len_def server_name_def Let_def butlast_conv_take)
    have N: "length (host_name host) \<le> ?N" by (subst r) simp
    then have sl: "length (server_name host) = len" "len \<le> ?N" using sn [symmetric] le by simp_all
    have "take len host = map ngx_tolower (take len host)" if "\<not> hs_alloc s"
      using that s by (intro lower_id [symmetric]) (auto simp: scanned_def dest: in_set_takeD)
    moreover have "ngx_http_validate_host True alloc host = (if len = 0 then Inr (NGX_DECLINED, host)
        else if hs_alloc s then bindr (ngx_strlow host len) (\<lambda>h. Inr (NGX_OK, h)) else Inr (NGX_OK, take len host))"
      unfolding ngx_http_validate_host_def Some len_def by (simp only: Let_def option.case if_True not_True_eq_False if_False)
    ultimately show ?thesis using ok sn sl(1) strlow_take [OF sl(2)] by auto
  qed
qed

text \<open>
  C14. \<open>ngx_http_validate_host\<close> against its reference: with memory, a host is accepted exactly when it holds no NUL, no
  slash and no two dots in a row and its name is not empty, and what it becomes is its name in lower case, without port and
  brackets kept; otherwise it is declined and left as it was.
\<close>

theorem validate_host_eq:
  "ngx_http_validate_host True alloc host =
     Inr (if host_bytes_ok host \<and> server_name host \<noteq> [] then (NGX_OK, map ngx_tolower (server_name host)) else (NGX_DECLINED, host))"
  by (rule validate_host_ref)

end
