(* ===== verification/Ngx_Http_Framing.thy ===== *)
theory Ngx_Http_Framing
  imports Ngx_Http_Request
begin

text \<open>
  What the handlers of \<open>Ngx_Http_Request\<close> make of a whole header. The table of the server finds the handler of
  every known field; a field that is kept once keeps its first value. From that, \<open>request_framing\<close> says how the
  body behind an accepted header is delimited, and which headers are refused.
\<close>

section \<open>What the handlers do to a request\<close>

text \<open>The table that the server builds finds the handler of every known field.\<close>

definition known_handler :: "string \<Rightarrow> hi_handler option" where
  "known_handler lc = map_of (map (\<lambda>(n, v). (map ngx_tolower n, v)) ngx_http_headers_in) lc"

lemma headers_in_hashed: "hashed headers_in_keys"
  by (auto simp: hashed_def headers_in_keys_def)

lemma headers_in_entries: "map_of (entries headers_in_keys) = known_handler"
  by (simp add: fun_eq_iff known_handler_def entries_def headers_in_keys_def filter_map comp_def case_prod_unfold)

lemma headers_in_hash_find:
  assumes "ngx_http_init_headers_in_hash cacheline mem = Inr (Some t)" "0 < cacheline" "cacheline \<le> 32000"
  shows "ngx_hash_find t (ngx_hash_key name) name = Inr (known_handler name)"
proof -
  have "64 \<le> ngx_align_ptr 64 cacheline" "ngx_align_ptr 64 cacheline \<le> 64 + cacheline"
    using align_ptr_ge [OF assms(2), of 64] align_ptr_le [OF assms(2), of 64] by simp_all
  then have "hinit_ok cacheline (ngx_align_ptr 64 cacheline)" using assms(2,3) by (simp add: hinit_ok_def)
  from hash_init_cases [OF this, of mem 512 headers_in_keys] assms(1) obtain n where "0 < n" "t = table_of n headers_in_keys"
    by (auto simp: ngx_http_init_headers_in_hash_def)
  then show ?thesis using find_table_of [OF headers_in_hashed] headers_in_entries by simp
qed

definition named :: "string \<Rightarrow> (string \<times> string) list \<Rightarrow> string list" where
  "named n fs = map snd (filter (\<lambda>f. map ngx_tolower (fst f) = n) fs)"

section \<open>Fields that are kept\<close>

lemma known_content_length: "known_handler lc = Some (Process_unique Hi_content_length) \<longleftrightarrow> lc = ''content-length''"
  by (auto simp: known_handler_def ngx_http_headers_in_def ngx_tolower_def char_or_0x20_def less_eq_char_def split: if_splits)

lemma known_transfer_encoding: "known_handler lc = Some (Process_line Hi_transfer_encoding) \<longleftrightarrow> lc = ''transfer-encoding''"
  by (auto simp: known_handler_def ngx_http_headers_in_def ngx_tolower_def char_or_0x20_def less_eq_char_def split: if_splits)

lemma known_others:
  "known_handler lc \<noteq> Some (Process_line Hi_content_length)" "known_handler lc \<noteq> Some (Process_unique Hi_transfer_encoding)"
  by (simp_all add: known_handler_def ngx_http_headers_in_def ngx_tolower_def char_or_0x20_def less_eq_char_def)

text \<open>
  The members that only the two general handlers write. For them a handler that goes on keeps the first field it was
  called for, and the handler of a unique field does not go on for a second one; the lengths are not touched.
\<close>

definition plain_member :: "hi_member \<Rightarrow> bool" where
  "plain_member m \<longleftrightarrow> m \<noteq> Hi_host \<and> m \<noteq> Hi_user_agent"

definition keeps :: "hi_member \<Rightarrow> hi_handler \<Rightarrow> bool" where
  "keeps m hh \<longleftrightarrow> hh = Process_line m \<or> hh = Process_unique m"

fun first_of :: "'a option \<Rightarrow> 'a list \<Rightarrow> 'a option" where
  "first_of (Some x) hs = Some x"
| "first_of None [] = None"
| "first_of None (h # hs) = Some h"

lemma goes_on_iff:
  "(case res of Inl code \<Rightarrow> Inr (Inl code) | Inr s \<Rightarrow> f s) = Inr (Inr y) \<longleftrightarrow> (\<exists>s. res = Inr s \<and> f s = Inr (Inr y))"
  by (cases res) auto

lemma user_agent_same:
  "hi_elt (user_agent_msie ua hi) = hi_elt hi" "content_length_n (user_agent_msie ua hi) = content_length_n hi"
  "hi_chunked (user_agent_msie ua hi) = hi_chunked hi"
  "hi_elt (user_agent_other ua hi) = hi_elt hi" "content_length_n (user_agent_other ua hi) = content_length_n hi"
  "hi_chunked (user_agent_other ua hi) = hi_chunked hi"
  by (simp_all add: user_agent_msie_def user_agent_other_def Let_def split: option.split)

lemma set_virtual_server_same:
  "ngx_http_set_virtual_server cf host r = Inr (Inr r') \<Longrightarrow> rq_in r' = rq_in r"
  by (auto simp: ngx_http_set_virtual_server_def bindr_Inr_iff split: if_splits option.splits)

lemma process_host_same:
  assumes "ngx_http_process_host cf h r = Inr (Inr r')"
  shows "content_length_n (rq_in r') = content_length_n (rq_in r) \<and> hi_chunked (rq_in r') = hi_chunked (rq_in r) \<and>
    (m \<noteq> Hi_host \<longrightarrow> hi_elt (rq_in r') m = hi_elt (rq_in r) m)"
  using assms
  by (auto simp: ngx_http_process_host_def Let_def set_elt_def bindr_Inr_iff goes_on_iff dest!: set_virtual_server_same split: if_splits)

lemma run_handler_keeps:
  assumes "run_handler cf hh h r = Inr (Inr r')"
  shows "content_length_n (rq_in r') = content_length_n (rq_in r) \<and> hi_chunked (rq_in r') = hi_chunked (rq_in r) \<and>
    (plain_member m \<longrightarrow> hi_elt (rq_in r') m = first_of (hi_elt (rq_in r) m) (if keeps m hh then [h] else [])) \<and>
    (hh = Process_unique m \<longrightarrow> hi_elt (rq_in r) m = None)"
proof (cases hh)
  case Process_host
  then show ?thesis using assms process_host_same [of cf h r r' m]
    by (cases "hi_elt (rq_in r) m") (auto simp: run_handler_def plain_member_def keeps_def)
next
  case Process_connection
  then show ?thesis using assms
    by (cases "hi_elt (rq_in r) m") (auto simp: run_handler_def ngx_http_process_connection_def keeps_def split: if_splits)
next
  case Process_user_agent
  then show ?thesis using assms
    by (cases "hi_elt (rq_in r) m") (auto simp: run_handler_def ngx_http_process_user_agent_def keeps_def plain_member_def
        Let_def user_agent_same set_elt_def split: if_splits)
next
  case (Process_line k)
  then show ?thesis using assms
    by (cases "hi_elt (rq_in r) m") (auto simp: run_handler_def ngx_http_process_header_line_def keeps_def set_elt_def split: if_splits)
next
  case (Process_unique k)
  then show ?thesis using assms
    by (cases "hi_elt (rq_in r) m") (auto simp: run_handler_def ngx_http_process_unique_header_line_def keeps_def set_elt_def split: if_splits)
next
  case (Process_multi l)
  then show ?thesis using assms
    by (cases "hi_elt (rq_in r) m") (auto simp: run_handler_def ngx_http_process_multi_header_lines_def keeps_def Let_def split: if_splits)
qed

text \<open>The calls for a header under the table of the server.\<close>

definition handled :: "hi_member \<Rightarrow> (string \<times> string) \<Rightarrow> bool" where
  "handled m f \<longleftrightarrow> (case known_handler (map ngx_tolower (fst f)) of None \<Rightarrow> False | Some hh \<Rightarrow> keeps m hh)"

definition unique_only :: "hi_member \<Rightarrow> bool" where
  "unique_only m \<longleftrightarrow> (\<forall>lc. known_handler lc \<noteq> Some (Process_line m))"

lemma call_handler_table:
  assumes "\<forall>name. ngx_hash_find t (ngx_hash_key name) name = Inr (known_handler name)"
  shows "call_handler (server_headers cf u i t) (field_of f) r =
    (case known_handler (map ngx_tolower (fst f)) of None \<Rightarrow> Inr (Inr r) | Some hh \<Rightarrow> run_handler cf hh (field_of f) r)"
proof -
  have "h_hash (field_of f) = ngx_hash_key (h_lowcase_key (field_of f))" by (simp add: field_of_def ngx_hash_key_lc_def ngx_hash_key_def hash_lc_append)
  then show ?thesis using assms by (simp add: call_handler_def server_headers_def field_of_def cong: option.case_cong)
qed

lemma call_handlers_keep:
  assumes "\<forall>name. ngx_hash_find t (ngx_hash_key name) name = Inr (known_handler name)" "plain_member m"
    "call_handlers (server_headers cf u i t) (map field_of fs) r = Inr (Inr r')"
  shows "content_length_n (rq_in r') = content_length_n (rq_in r) \<and> hi_chunked (rq_in r') = hi_chunked (rq_in r) \<and>
    hi_elt (rq_in r') m = first_of (hi_elt (rq_in r) m) (map field_of (filter (handled m) fs)) \<and>
    (unique_only m \<longrightarrow> length (filter (handled m) fs) \<le> (if hi_elt (rq_in r) m = None then 1 else 0))"
  using assms(3)
proof (induction fs arbitrary: r)
  case Nil
  then show ?case by (cases "hi_elt (rq_in r) m") auto
next
  case (Cons f fs)
  from Cons.prems obtain s where s: "call_handler (server_headers cf u i t) (field_of f) r = Inr (Inr s)"
    "call_handlers (server_headers cf u i t) (map field_of fs) s = Inr (Inr r')"
    by (auto simp: bindr_Inr_iff goes_on_iff)
  note IH = Cons.IH [OF s(2)]
  show ?case
  proof (cases "known_handler (map ngx_tolower (fst f))")
    case None
    then have "s = r" using s(1) call_handler_table [OF assms(1), of cf u i f r] by simp
    then show ?thesis using IH None by (simp add: handled_def)
  next
    case (Some hh)
    have h: "handled m f \<longleftrightarrow> keeps m hh" by (simp add: handled_def Some)
    have "run_handler cf hh (field_of f) r = Inr (Inr s)"
      using s(1) call_handler_table [OF assms(1), of cf u i f r] Some by simp
    note run = run_handler_keeps [OF this, of m]
    then have e: "hi_elt (rq_in s) m = first_of (hi_elt (rq_in r) m) (if handled m f then [field_of f] else [])"
      using assms(2) h by simp
    have u: "handled m f \<Longrightarrow> unique_only m \<Longrightarrow> hi_elt (rq_in r) m = None"
      using run Some h by (auto simp: keeps_def unique_only_def)
    show ?thesis
    proof (cases "handled m f")
      case True
      then show ?thesis using IH run u e by (cases "hi_elt (rq_in r) m") auto
    next
      case False
      then have "hi_elt (rq_in s) m = hi_elt (rq_in r) m" using e by (cases "hi_elt (rq_in r) m") auto
      then show ?thesis using IH run False by simp
    qed
  qed
qed

section \<open>How the body is delimited\<close>

datatype framing = Body_chunked | Body_length int | Body_none

definition framing_of :: "ngx_http_headers_in_t \<Rightarrow> framing" where
  "framing_of hi = (if hi_chunked hi then Body_chunked else if content_length_n hi = - 1 then Body_none else Body_length (content_length_n hi))"

text \<open>The reference, on the fields of a header: \<open>None\<close> is a header that must be refused.\<close>

definition framing :: "(string \<times> string) list \<Rightarrow> framing option" where
  "framing fs =
     (let te = map (map ngx_tolower) (named ''transfer-encoding'' fs); cl = named ''content-length'' fs in
      if 1 < length cl \<or> te \<noteq> [] \<and> hd te \<noteq> ''chunked'' \<and> hd te \<noteq> ''identity'' then None
      else if cl = [] then Some (if te \<noteq> [] \<and> hd te = ''chunked'' then Body_chunked else Body_none)
      else if hd cl = [] \<or> \<not> list_all is_digit (hd cl) \<or> wrap64 (dec_val (hd cl)) < 0 then None
      else Some (if te \<noteq> [] \<and> hd te = ''chunked'' then Body_chunked else Body_length (wrap64 (dec_val (hd cl)))))"

lemma atoof_eq:
  "ngx_atoof s = (if s \<noteq> [] \<and> list_all is_digit s \<and> 0 \<le> wrap64 (dec_val s) then wrap64 (dec_val s) else NGX_ERROR)"
  using ngx_atoi_eq [of s] by (simp add: ngx_atoi_def ngx_atoof_def list_all_iff)

lemma coding_eq:
  assumes "NUL \<notin> set c" "map ngx_tolower c = c"
  shows "length s = length c \<and> ngx_strncasecmp s c (length c) = 0 \<longleftrightarrow> map ngx_tolower s = c"
  using strncasecmp_eq [of "length c" s c] assms by (metis length_map order_refl take_all_iff)

lemma codings:
  "length s = 7 \<and> ngx_strncasecmp s ''chunked'' 7 = 0 \<longleftrightarrow> map ngx_tolower s = ''chunked''"
  "length s \<noteq> 8 \<or> ngx_strncasecmp s ''identity'' 8 \<noteq> 0 \<longleftrightarrow> map ngx_tolower s \<noteq> ''identity''"
proof -
  have l: "map ngx_tolower ''chunked'' = ''chunked''" "map ngx_tolower ''identity'' = ''identity''" by code_simp+
  have n: "length ''chunked'' = 7" "length ''identity'' = 8" by simp_all
  show "length s = 7 \<and> ngx_strncasecmp s ''chunked'' 7 = 0 \<longleftrightarrow> map ngx_tolower s = ''chunked''"
    using coding_eq [OF _ l(1), of s] unfolding n by simp
  show "length s \<noteq> 8 \<or> ngx_strncasecmp s ''identity'' 8 \<noteq> 0 \<longleftrightarrow> map ngx_tolower s \<noteq> ''identity''"
    using coding_eq [OF _ l(2), of s] unfolding n by auto
qed

lemma process_request_header_framing:
  assumes "ngx_http_process_request_header cf version method r = Inr (Inr r')" "content_length_n (rq_in r) = - 1" "\<not> hi_chunked (rq_in r)"
  shows "case hi_elt (rq_in r) Hi_content_length of
      None \<Rightarrow> framing_of (rq_in r') = (case hi_elt (rq_in r) Hi_transfer_encoding of
        None \<Rightarrow> Body_none | Some h \<Rightarrow> if map ngx_tolower (h_value h) = ''chunked'' then Body_chunked else Body_none)
    | Some l \<Rightarrow> ngx_atoof (h_value l) \<noteq> NGX_ERROR \<and> framing_of (rq_in r') = (case hi_elt (rq_in r) Hi_transfer_encoding of
        None \<Rightarrow> Body_length (ngx_atoof (h_value l))
      | Some h \<Rightarrow> if map ngx_tolower (h_value h) = ''chunked'' then Body_chunked else Body_length (ngx_atoof (h_value l)))"
    and "case hi_elt (rq_in r) Hi_transfer_encoding of None \<Rightarrow> True | Some h \<Rightarrow> map ngx_tolower (h_value h) \<in> {''chunked'', ''identity''}"
proof -
  let ?cl = "hi_elt (rq_in r) Hi_content_length" and ?te = "hi_elt (rq_in r) Hi_transfer_encoding"
  from assms(1) obtain q where q: "(if hi_server (rq_in r) = [] then ngx_http_set_virtual_server cf [] r else Inr (Inr r)) = Inr (Inr q)"
    by (auto simp: ngx_http_process_request_header_def bindr_Inr_iff goes_on_iff)
  then have in_q: "rq_in q = rq_in r" using set_virtual_server_same [of cf "[]" r q] by (auto split: if_splits)
  note d = ngx_http_process_request_header_def q bindr_simps sum.case in_q codings
  show "case ?te of None \<Rightarrow> True | Some h \<Rightarrow> map ngx_tolower (h_value h) \<in> {''chunked'', ''identity''}"
    using assms(1) [unfolded d] by (auto simp: Let_def split: option.splits if_splits)
  show "case ?cl of
      None \<Rightarrow> framing_of (rq_in r') = (case ?te of
        None \<Rightarrow> Body_none | Some h \<Rightarrow> if map ngx_tolower (h_value h) = ''chunked'' then Body_chunked else Body_none)
    | Some l \<Rightarrow> ngx_atoof (h_value l) \<noteq> NGX_ERROR \<and> framing_of (rq_in r') = (case ?te of
        None \<Rightarrow> Body_length (ngx_atoof (h_value l))
      | Some h \<Rightarrow> if map ngx_tolower (h_value h) = ''chunked'' then Body_chunked else Body_length (ngx_atoof (h_value l)))"
    using assms(1) [unfolded d] assms(2,3) by (auto simp: Let_def framing_of_def split: option.splits if_splits)
qed

section \<open>The table of the server\<close>

text \<open>
  The table is built for every cache line size that the server uses (\<open>ngx_cacheline_size\<close> is 32, 64 or 128): the
  search for a size ends at the latest at 32 buckets.
\<close>

lemma headers_in_hashes:
  "ngx_hash_key_lc ''Host'' = 3208616"
  "ngx_hash_key_lc ''Connection'' = 2715320498552542"
  "ngx_hash_key_lc ''If-Modified-Since'' = 5891804901657752038"
  "ngx_hash_key_lc ''If-Unmodified-Since'' = 9347072125840348351"
  "ngx_hash_key_lc ''If-Match'' = 2980741837077"
  "ngx_hash_key_lc ''If-None-Match'' = 11549170066067180960"
  "ngx_hash_key_lc ''User-Agent'' = 3194399592611459"
  "ngx_hash_key_lc ''Referer'' = 104164284717"
  "ngx_hash_key_lc ''Content-Length'' = 17349979291134928570"
  "ngx_hash_key_lc ''Content-Type'' = 2609428126162509838"
  "ngx_hash_key_lc ''Range'' = 108280125"
  "ngx_hash_key_lc ''If-Range'' = 2980746449037"
  "ngx_hash_key_lc ''Transfer-Encoding'' = 14551824004462063861"
  "ngx_hash_key_lc ''Expect'' = 3005803609"
  "ngx_hash_key_lc ''Upgrade'' = 107143010844"
  "ngx_hash_key_lc ''Accept-Encoding'' = 13186714934849184888"
  "ngx_hash_key_lc ''Via'' = 116750"
  "ngx_hash_key_lc ''Authorization'' = 5687030035641917561"
  "ngx_hash_key_lc ''Keep-Alive'' = 2918061121626245"
  "ngx_hash_key_lc ''X-Forwarded-For'' = 2960984997632184587"
  "ngx_hash_key_lc ''Cookie'' = 2940209764"
  by (simp_all add: ngx_hash_key_lc_def ngx_hash_def ngx_tolower_def char_or_0x20_def less_eq_char_def)

lemma key_index_record: "key_index n \<lparr>hk_null = b, hk_key = s, hk_hash = h, hk_value = v\<rparr> = unat h mod n"
  by (simp add: key_index_def)

lemma elt_size_record: "elt_size \<lparr>hk_null = b, hk_key = s, hk_hash = h, hk_value = v\<rparr> = 8 + (length s + 9) div 8 * 8"
  by (simp add: elt_size_def ngx_align_ptr_def)

lemma replicate_32: "replicate 32 (0 :: nat) =
    [0, 0, 0, 0, 0, 0, 0, 0, 0, 0, 0, 0, 0, 0, 0, 0, 0, 0, 0, 0, 0, 0, 0, 0, 0, 0, 0, 0, 0, 0, 0, 0]"
  by (simp add: eval_nat_numeral)

lemma headers_in_fit:
  "test_names 32 56 headers_in_keys (replicate 32 0)" "test_names 32 120 headers_in_keys (replicate 32 0)"
  "\<forall>k\<in>set headers_in_keys. elt_size k + 8 \<le> 64" "length headers_in_keys = 21"
  by (simp_all add: headers_in_keys_def ngx_http_headers_in_def headers_in_hashes key_index_record elt_size_record u16_def
      replicate_32 Let_def)

lemma find_size_exists:
  "n \<le> k \<Longrightarrow> k < m \<Longrightarrow> test_names k b ks (replicate k 0) \<Longrightarrow> find_size m b ks n \<noteq> None"
proof (induction m b ks n rule: find_size.induct)
  case (1 m b ks n)
  then show ?case by (subst find_size.simps) (cases "n = k", auto)
qed

lemma headers_in_table:
  assumes "cacheline \<in> {32, 64, 128}"
  shows "\<exists>t. ngx_http_init_headers_in_hash cacheline True = Inr (Some t)"
proof -
  have hs: "hinit_ok cacheline (ngx_align_ptr 64 cacheline)" using assms by (auto simp: hinit_ok_def ngx_align_ptr_def)
  have fit: "\<not> (\<exists>k\<in>set headers_in_keys. b < elt_size k + 8)" if "64 \<le> b" for b using headers_in_fit(3) that by force
  obtain n m where "find_size 512 56 headers_in_keys 7 = Some n" "find_size 512 120 headers_in_keys 3 = Some m"
    using find_size_exists [OF _ _ headers_in_fit(1), of 7 512] find_size_exists [OF _ _ headers_in_fit(2), of 3 512] by auto
  then have "ngx_http_init_headers_in_hash cacheline True \<noteq> Inr None"
    using assms fit by (auto simp: ngx_http_init_headers_in_hash_def ngx_hash_init_def headers_in_fit(4) ngx_align_ptr_def
        size_t_sub_def Let_def bindr_Inr_iff)
  then show ?thesis using hash_init_cases [OF hs, of True 512 headers_in_keys] by (auto simp: ngx_http_init_headers_in_hash_def)
qed

section \<open>Headers that are accepted\<close>

text \<open>A header with a valid \<open>Host\<close> and otherwise unknown fields, in a server without other names.\<close>

definition host_valid :: "string \<Rightarrow> bool" where
  "host_valid v \<longleftrightarrow> host_bytes_ok v \<and> server_name v \<noteq> []"

definition plain_field :: "string \<times> string \<Rightarrow> bool" where
  "plain_field f \<longleftrightarrow> known_handler (map ngx_tolower (fst f)) = None \<or>
     map ngx_tolower (fst f) = ''host'' \<and> host_valid (snd f)"

definition plain_header :: "(string \<times> string) list \<Rightarrow> bool" where
  "plain_header fs \<longleftrightarrow> list_all field_wf fs \<and> list_all plain_field fs \<and> named ''host'' fs \<noteq> []"

definition single_server :: "('re, 'c) request_conf \<Rightarrow> bool" where
  "single_server cf \<longleftrightarrow> rc_virtual_names cf = None \<and> rc_host_mem cf"

definition only_host :: "'c request_state \<Rightarrow> bool" where
  "only_host rq \<longleftrightarrow> (\<forall>m. m \<noteq> Hi_host \<longrightarrow> hi_elt (rq_in rq) m = None)"

lemma known_host: "known_handler ''host'' = Some Process_host"
  by (simp add: known_handler_def ngx_http_headers_in_def ngx_tolower_def char_or_0x20_def less_eq_char_def)

lemma single_set_virtual_server: "single_server cf \<Longrightarrow> ngx_http_set_virtual_server cf host rq = Inr (Inr rq)"
  by (simp add: single_server_def ngx_http_set_virtual_server_def ngx_http_find_virtual_server_def)

lemma plain_process_host:
  assumes "single_server cf" "only_host rq" "host_valid (h_value h)"
  shows "\<exists>rq'. ngx_http_process_host cf h rq = Inr (Inr rq') \<and> only_host rq' \<and> hi_elt (rq_in rq') Hi_host \<noteq> None"
proof -
  have "ngx_http_validate_host (rc_host_mem cf) False (h_value h) = Inr (NGX_OK, map ngx_tolower (server_name (h_value h)))"
    using validate_host_ref [of False "h_value h"] assms(1,3) by (simp add: single_server_def host_valid_def)
  then show ?thesis
    using assms(2) single_set_virtual_server [OF assms(1)]
    by (auto simp: ngx_http_process_host_def Let_def only_host_def set_elt_def)
qed

lemma plain_call_handlers:
  assumes find: "\<forall>name. ngx_hash_find t (ngx_hash_key name) name = Inr (known_handler name)"
    and "single_server cf" "only_host rq" "list_all plain_field fs"
  shows "\<exists>rq'. call_handlers (server_headers cf u i t) (map field_of fs) rq = Inr (Inr rq') \<and> only_host rq' \<and>
    (named ''host'' fs \<noteq> [] \<or> hi_elt (rq_in rq) Hi_host \<noteq> None \<longrightarrow> hi_elt (rq_in rq') Hi_host \<noteq> None)"
  using assms(3,4)
proof (induction fs arbitrary: rq)
  case Nil
  then show ?case by (simp add: named_def)
next
  case (Cons f fs)
  note call = call_handler_table [OF find, of cf u i f rq]
  have v: "h_value (field_of f) = snd f" by (simp add: field_of_def)
  show ?case
  proof (cases "map ngx_tolower (fst f) = ''host''")
    case True
    then have "host_valid (h_value (field_of f))" using Cons.prems(2) known_host by (simp add: plain_field_def v)
    from plain_process_host [OF assms(2) Cons.prems(1) this] obtain rq1 where
      rq1: "ngx_http_process_host cf (field_of f) rq = Inr (Inr rq1)" "only_host rq1" "hi_elt (rq_in rq1) Hi_host \<noteq> None" by blast
    moreover have "call_handler (server_headers cf u i t) (field_of f) rq = Inr (Inr rq1)"
      unfolding call True known_host using rq1(1) by (simp add: run_handler_def)
    ultimately show ?thesis using Cons.IH [OF rq1(2)] Cons.prems(2) by auto
  next
    case False
    then have "known_handler (map ngx_tolower (fst f)) = None" using Cons.prems(2) by (simp add: plain_field_def)
    then show ?thesis using call Cons.IH [OF Cons.prems(1)] Cons.prems(2) False by (simp add: named_def)
  qed
qed

lemma plain_request_header:
  assumes "single_server cf" "only_host rq" "hi_elt (rq_in rq) Hi_host \<noteq> None" "method AND NGX_HTTP_TRACE = 0"
  shows "\<exists>rq'. ngx_http_process_request_header cf version method rq = Inr (Inr rq')"
  using assms single_set_virtual_server [OF assms(1), of "[]" rq]
  by (simp add: ngx_http_process_request_header_def only_host_def)

lemma read_header_ready:
  assumes "cacheline \<in> {32, 64, 128}" "ngx_http_init_headers_in_hash cacheline True = Inr (Some (sc_table sc))" "single_server (sc_conf sc)"
    and "plain_header fs" "only_host rq" "r_method r AND NGX_HTTP_TRACE = 0"
  shows "\<exists>rq'. read_header sc (a @ header_block fs @ rest) (length a) r u rq = Inr (Read_ready rq' r u (length (a @ header_block fs)))"
proof -
  let ?cf = "server_headers (sc_conf sc) (sc_underscores sc) (sc_ignore_invalid sc) (sc_table sc)"
  have find: "\<forall>name. ngx_hash_find (sc_table sc) (ngx_hash_key name) name = Inr (known_handler name)"
    using headers_in_hash_find [OF assms(2)] assms(1) by auto
  have fs: "list_all field_wf fs" "list_all plain_field fs" "named ''host'' fs \<noteq> []" using assms(4) by (simp_all add: plain_header_def)
  obtain rq1 where rq1: "call_handlers ?cf (map field_of fs) rq = Inr (Inr rq1)" "only_host rq1" "hi_elt (rq_in rq1) Hi_host \<noteq> None"
    using plain_call_handlers [OF find assms(3,5) fs(2)] fs(3) by blast
  obtain rq2 where "ngx_http_process_request_header (sc_conf sc) (http_version r) (r_method r) rq1 = Inr (Inr rq2)"
    using plain_request_header [OF assms(3) rq1(2,3) assms(6)] by blast
  moreover have "memory_ok ?cf" by (simp add: memory_ok_def server_headers_def)
  from process_header_block(1) [OF this fs(1) _ _ rq1(1), of fresh_header a rest "[]"]
  have "ngx_http_process_request_headers ?cf (a @ header_block fs @ rest) (length a) fresh_header [] rq =
      Inr (Headers_done (length (a @ header_block fs)), map field_of fs, rq1)" by (simp add: fresh_header_def)
  ultimately show ?thesis by (simp add: read_header_def)
qed

section \<open>Properties\<close>

lemma handled_fields:
  "handled Hi_content_length f \<longleftrightarrow> map ngx_tolower (fst f) = ''content-length''"
  "handled Hi_transfer_encoding f \<longleftrightarrow> map ngx_tolower (fst f) = ''transfer-encoding''"
  using known_content_length [of "map ngx_tolower (fst f)"] known_transfer_encoding [of "map ngx_tolower (fst f)"]
    known_others [of "map ngx_tolower (fst f)"] by (auto simp: handled_def keeps_def split: option.splits)

lemma first_value: "first_of None (map field_of (filter (\<lambda>f. map ngx_tolower (fst f) = n) fs)) =
    (case filter (\<lambda>f. map ngx_tolower (fst f) = n) fs of [] \<Rightarrow> None | f # _ \<Rightarrow> Some (field_of f))"
  by (simp split: list.split)

text \<open>
  C13. How the body of a request is delimited. For a header of well formed fields that the loop over the lines and then
  \<open>ngx_http_process_request_header\<close> accept, the framing that the request ends up with is the one of the reference: at
  most one \<open>Content-Length\<close>, whose value is digits only and not negative as a 64 bit number, the first
  \<open>Transfer-Encoding\<close> (in any case) is \<open>chunked\<close>, which overrides the length, or \<open>identity\<close>, which does not count,
  and every other header is refused. The names are found in any case through the hash table that the server builds.
\<close>

theorem request_framing:
  assumes table: "cacheline \<in> {32, 64, 128}" "ngx_http_init_headers_in_hash cacheline True = Inr (Some t)"
    and r: "rq_in r = fresh_headers_in\<lparr>hi_server := server\<rparr>" and fs: "list_all field_wf fs"
    and lines: "ngx_http_process_request_headers (server_headers cf u i t) (a @ header_block fs @ rest) (length a) fresh_header [] r =
      Inr (Headers_done p, hs, r')"
    and accepted: "ngx_http_process_request_header cf version method r' = Inr (Inr r'')"
  shows "framing fs = Some (framing_of (rq_in r''))"
proof -
  have find: "\<forall>name. ngx_hash_find t (ngx_hash_key name) name = Inr (known_handler name)"
    using headers_in_hash_find [OF table(2)] table(1) by auto
  have "memory_ok (server_headers cf u i t)" by (simp add: memory_ok_def server_headers_def)
  from header_done_handlers [OF this fs _ _ lines] have calls: "call_handlers (server_headers cf u i t) (map field_of fs) r = Inr (Inr r')"
    by (simp add: fresh_header_def)
  have plain: "plain_member Hi_content_length" "plain_member Hi_transfer_encoding" "unique_only Hi_content_length"
    by (simp_all add: plain_member_def unique_only_def known_others)
  have start: "hi_elt (rq_in r) m = None" "content_length_n (rq_in r) = - 1" "\<not> hi_chunked (rq_in r)" for m
    by (simp_all add: r fresh_headers_in_def)
  note cl = call_handlers_keep [OF find plain(1) calls, unfolded start handled_fields first_value]
    and te = call_handlers_keep [OF find plain(2) calls, unfolded start handled_fields first_value]
  note body = process_request_header_framing [OF accepted]
  let ?cl = "filter (\<lambda>f. map ngx_tolower (fst f) = ''content-length'') fs"
  let ?te = "filter (\<lambda>f. map ngx_tolower (fst f) = ''transfer-encoding'') fs"
  have one: "length ?cl \<le> 1" using cl plain(3) by simp
  have te_eq: "hi_elt (rq_in r') Hi_transfer_encoding = (case ?te of [] \<Rightarrow> None | f # _ \<Rightarrow> Some (field_of f))"
    and cl_eq: "hi_elt (rq_in r') Hi_content_length = (case ?cl of [] \<Rightarrow> None | f # _ \<Rightarrow> Some (field_of f))" using cl te by blast+
  have n: "content_length_n (rq_in r') = - 1" "\<not> hi_chunked (rq_in r')" using cl start(3) by simp_all
  have v: "h_value (field_of f) = snd f" for f by (simp add: field_of_def)
  show ?thesis
    using body [OF n] one unfolding te_eq cl_eq
    by (cases ?cl; cases ?te) (auto simp: framing_def named_def v atoof_eq split: if_splits)
qed

text \<open>A server without other names, for evaluation.\<close>

definition demo_request_conf :: "(unit, nat) request_conf" where
  "demo_request_conf = \<lparr>rc_virtual_names = None, rc_regex = (\<lambda>re host. NGX_DECLINED), rc_host_mem = True, rc_array_mem = (\<lambda>n. True)\<rparr>"

definition demo_request :: "nat request_state" where
  "demo_request = \<lparr>rq_in = fresh_headers_in, rq_srv_conf = 0\<rparr>"

definition demo_post :: "(string \<times> string) list" where
  "demo_post = [(''HOST'', ''a.b:80''), (''Content-length'', ''18446744073709551621'')]"

lemma demo_post_known:
  "map ngx_tolower ''HOST'' = ''host''" "map ngx_tolower ''Content-length'' = ''content-length''"
  "known_handler ''host'' = Some Process_host" "known_handler ''content-length'' = Some (Process_unique Hi_content_length)"
  by (simp_all add: ngx_tolower_def char_or_0x20_def less_eq_char_def known_content_length)
     (simp add: known_handler_def ngx_http_headers_in_def ngx_tolower_def char_or_0x20_def less_eq_char_def)

lemma demo_conf_sel:
  "rc_virtual_names demo_request_conf = None" "rc_host_mem demo_request_conf" "h_value (field_of f) = snd f"
  by (simp_all add: demo_request_conf_def field_of_def)

lemma demo_post_host: "ngx_http_validate_host True False ''a.b:80'' = Inr (NGX_OK, ''a.b'')"
  by code_simp

lemma demo_post_accepted:
  assumes "ngx_http_init_headers_in_hash 64 True = Inr (Some t)"
  shows "\<exists>r' r''. ngx_http_process_request_headers (server_headers demo_request_conf (\<lambda>c. False) (\<lambda>c. True) t) ([] @ header_block demo_post @ [])
      (length ([] :: string)) fresh_header [] demo_request = Inr (Headers_done (length (header_block demo_post)), map field_of demo_post, r') \<and>
    ngx_http_process_request_header demo_request_conf 1001 NGX_HTTP_POST r' = Inr (Inr r'')"
proof -
  let ?cf = "server_headers demo_request_conf (\<lambda>c. False) (\<lambda>c. True) t"
  have find: "\<forall>name. ngx_hash_find t (ngx_hash_key name) name = Inr (known_handler name)"
    using headers_in_hash_find [OF assms] by simp
  note h = call_handler_table [OF find, of demo_request_conf "\<lambda>c. False" "\<lambda>c. True"]
  have h1: "call_handler ?cf (field_of (''HOST'', v)) r = run_handler demo_request_conf Process_host (field_of (''HOST'', v)) r" for v r
    unfolding h fst_conv demo_post_known by simp
  have h2: "call_handler ?cf (field_of (''Content-length'', v)) r =
      run_handler demo_request_conf (Process_unique Hi_content_length) (field_of (''Content-length'', v)) r" for v r
    unfolding h fst_conv demo_post_known by simp
  have fs: "list_all field_wf demo_post" unfolding demo_post_def by code_simp
  have m: "memory_ok ?cf" by (simp add: memory_ok_def server_headers_def)
  obtain r' where r': "call_handlers ?cf (map field_of demo_post) demo_request = Inr (Inr r')" "hi_elt (rq_in r') Hi_host \<noteq> None"
      "hi_server (rq_in r') \<noteq> []" "hi_elt (rq_in r') Hi_content_length = Some (field_of (''Content-length'', ''18446744073709551621''))"
      "hi_elt (rq_in r') Hi_transfer_encoding = None" "hi_elt (rq_in r') Hi_keep_alive = None"
    by (simp add: demo_post_def h1 h2 run_handler_def ngx_http_process_host_def ngx_http_process_unique_header_line_def
        demo_request_def fresh_headers_in_def set_elt_def demo_conf_sel demo_post_host
        ngx_http_set_virtual_server_def ngx_http_find_virtual_server_def)
  have "ngx_atoof ''18446744073709551621'' = 5"
    by (simp add: atoof_eq is_digit_def less_eq_char_def digit_val_def wrap64_def)
  then have "\<exists>r''. ngx_http_process_request_header demo_request_conf 1001 NGX_HTTP_POST r' = Inr (Inr r'')"
    using r'(2-6) by (simp add: ngx_http_process_request_header_def demo_conf_sel)
  then show ?thesis using process_header_block(1) [OF m fs _ _ r'(1), of fresh_header "[]" "[]" "[]"] by (auto simp: fresh_header_def)
qed

theorem request_framing_witness:
  "\<exists>t p hs r r'. ngx_http_init_headers_in_hash 64 True = Inr (Some t) \<and>
     ngx_http_process_request_headers (server_headers demo_request_conf (\<lambda>c. False) (\<lambda>c. True) t) (header_block demo_post) 0
       fresh_header [] demo_request = Inr (Headers_done p, hs, r) \<and>
     ngx_http_process_request_header demo_request_conf 1001 NGX_HTTP_POST r = Inr (Inr r') \<and> framing_of (rq_in r') = Body_length 5"
proof -
  obtain t where t: "ngx_http_init_headers_in_hash 64 True = Inr (Some t)" using headers_in_table [of 64] by auto
  obtain r r' where run: "ngx_http_process_request_headers (server_headers demo_request_conf (\<lambda>c. False) (\<lambda>c. True) t) ([] @ header_block demo_post @ [])
      (length ([] :: string)) fresh_header [] demo_request = Inr (Headers_done (length (header_block demo_post)), map field_of demo_post, r)"
    "ngx_http_process_request_header demo_request_conf 1001 NGX_HTTP_POST r = Inr (Inr r')" using demo_post_accepted [OF t] by blast
  have "list_all field_wf demo_post" unfolding demo_post_def by code_simp
  moreover have "rq_in demo_request = fresh_headers_in\<lparr>hi_server := []\<rparr>" by (simp add: demo_request_def fresh_headers_in_def)
  moreover have "framing demo_post = Some (Body_length 5)" unfolding framing_def demo_post_def by code_simp
  ultimately have "framing_of (rq_in r') = Body_length 5"
    using request_framing [OF _ t _ _ run] by simp
  with t run show ?thesis by auto
qed

end
