(* ===== verification/Ngx_Http_Chunked.thy ===== *)
theory Ngx_Http_Chunked
  imports Ngx_Http_Parse
begin

text \<open>
  Chunked request bodies: \<open>ngx_http_parse_chunked\<close> of \<^verbatim>\<open>src/nginx/src/http/ngx_http_parse.c\<close> and
  \<open>ngx_http_request_body_chunked_filter\<close> of \<^verbatim>\<open>src/nginx/src/http/ngx_http_request_body.c\<close>, which
  drives it over the buffers of a body. \<open>off_t\<close> has 64 bits, so sizes are reduced by \<open>wrap64\<close>.

  \<open>chunked\<close> interprets the contract \<open>resumable\<close>. \<open>chunked_body_round_trip\<close>: a body sent in chunks comes
  out as it was; \<open>chunk_size_wraps\<close>: a size of more than 16 digits is not noticed.
\<close>

section \<open>The parser\<close>

datatype chunk_state =
    sw_chunk_start | sw_chunk_size | sw_chunk_extension | sw_chunk_extension_almost_done | sw_chunk_data
  | sw_after_data | sw_after_data_almost_done | sw_last_chunk_extension | sw_last_chunk_extension_almost_done
  | sw_trailer | sw_trailer_almost_done | sw_trailer_header | sw_trailer_header_almost_done

record ngx_http_chunked =
  ck_state :: chunk_state
  ck_size :: int
  ck_length :: int

datatype chunk_exit = CK_data | CK_done | CK_invalid

abbreviation TAB :: char where "TAB \<equiv> CHR 0x09"

definition hex_digit_val :: "char \<Rightarrow> int option" where
  "hex_digit_val ch =
     (if is_digit ch then Some (digit_val ch) else if is_hex_lc ch then Some (hex_lc_val ch) else None)"

definition step_chunk_size :: "char \<Rightarrow> ngx_http_chunked \<Rightarrow> (ngx_http_chunked, chunk_exit) ctl" where
  "step_chunk_size ch c =
     (case hex_digit_val ch of
        Some d \<Rightarrow> Next (c\<lparr>ck_size := wrap64 (wrap64 (ck_size c * 16) + d)\<rparr>)
      | None \<Rightarrow>
          if ck_size c = 0 then
            (if ch = CR then Next (c\<lparr>ck_state := sw_last_chunk_extension_almost_done\<rparr>)
             else if ch = LF then Next (c\<lparr>ck_state := sw_trailer\<rparr>)
             else if ch = CHR '';'' \<or> ch = CHR '' '' \<or> ch = TAB then Next (c\<lparr>ck_state := sw_last_chunk_extension\<rparr>)
             else Stop CK_invalid c)
          else
            (if ch = CR then Next (c\<lparr>ck_state := sw_chunk_extension_almost_done\<rparr>)
             else if ch = LF then Next (c\<lparr>ck_state := sw_chunk_data\<rparr>)
             else if ch = CHR '';'' \<or> ch = CHR '' '' \<or> ch = TAB then Next (c\<lparr>ck_state := sw_chunk_extension\<rparr>)
             else Stop CK_invalid c))"

text \<open>A state that waits for \<open>CR\<close> or \<open>LF\<close> and skips every other byte; one that must see \<open>LF\<close>.\<close>

definition skip_line :: "chunk_state \<Rightarrow> chunk_state \<Rightarrow> char \<Rightarrow> ngx_http_chunked \<Rightarrow> (ngx_http_chunked, chunk_exit) ctl" where
  "skip_line on_cr on_lf ch c =
     (if ch = CR then Next (c\<lparr>ck_state := on_cr\<rparr>) else if ch = LF then Next (c\<lparr>ck_state := on_lf\<rparr>) else Next c)"

definition must_lf :: "chunk_state \<Rightarrow> char \<Rightarrow> ngx_http_chunked \<Rightarrow> (ngx_http_chunked, chunk_exit) ctl" where
  "must_lf on_lf ch c = (if ch = LF then Next (c\<lparr>ck_state := on_lf\<rparr>) else Stop CK_invalid c)"

definition chunk_step :: "string \<Rightarrow> nat \<Rightarrow> ngx_http_chunked \<Rightarrow> (ngx_http_chunked, chunk_exit) ctl" where
  "chunk_step b p c =
     (let ch = b ! p in
      case ck_state c of
        sw_chunk_start \<Rightarrow>
          (case hex_digit_val ch of
             Some d \<Rightarrow> Next (c\<lparr>ck_state := sw_chunk_size, ck_size := d\<rparr>)
           | None \<Rightarrow> Stop CK_invalid c)
      | sw_chunk_size \<Rightarrow> step_chunk_size ch c
      | sw_chunk_extension \<Rightarrow> skip_line sw_chunk_extension_almost_done sw_chunk_data ch c
      | sw_chunk_extension_almost_done \<Rightarrow> must_lf sw_chunk_data ch c
      | sw_chunk_data \<Rightarrow> Stop CK_data c
      | sw_after_data \<Rightarrow> skip_line sw_after_data_almost_done sw_chunk_start ch c
      | sw_after_data_almost_done \<Rightarrow> must_lf sw_chunk_start ch c
      | sw_last_chunk_extension \<Rightarrow> skip_line sw_last_chunk_extension_almost_done sw_trailer ch c
      | sw_last_chunk_extension_almost_done \<Rightarrow> must_lf sw_trailer ch c
      | sw_trailer \<Rightarrow>
          (if ch = CR then Next (c\<lparr>ck_state := sw_trailer_almost_done\<rparr>)
           else if ch = LF then Stop CK_done c
           else Next (c\<lparr>ck_state := sw_trailer_header\<rparr>))
      | sw_trailer_almost_done \<Rightarrow> if ch = LF then Stop CK_done c else Stop CK_invalid c
      | sw_trailer_header \<Rightarrow> skip_line sw_trailer_header_almost_done sw_trailer ch c
      | sw_trailer_header_almost_done \<Rightarrow> must_lf sw_trailer ch c)"

text \<open>The code after the label \<open>data\<close>: how much more is expected at least.\<close>

definition chunk_length :: "ngx_http_chunked \<Rightarrow> int" where
  "chunk_length c =
     wrap64 (case ck_state c of
        sw_chunk_start \<Rightarrow> 3
      | sw_chunk_size \<Rightarrow> 2 + (if ck_size c \<noteq> 0 then ck_size c + 4 else 0)
      | sw_chunk_extension \<Rightarrow> 1 + ck_size c + 4
      | sw_chunk_extension_almost_done \<Rightarrow> 1 + ck_size c + 4
      | sw_chunk_data \<Rightarrow> ck_size c + 4
      | sw_after_data \<Rightarrow> 4
      | sw_after_data_almost_done \<Rightarrow> 4
      | sw_last_chunk_extension \<Rightarrow> 2
      | sw_last_chunk_extension_almost_done \<Rightarrow> 2
      | sw_trailer \<Rightarrow> 1
      | sw_trailer_almost_done \<Rightarrow> 1
      | sw_trailer_header \<Rightarrow> 2
      | sw_trailer_header_almost_done \<Rightarrow> 2)"

definition chunk_finish :: "int \<Rightarrow> nat \<Rightarrow> ngx_http_chunked \<Rightarrow> int \<times> nat \<times> ngx_http_chunked" where
  "chunk_finish rc p c =
     (let c = c\<lparr>ck_length := chunk_length c\<rparr> in
      if ck_size c < 0 \<or> ck_length c < 0 then (NGX_ERROR, p, c) else (rc, p, c))"

definition chunk_enter :: "ngx_http_chunked \<Rightarrow> ngx_http_chunked" where
  "chunk_enter c = (if ck_state c = sw_chunk_data \<and> ck_size c = 0 then c\<lparr>ck_state := sw_after_data\<rparr> else c)"

text \<open>The code, \<open>b->pos\<close> and the context. An invalid byte leaves \<open>b->pos\<close> and the state as they were.\<close>

definition ngx_http_parse_chunked :: "string \<Rightarrow> nat \<Rightarrow> ngx_http_chunked \<Rightarrow> int \<times> nat \<times> ngx_http_chunked" where
  "ngx_http_parse_chunked b pos ctx =
     (case run_steps chunk_step b pos (chunk_enter ctx) of
        (p, c, None) \<Rightarrow> chunk_finish NGX_AGAIN p c
      | (p, c, Some CK_data) \<Rightarrow> chunk_finish NGX_OK p c
      | (p, c, Some CK_done) \<Rightarrow> (NGX_DONE, p + 1, c\<lparr>ck_state := sw_chunk_start\<rparr>)
      | (p, c, Some CK_invalid) \<Rightarrow> (NGX_ERROR, pos, c\<lparr>ck_state := ck_state ctx\<rparr>))"

lemma chunk_step_prefix: "p < length b \<Longrightarrow> chunk_step (b @ c) p s = chunk_step b p s"
  by (simp add: chunk_step_def nth_append)

interpretation chunked: resumable chunk_step
  by unfold_locales (rule chunk_step_prefix)

lemma parse_chunked_OK:
  assumes "ngx_http_parse_chunked b pos ctx = (NGX_OK, p, c)"
  shows "pos \<le> p" "p < length b" "0 \<le> ck_size c"
    "ck_state ctx = sw_chunk_data \<Longrightarrow> ck_size ctx = 0 \<Longrightarrow> pos < p"
proof -
  obtain q c' x where run: "run_steps chunk_step b pos (chunk_enter ctx) = (q, c', x)" by (metis prod_cases3)
  with assms have x: "x = Some CK_data" and q: "q = p" "c = c'\<lparr>ck_length := chunk_length c'\<rparr>" "0 \<le> ck_size c"
    by (auto simp: ngx_http_parse_chunked_def chunk_finish_def Let_def split: option.splits chunk_exit.splits if_splits)
  from run_steps_stop_pos [OF run [unfolded x]] show p: "pos \<le> p" "p < length b" using q by simp_all
  show "0 \<le> ck_size c" by (rule q(3))
  show "pos < p" if "ck_state ctx = sw_chunk_data" "ck_size ctx = 0"
  proof -
    have enter: "ck_state (chunk_enter ctx) = sw_after_data" using that by (simp add: chunk_enter_def)
    then have "\<exists>s1. chunk_step b pos (chunk_enter ctx) = Next s1" by (simp add: chunk_step_def skip_line_def Let_def)
    then obtain s1 where s1: "chunk_step b pos (chunk_enter ctx) = Next s1" by blast
    have "run_steps chunk_step b (Suc pos) s1 = (q, c', Some CK_data)"
      using run run_steps_Next [of pos b chunk_step, OF _ s1] p x by auto
    from run_steps_stop_pos [OF this] q show ?thesis by simp
  qed
qed

section \<open>The body filter\<close>

abbreviation (input) HTTP_ENTITY_TOO_LARGE :: int where "HTTP_ENTITY_TOO_LARGE \<equiv> 413"
abbreviation (input) HTTP_SERVER_ERROR :: int where "HTTP_SERVER_ERROR \<equiv> 500"
abbreviation (input) HTTP_BAD :: int where "HTTP_BAD \<equiv> 400"

record request_body =
  rb_rest :: int
  rb_chunked :: ngx_http_chunked
  content_length_n :: int
  rb_out :: "string list"

lemma parse_chunked_state: "ngx_http_parse_chunked b pos ctx = (NGX_OK, p, c) \<Longrightarrow> ck_state c = sw_chunk_data"
proof -
  assume a: "ngx_http_parse_chunked b pos ctx = (NGX_OK, p, c)"
  obtain q c' x where run: "run_steps chunk_step b pos (chunk_enter ctx) = (q, c', x)" by (metis prod_cases3)
  with a have x: "x = Some CK_data" and q: "c = c'\<lparr>ck_length := chunk_length c'\<rparr>"
    by (auto simp: ngx_http_parse_chunked_def chunk_finish_def Let_def split: option.splits chunk_exit.splits if_splits)
  from run_steps_stop_step [OF run [unfolded x]] obtain s0 where "chunk_step b q s0 = Stop CK_data c'" by blast
  then have "ck_state c' = sw_chunk_data"
    by (auto simp: chunk_step_def step_chunk_size_def skip_line_def must_lf_def Let_def
        split: chunk_state.splits option.splits if_splits)
  with q show ?thesis by simp
qed

text \<open>Every turn reads a byte of the chunk, or the chunk was empty and the next turn leaves it.\<close>

definition chunk_at_end :: "ngx_http_chunked \<Rightarrow> nat" where
  "chunk_at_end c = (if ck_state c = sw_chunk_data \<and> ck_size c = 0 then 0 else 1)"

lemma chunked_buf_progress:
  assumes "ngx_http_parse_chunked b pos ctx = (NGX_OK, p, c)"
  shows "2 * (length b - (p + nat (ck_size c))) + chunk_at_end (c\<lparr>ck_size := 0\<rparr>) < 2 * (length b - pos) + chunk_at_end ctx"
    and "chunk_at_end (c\<lparr>ck_size := k\<rparr>) < 2 * (length b - pos) + chunk_at_end ctx"
  using parse_chunked_OK [OF assms] parse_chunked_state [OF assms]
  by (auto simp: chunk_at_end_def split: if_splits)

text \<open>
  The inner loop \<open>for ( ;; )\<close> over one buffer. \<open>alloc\<close> says whether the n-th buffer for a piece can be
  had; a piece is the part of the buffer that belongs to the chunk. The result is the code to return
  (\<open>None\<close> when the loop was left by \<open>break\<close>), \<open>cl->buf->pos\<close> and the body.
\<close>

function chunked_buf ::
    "(nat \<Rightarrow> bool) \<Rightarrow> int \<Rightarrow> string \<Rightarrow> nat \<Rightarrow> request_body \<Rightarrow> int option \<times> nat \<times> request_body" where
  "chunked_buf alloc max_size b pos body =
     (let (rc, p, c) = ngx_http_parse_chunked b pos (rb_chunked body); body = body\<lparr>rb_chunked := c\<rparr> in
      if rc = NGX_OK then
        (if max_size \<noteq> 0 \<and> max_size < wrap64 (content_length_n body + ck_size c) then (Some HTTP_ENTITY_TOO_LARGE, p, body)
         else if \<not> alloc (length (rb_out body)) then (Some HTTP_SERVER_ERROR, p, body)
         else if int (length b - p) > ck_size c then
           chunked_buf alloc max_size b (p + nat (ck_size c))
             (body\<lparr>content_length_n := wrap64 (content_length_n body + ck_size c), rb_chunked := c\<lparr>ck_size := 0\<rparr>,
                rb_out := rb_out body @ [take (nat (ck_size c)) (drop p b)]\<rparr>)
         else
           chunked_buf alloc max_size b (length b)
             (body\<lparr>content_length_n := wrap64 (content_length_n body + int (length b - p)),
                rb_chunked := c\<lparr>ck_size := ck_size c - int (length b - p)\<rparr>, rb_out := rb_out body @ [drop p b]\<rparr>))
      else if rc = NGX_DONE then
        (if \<not> alloc (length (rb_out body)) then (Some HTTP_SERVER_ERROR, p, body\<lparr>rb_rest := 0\<rparr>)
         else (None, p, body\<lparr>rb_rest := 0, rb_out := rb_out body @ [[]]\<rparr>))
      else if rc = NGX_AGAIN then (None, p, body\<lparr>rb_rest := ck_length c\<rparr>)
      else (Some HTTP_BAD, p, body))"
  by pat_completeness auto

termination
  by (relation "measure (\<lambda>(alloc, max_size, b, pos, body). 2 * (length b - pos) + chunk_at_end (rb_chunked body))")
     (auto intro: chunked_buf_progress [OF sym])

declare chunked_buf.simps [simp del]

text \<open>The outer loop over the chain, and \<open>ngx_http_request_body_save_filter\<close>, which keeps the pieces.\<close>

fun chunked_chain :: "(nat \<Rightarrow> bool) \<Rightarrow> int \<Rightarrow> string list \<Rightarrow> request_body \<Rightarrow> int option \<times> request_body" where
  "chunked_chain alloc max_size [] body = (None, body)"
| "chunked_chain alloc max_size (b # bs) body =
     (case chunked_buf alloc max_size b 0 body of
        (Some code, p, body') \<Rightarrow> (Some code, body')
      | (None, p, body') \<Rightarrow> chunked_chain alloc max_size bs body')"

definition fresh_chunked :: ngx_http_chunked where
  "fresh_chunked = \<lparr>ck_state = sw_chunk_start, ck_size = 0, ck_length = 0\<rparr>"

text \<open>\<open>ctx_alloc\<close> and \<open>copy_alloc\<close>: whether the context and the copy of the chain can be allocated.\<close>

definition ngx_http_request_body_chunked_filter ::
    "bool \<Rightarrow> (nat \<Rightarrow> bool) \<Rightarrow> bool \<Rightarrow> int \<Rightarrow> string list \<Rightarrow> request_body \<Rightarrow> int \<times> request_body" where
  "ngx_http_request_body_chunked_filter ctx_alloc alloc copy_alloc max_size bufs body =
     (if rb_rest body = - 1 \<and> \<not> ctx_alloc then (HTTP_SERVER_ERROR, body)
      else
        let body = (if rb_rest body = - 1 then body\<lparr>rb_chunked := fresh_chunked, content_length_n := 0, rb_rest := 3\<rparr> else body) in
        case chunked_chain alloc max_size bufs body of
          (Some code, body') \<Rightarrow> (code, body')
        | (None, body') \<Rightarrow> if copy_alloc then (NGX_OK, body') else (HTTP_SERVER_ERROR, body'))"

section \<open>A chunk\<close>

definition hex_from :: "int \<Rightarrow> string \<Rightarrow> int" where
  "hex_from v h = foldl (\<lambda>v ch. v * 16 + the (hex_digit_val ch)) v h"

abbreviation hex_value :: "string \<Rightarrow> int" where "hex_value \<equiv> hex_from 0"

definition is_hex :: "string \<Rightarrow> bool" where
  "is_hex h \<longleftrightarrow> list_all (\<lambda>ch. hex_digit_val ch \<noteq> None) h"

lemma hex_lc_val_range: "is_hex_lc ch \<Longrightarrow> 10 \<le> hex_lc_val ch \<and> hex_lc_val ch \<le> 15"
proof -
  assume "is_hex_lc ch"
  then have "97 \<le> (of_char (char_or_0x20 ch) :: nat)" "(of_char (char_or_0x20 ch) :: nat) \<le> 102"
    by (simp_all add: is_hex_lc_def less_eq_char_def)
  moreover have "(of_char (char_or_0x20 ch) :: int) = int (of_char (char_or_0x20 ch))" by (simp add: of_nat_of_char)
  ultimately show ?thesis unfolding hex_lc_val_def by linarith
qed

lemma hex_digit_val_range: "hex_digit_val ch = Some d \<Longrightarrow> 0 \<le> d \<and> d < 16"
  using digit_val_range [of ch] hex_lc_val_range [of ch] by (auto simp: hex_digit_val_def split: if_splits)

lemma hex_from_mono: "is_hex h \<Longrightarrow> 0 \<le> v \<Longrightarrow> v \<le> hex_from v h"
proof (induction h arbitrary: v)
  case (Cons ch h)
  then obtain d where d: "hex_digit_val ch = Some d" "is_hex h" by (auto simp: is_hex_def)
  with hex_digit_val_range [OF d(1)] Cons have "v * 16 + d \<le> hex_from (v * 16 + d) h" by (intro Cons.IH) simp_all
  with d hex_digit_val_range [OF d(1)] Cons.prems show ?case by (simp add: hex_from_def)
qed (simp add: hex_from_def)

section \<open>A reference decoder\<close>

text \<open>
  What the body of a chunked stream is, read one byte at a time: a byte of a chunk is data, any other
  byte moves the state. The decoder refuses a size near the limit of \<open>off_t\<close>; it yields the data and the
  bytes behind the last chunk.
\<close>

definition max_chunk :: int where "max_chunk = 2 ^ 62"

fun unchunk :: "ngx_http_chunked \<Rightarrow> string \<Rightarrow> (string \<times> string) option" where
  "unchunk c [] = None"
| "unchunk c (ch # r) =
     (if ck_state c = sw_chunk_data \<and> ck_size c \<noteq> 0
      then map_option (apfst ((#) ch)) (unchunk (c\<lparr>ck_size := ck_size c - 1\<rparr>) r)
      else case chunk_step [ch] 0 (chunk_enter c) of
        Next c' \<Rightarrow> if 0 \<le> ck_size c' \<and> ck_size c' \<le> max_chunk then unchunk c' r else None
      | Stop x c' \<Rightarrow> if x = CK_done then Some ([], r) else None)"

lemmas chunk_step_defs = chunk_step_def step_chunk_size_def skip_line_def must_lf_def Let_def

lemma chunk_step_length:
  "chunk_step b p (c\<lparr>ck_length := k\<rparr>) =
    (case chunk_step b p c of Next c' \<Rightarrow> Next (c'\<lparr>ck_length := k\<rparr>) | Stop x c' \<Rightarrow> Stop x (c'\<lparr>ck_length := k\<rparr>))"
  by (simp add: chunk_step_defs split: chunk_state.split option.split)

lemma unchunk_length [simp]: "unchunk (c\<lparr>ck_length := k\<rparr>) r = unchunk c r"
proof (induction r arbitrary: c)
  case (Cons ch r)
  have "chunk_enter (c\<lparr>ck_length := k\<rparr>) = (chunk_enter c)\<lparr>ck_length := k\<rparr>" by (simp add: chunk_enter_def)
  moreover have "unchunk (c\<lparr>ck_length := k, ck_size := n\<rparr>) r = unchunk (c\<lparr>ck_size := n\<rparr>) r" for n
    using Cons.IH [of "c\<lparr>ck_size := n\<rparr>"] by (cases c) simp
  ultimately show ?case using Cons.IH by (simp add: chunk_step_length split: ctl.split)
qed simp

text \<open>The contexts the parser can be in.\<close>

definition ck_ok :: "ngx_http_chunked \<Rightarrow> bool" where
  "ck_ok c \<longleftrightarrow> 0 \<le> ck_size c \<and> ck_size c \<le> max_chunk \<and>
     (ck_state c \<in> {sw_chunk_extension, sw_chunk_extension_almost_done} \<longrightarrow> ck_size c \<noteq> 0)"

lemma chunk_step_at: "chunk_step b p c = chunk_step [b ! p] 0 c"
  by (simp add: chunk_step_def)

lemma chunk_step_ok:
  assumes "chunk_step b p (chunk_enter c) = Next c'" "ck_ok c" "0 \<le> ck_size c'" "ck_size c' \<le> max_chunk"
  shows "ck_ok c'" "ck_state c' = sw_chunk_data \<Longrightarrow> ck_size c' \<noteq> 0"
  using assms by (auto simp: chunk_step_defs ck_ok_def chunk_enter_def split: chunk_state.splits option.splits if_splits)

lemma chunk_step_data: "chunk_step b p c = Stop CK_data c' \<longleftrightarrow> ck_state c = sw_chunk_data \<and> c' = c"
  by (auto simp: chunk_step_defs split: chunk_state.splits option.splits if_splits)

lemma chunk_enter_id: "ck_state c \<noteq> sw_chunk_data \<or> ck_size c \<noteq> 0 \<Longrightarrow> chunk_enter c = c"
  by (auto simp: chunk_enter_def)

lemma unchunk_step:
  assumes "unchunk c (ch # r) = Some (d, t)" "\<not> (ck_state c = sw_chunk_data \<and> ck_size c \<noteq> 0)" "ck_ok c"
  obtains (Next) c' where "chunk_step [ch] 0 (chunk_enter c) = Next c'" "unchunk c' r = Some (d, t)" "ck_ok c'"
      "ck_state c' = sw_chunk_data \<Longrightarrow> ck_size c' \<noteq> 0"
    | (Done) c' where "chunk_step [ch] 0 (chunk_enter c) = Stop CK_done c'" "d = []" "t = r"
  using assms chunk_step_ok [of "[ch]" 0 c] by (auto split: ctl.splits if_splits)

lemma unchunk_data_le:
  "unchunk c r = Some (d, t) \<Longrightarrow> ck_state c = sw_chunk_data \<Longrightarrow> 0 \<le> ck_size c \<Longrightarrow> ck_size c \<le> int (length d)"
proof (induction r arbitrary: c d)
  case (Cons ch r)
  show ?case
  proof (cases "ck_size c = 0")
    case False
    with Cons.prems obtain d' where d: "unchunk (c\<lparr>ck_size := ck_size c - 1\<rparr>) r = Some (d', t)" "d = ch # d'" by auto
    from Cons.IH [OF d(1)] Cons.prems False d(2) show ?thesis by simp
  qed simp
qed simp

lemma unchunk_take:
  "n \<le> length r \<Longrightarrow> ck_state c = sw_chunk_data \<Longrightarrow> int n \<le> ck_size c \<Longrightarrow> unchunk c (r @ s) = 
     map_option (apfst ((@) (take n r))) (unchunk (c\<lparr>ck_size := ck_size c - int n\<rparr>) (drop n r @ s))"
proof (induction n arbitrary: c r)
  case (Suc n)
  then obtain ch r' where r: "r = ch # r'" by (cases r) auto
  have "ck_size c - 1 - int n = ck_size c - int (Suc n)" by simp
  with Suc.IH [of r' "c\<lparr>ck_size := ck_size c - 1\<rparr>"] Suc.prems r show ?case
    by (simp add: option.map_comp comp_def apfst_def map_prod_def split_beta)
qed (simp add: apfst_def map_prod_def option.map_id)

text \<open>What one run of the parser over a buffer does, when the decoder accepts what is left of the stream.\<close>

lemma run_unchunk:
  assumes "unchunk c (drop p b @ rest) = Some (d, t)" "ck_ok c" "p \<le> length b"
    and "ck_state c = sw_chunk_data \<Longrightarrow> ck_size c \<noteq> 0"
  shows "(\<exists>c'. run_steps chunk_step b p c = (length b, c', None) \<and> ck_ok c' \<and> unchunk c' rest = Some (d, t)) \<or>
    (\<exists>q c'. run_steps chunk_step b p c = (q, c', Some CK_data) \<and> q < length b \<and> ck_state c' = sw_chunk_data \<and> 
       ck_ok c' \<and> ck_size c' \<noteq> 0 \<and> unchunk c' (drop q b @ rest) = Some (d, t)) \<or>
    (\<exists>q c'. run_steps chunk_step b p c = (q, c', Some CK_done) \<and> q < length b \<and> d = [] \<and> t = drop (Suc q) b @ rest)"
  using assms
proof (induction "length b - p" arbitrary: p c)
  case 0
  then show ?case by (simp add: run_steps_end)
next
  case (Suc n)
  then have p: "p < length b" by simp
  then have dr: "drop p b = b ! p # drop (Suc p) b" by (rule Cons_nth_drop_Suc [symmetric])
  show ?case
  proof (cases "ck_state c = sw_chunk_data")
    case True
    then have "run_steps chunk_step b p c = (p, c, Some CK_data)" using p by (simp add: run_steps_Stop chunk_step_def)
    with True Suc.prems p show ?thesis by auto
  next
    case False
    then have en: "chunk_enter c = c" by (simp add: chunk_enter_id)
    from Suc.prems(1) have un: "unchunk c (b ! p # (drop (Suc p) b @ rest)) = Some (d, t)" by (simp only: dr append_Cons)
    have nd: "\<not> (ck_state c = sw_chunk_data \<and> ck_size c \<noteq> 0)" using False by simp
    show ?thesis
    proof (cases rule: unchunk_step [OF un nd Suc.prems(2)])
      case (1 c')
      then have "run_steps chunk_step b p c = run_steps chunk_step b (Suc p) c'" 
        using p en by (intro run_steps_Next) (simp_all add: chunk_step_at [of b p])
      moreover have "n = length b - Suc p" "Suc p \<le> length b" using Suc.hyps(2) p by simp_all
      ultimately show ?thesis using Suc.hyps(1) [of "Suc p" c'] 1 by simp
    next
      case (2 c')
      then have "run_steps chunk_step b p c = (p, c', Some CK_done)" 
        using p en by (intro run_steps_Stop) (simp_all add: chunk_step_at [of b p])
      with 2 p show ?thesis by auto
    qed
  qed
qed

lemma unchunk_enter [simp]: "unchunk (chunk_enter c) r = unchunk c r"
  by (cases r) (auto simp: chunk_enter_def)

lemma ck_ok_enter: "ck_ok c \<Longrightarrow> ck_ok (chunk_enter c)"
  by (simp add: ck_ok_def chunk_enter_def)

lemma ck_ok_length [simp]: "ck_ok (c\<lparr>ck_length := k\<rparr>) = ck_ok c"
  by (simp add: ck_ok_def)

lemma chunk_finish_ok: "ck_ok c \<Longrightarrow> chunk_finish code p c = (code, p, c\<lparr>ck_length := chunk_length c\<rparr>)"
proof -
  assume "ck_ok c"
  then have "0 \<le> ck_size c" "ck_size c \<le> 2 ^ 62" by (simp_all add: ck_ok_def max_chunk_def)
  then have "0 \<le> chunk_length c" by (simp add: chunk_length_def wrap64_id is_int64_def split: chunk_state.split)
  with \<open>0 \<le> ck_size c\<close> show ?thesis by (simp add: chunk_finish_def Let_def)
qed

lemma parse_unchunk:
  assumes "unchunk c (drop p b @ rest) = Some (d, t)" "ck_ok c" "p \<le> length b"
  shows "(\<exists>c'. ngx_http_parse_chunked b p c = (NGX_AGAIN, length b, c') \<and> ck_ok c' \<and> unchunk c' rest = Some (d, t)) \<or>
    (\<exists>q c'. ngx_http_parse_chunked b p c = (NGX_OK, q, c') \<and> q < length b \<and> ck_state c' = sw_chunk_data \<and> 
       ck_ok c' \<and> ck_size c' \<noteq> 0 \<and> unchunk c' (drop q b @ rest) = Some (d, t)) \<or>
    (\<exists>q c'. ngx_http_parse_chunked b p c = (NGX_DONE, q, c') \<and> q \<le> length b \<and> d = [] \<and> t = drop q b @ rest)"
proof -
  have "ck_state (chunk_enter c) = sw_chunk_data \<Longrightarrow> ck_size (chunk_enter c) \<noteq> 0"
    by (auto simp: chunk_enter_def split: if_splits)
  then consider
      c' where "run_steps chunk_step b p (chunk_enter c) = (length b, c', None)" "ck_ok c'" "unchunk c' rest = Some (d, t)"
    | q c' where "run_steps chunk_step b p (chunk_enter c) = (q, c', Some CK_data)" "q < length b"
        "ck_state c' = sw_chunk_data" "ck_ok c'" "ck_size c' \<noteq> 0" "unchunk c' (drop q b @ rest) = Some (d, t)"
    | q c' where "run_steps chunk_step b p (chunk_enter c) = (q, c', Some CK_done)" "q < length b" "d = []" "t = drop (Suc q) b @ rest"
    using run_unchunk [of "chunk_enter c" p b rest d t] ck_ok_enter assms by auto
  then show ?thesis by cases (simp_all add: ngx_http_parse_chunked_def chunk_finish_ok)
qed

section \<open>The filter decodes\<close>

text \<open>One turn of the loop that finds data: the part of the chunk in the buffer becomes a piece.\<close>

definition chunk_turn :: "string \<Rightarrow> nat \<Rightarrow> ngx_http_chunked \<Rightarrow> request_body \<Rightarrow> nat \<times> request_body" where
  "chunk_turn b q c body =
     (let n = min (nat (ck_size c)) (length b - q) in
      (q + n, body\<lparr>content_length_n := content_length_n body + int n, rb_chunked := c\<lparr>ck_size := ck_size c - int n\<rparr>,
         rb_out := rb_out body @ [take n (drop q b)]\<rparr>))"

lemma chunked_buf_turn:
  assumes parse: "ngx_http_parse_chunked b pos (rb_chunked body) = (NGX_OK, q, c)" and q: "q < length b" and c: "0 \<le> ck_size c"
    and small: "max_size = 0 \<or> content_length_n body + ck_size c \<le> max_size"
    and len: "0 \<le> content_length_n body" "content_length_n body + ck_size c \<le> max_chunk"
  shows "chunked_buf (\<lambda>_. True) max_size b pos body =
    chunked_buf (\<lambda>_. True) max_size b (fst (chunk_turn b q c body)) (snd (chunk_turn b q c body))"
proof -
  let ?n = "min (nat (ck_size c)) (length b - q)"
  have w: "wrap64 (content_length_n body + ck_size c) = content_length_n body + ck_size c"
    "wrap64 (content_length_n body + int ?n) = content_length_n body + int ?n"
    using c len by (auto intro!: wrap64_id simp: is_int64_def max_chunk_def min_def)
  note turn = chunked_buf.simps [of _ _ b pos] chunk_turn_def Let_def
  show ?thesis
  proof (cases "int (length b - q) > ck_size c")
    case True
    with c have n: "?n = nat (ck_size c)" by auto
    show ?thesis unfolding chunk_turn_def n using True parse w n small c by (auto simp: turn simp del: of_nat_diff)
  next
    case False
    with q c have n: "?n = length b - q" by auto
    show ?thesis unfolding chunk_turn_def n using False parse q w n small c by (auto simp: turn simp del: of_nat_diff)
  qed
qed

lemma unchunk_turn:
  assumes "unchunk c (drop q b @ rest) = Some (d, t)" "q < length b" "ck_state c = sw_chunk_data" "ck_ok c" "ck_size c \<noteq> 0"
  shows "\<exists>d1 n. unchunk (rb_chunked (snd (chunk_turn b q c body))) (drop (fst (chunk_turn b q c body)) b @ rest) = Some (d1, t) \<and>
    d = take n (drop q b) @ d1 \<and> 0 < n \<and> fst (chunk_turn b q c body) = q + n \<and> q + n \<le> length b \<and> int n \<le> ck_size c \<and>
    rb_out (snd (chunk_turn b q c body)) = rb_out body @ [take n (drop q b)] \<and>
    content_length_n (snd (chunk_turn b q c body)) = content_length_n body + int n \<and> ck_ok (rb_chunked (snd (chunk_turn b q c body)))"
proof -
  define n where "n = min (nat (ck_size c)) (length b - q)"
  have n: "int n \<le> ck_size c" "n \<le> length (drop q b)" "0 < n" using assms(2,4,5) by (auto simp: n_def ck_ok_def)
  have "map_option (apfst ((@) (take n (drop q b)))) (unchunk (c\<lparr>ck_size := ck_size c - int n\<rparr>) (drop (q + n) b @ rest)) = Some (d, t)"
    using unchunk_take [OF n(2) assms(3) n(1), of rest] assms(1) by (simp add: add.commute)
  then obtain d1 where "unchunk (c\<lparr>ck_size := ck_size c - int n\<rparr>) (drop (q + n) b @ rest) = Some (d1, t)" "d = take n (drop q b) @ d1"
    by (auto simp: map_option_eq_Some)
  moreover have "ck_ok (c\<lparr>ck_size := ck_size c - int n\<rparr>)" using assms(3,4) n(1) by (simp add: ck_ok_def)
  ultimately show ?thesis using n assms(2) by (intro exI [of _ d1] exI [of _ n]) (simp add: chunk_turn_def n_def [symmetric] Let_def)
qed

text \<open>What the loop has done when it leaves a buffer: \<open>rest\<close> is what follows the buffer in the stream.\<close>

definition buf_done :: "string \<Rightarrow> string \<Rightarrow> string \<Rightarrow> string \<Rightarrow> request_body \<Rightarrow> int option \<times> nat \<times> request_body \<Rightarrow> bool" where
  "buf_done b rest d t body res \<longleftrightarrow> (\<exists>ps d' p body'. res = (None, p, body') \<and> d = concat ps @ d' \<and>
     rb_out body' = rb_out body @ ps \<and> content_length_n body' = content_length_n body + int (length (concat ps)) \<and>
     (ck_ok (rb_chunked body') \<and> unchunk (rb_chunked body') rest = Some (d', t) \<or>
      rb_rest body' = 0 \<and> d' = [] \<and> t = drop p b @ rest))"

lemma buf_done_again:
  "ck_ok (rb_chunked body') \<Longrightarrow> unchunk (rb_chunked body') rest = Some (d, t) \<Longrightarrow> rb_out body' = rb_out body \<Longrightarrow>
   content_length_n body' = content_length_n body \<Longrightarrow> buf_done b rest d t body (None, p, body')"
  unfolding buf_done_def by (rule exI [of _ "[]"]) simp

lemma buf_done_last:
  "rb_rest body' = 0 \<Longrightarrow> rb_out body' = rb_out body @ [[]] \<Longrightarrow> content_length_n body' = content_length_n body \<Longrightarrow>
   buf_done b rest [] (drop p b @ rest) body (None, p, body')"
  unfolding buf_done_def by (rule exI [of _ "[[]]"]) simp

lemma buf_done_piece:
  assumes "buf_done b rest d t body1 res" "rb_out body1 = rb_out body @ [w]" "content_length_n body1 = content_length_n body + int (length w)"
  shows "buf_done b rest (w @ d) t body res"
proof -
  from assms(1) obtain ps d' p body' where "res = (None, p, body')" "d = concat ps @ d'" "rb_out body' = rb_out body1 @ ps"
    "content_length_n body' = content_length_n body1 + int (length (concat ps))"
    "ck_ok (rb_chunked body') \<and> unchunk (rb_chunked body') rest = Some (d', t) \<or> rb_rest body' = 0 \<and> d' = [] \<and> t = drop p b @ rest"
    by (auto simp: buf_done_def)
  with assms(2,3) show ?thesis unfolding buf_done_def
    by (intro exI [of _ "w # ps"]) simp
qed

lemma chunked_buf_unchunk:
  assumes "unchunk (rb_chunked body) (drop pos b @ rest) = Some (d, t)" "ck_ok (rb_chunked body)" "pos \<le> length b"
    and "max_size = 0 \<or> content_length_n body + int (length d) \<le> max_size"
    and "0 \<le> content_length_n body" "content_length_n body + int (length d) \<le> max_chunk"
  shows "buf_done b rest d t body (chunked_buf (\<lambda>_. True) max_size b pos body)"
  using assms
proof (induction "2 * (length b - pos) + chunk_at_end (rb_chunked body)" arbitrary: pos body d rule: less_induct)
  case less
  consider c where "ngx_http_parse_chunked b pos (rb_chunked body) = (NGX_AGAIN, length b, c)" "ck_ok c" "unchunk c rest = Some (d, t)"
    | q c where "ngx_http_parse_chunked b pos (rb_chunked body) = (NGX_OK, q, c)" "q < length b" "ck_state c = sw_chunk_data"
        "ck_ok c" "ck_size c \<noteq> 0" "unchunk c (drop q b @ rest) = Some (d, t)"
    | q c where "ngx_http_parse_chunked b pos (rb_chunked body) = (NGX_DONE, q, c)" "q \<le> length b" "d = []" "t = drop q b @ rest"
    using parse_unchunk [OF less.prems(1-3)] by blast
  then show ?case
  proof cases
    case 1
    then show ?thesis by (simp add: chunked_buf.simps [of _ _ b pos] buf_done_again)
  next
    case 3
    then show ?thesis by (simp add: chunked_buf.simps [of _ _ b pos] buf_done_last)
  next
    case 2
    from unchunk_turn [OF 2(6) 2(2-5), of body] obtain d1 n where
      d1: "unchunk (rb_chunked (snd (chunk_turn b q c body))) (drop (fst (chunk_turn b q c body)) b @ rest) = Some (d1, t)"
      and n: "d = take n (drop q b) @ d1" "0 < n" "fst (chunk_turn b q c body) = q + n" "q + n \<le> length b"
      and out: "rb_out (snd (chunk_turn b q c body)) = rb_out body @ [take n (drop q b)]"
        "content_length_n (snd (chunk_turn b q c body)) = content_length_n body + int n" "ck_ok (rb_chunked (snd (chunk_turn b q c body)))"
      by blast
    have le: "ck_size c \<le> int (length d)" using unchunk_data_le [OF 2(6,3)] 2(4) by (simp add: ck_ok_def)
    have step: "chunked_buf (\<lambda>_. True) max_size b pos body =
        chunked_buf (\<lambda>_. True) max_size b (fst (chunk_turn b q c body)) (snd (chunk_turn b q c body))"
      using le less.prems(4-6) 2(4) by (intro chunked_buf_turn [OF 2(1,2)]) (auto simp: ck_ok_def)
    have "chunk_at_end (rb_chunked (snd (chunk_turn b q c body))) \<le> 1" by (simp add: chunk_at_end_def)
    then have "2 * (length b - (q + n)) + chunk_at_end (rb_chunked (snd (chunk_turn b q c body))) <
        2 * (length b - pos) + chunk_at_end (rb_chunked body)"
      using n(2) parse_chunked_OK(1,2) [OF 2(1)] by linarith
    then have "buf_done b rest d1 t (snd (chunk_turn b q c body)) (chunked_buf (\<lambda>_. True) max_size b pos body)"
      using less.hyps [of "fst (chunk_turn b q c body)" "snd (chunk_turn b q c body)" d1] d1 n out less.prems(4-6) unfolding step by (simp add: add.assoc)
    then show ?thesis unfolding n(1) using out n(4) by (intro buf_done_piece) auto
  qed
qed

lemma chunked_chain_unchunk:
  assumes "unchunk (rb_chunked body) (concat bs) = Some (d, [])" "ck_ok (rb_chunked body)" "[] \<notin> set bs"
    and "max_size = 0 \<or> content_length_n body + int (length d) \<le> max_size"
    and "0 \<le> content_length_n body" "content_length_n body + int (length d) \<le> max_chunk"
  shows "\<exists>ps body'. chunked_chain (\<lambda>_. True) max_size bs body = (None, body') \<and> d = concat ps \<and> rb_out body' = rb_out body @ ps \<and>
    content_length_n body' = content_length_n body + int (length d) \<and> rb_rest body' = 0"
  using assms
proof (induction bs arbitrary: body d)
  case (Cons b bs)
  from Cons.prems(1) have "unchunk (rb_chunked body) (drop 0 b @ concat bs) = Some (d, [])" by simp
  from chunked_buf_unchunk [OF this Cons.prems(2) _ Cons.prems(4-6)] obtain ps d' p body' where
    buf: "chunked_buf (\<lambda>_. True) max_size b 0 body = (None, p, body')" "d = concat ps @ d'" "rb_out body' = rb_out body @ ps"
      "content_length_n body' = content_length_n body + int (length (concat ps))"
    and or: "ck_ok (rb_chunked body') \<and> unchunk (rb_chunked body') (concat bs) = Some (d', []) \<or>
      rb_rest body' = 0 \<and> d' = [] \<and> [] = drop p b @ concat bs" by (auto simp: buf_done_def)
  show ?case
  proof (cases "ck_ok (rb_chunked body') \<and> unchunk (rb_chunked body') (concat bs) = Some (d', [])")
    case True
    with Cons.IH [of body' d'] Cons.prems(3-6) buf obtain ps' body'' where
      "chunked_chain (\<lambda>_. True) max_size bs body' = (None, body'')" "d' = concat ps'" "rb_out body'' = rb_out body' @ ps'"
      "content_length_n body'' = content_length_n body' + int (length d')" "rb_rest body'' = 0" by auto
    with buf show ?thesis by (auto intro!: exI [of _ "ps @ ps'"])
  next
    case False
    with or Cons.prems(3) have "bs = []" by (cases bs) auto
    with False or buf show ?thesis by auto
  qed
qed simp

section \<open>Encoded bodies\<close>

text \<open>A body in chunks: a size in hexadecimal digits and the data for each, then the last chunk.\<close>

fun chunk_bytes :: "string \<times> string \<Rightarrow> string" where
  "chunk_bytes (h, d) = h @ [CR, LF] @ d @ [CR, LF]"

definition chunked_bytes :: "(string \<times> string) list \<Rightarrow> string" where
  "chunked_bytes cs = concat (map chunk_bytes cs) @ ''0'' @ [CR, LF, CR, LF]"

fun chunk_wf :: "string \<times> string \<Rightarrow> bool" where
  "chunk_wf (h, d) \<longleftrightarrow> h \<noteq> [] \<and> is_hex h \<and> hex_value h = int (length d) \<and> d \<noteq> []"

definition body_bytes :: "(string \<times> string) list \<Rightarrow> string" where
  "body_bytes cs = concat (map snd cs)"

lemma CR_LF_no_hex [simp]: "hex_digit_val CR = None" "hex_digit_val LF = None"
  by (simp_all add: hex_digit_val_def is_digit_def is_hex_lc_def char_or_0x20_def less_eq_char_def)

lemma unchunk_hex:
  assumes "ck_state c = sw_chunk_size" "is_hex h" "0 \<le> ck_size c" "hex_from (ck_size c) h \<le> max_chunk"
  shows "unchunk c (h @ r) = unchunk (c\<lparr>ck_size := hex_from (ck_size c) h\<rparr>) r"
  using assms
proof (induction h arbitrary: c)
  case (Cons ch h)
  then obtain d where d: "hex_digit_val ch = Some d" "is_hex h" by (auto simp: is_hex_def)
  note rng = hex_digit_val_range [OF d(1)]
  let ?v = "ck_size c * 16 + d" let ?c = "c\<lparr>ck_size := ?v\<rparr>"
  have v: "hex_from ?v h = hex_from (ck_size c) (ch # h)" using d by (simp add: hex_from_def)
  have le: "?v \<le> max_chunk" using hex_from_mono [OF d(2), of ?v] Cons.prems(3,4) rng v by simp
  have w: "wrap64 (ck_size c * 16) = ck_size c * 16" "wrap64 ?v = ?v"
    using le Cons.prems(3) rng by (auto intro!: wrap64_id simp: is_int64_def max_chunk_def)
  have "unchunk c ((ch # h) @ r) = unchunk ?c (h @ r)"
    using Cons.prems(1,3) d(1) w le rng by (simp add: chunk_step_def step_chunk_size_def chunk_enter_def)
  also have "\<dots> = unchunk (?c\<lparr>ck_size := hex_from (ck_size ?c) h\<rparr>) r"
    using Cons.prems d(2) rng v by (intro Cons.IH) simp_all
  finally show ?case using v by simp
qed (simp add: hex_from_def)

lemma unchunk_chunk:
  assumes "ck_state c = sw_chunk_start" "chunk_wf (h, d)" "int (length d) \<le> max_chunk"
  shows "unchunk c (chunk_bytes (h, d) @ r) =
    map_option (apfst ((@) d)) (unchunk (c\<lparr>ck_state := sw_chunk_start, ck_size := 0\<rparr>) r)"
proof -
  obtain ch h' where h: "h = ch # h'" using assms(2) by (cases h) auto
  obtain x where x: "hex_digit_val ch = Some x" and h': "is_hex h'" using assms(2) h by (auto simp: is_hex_def)
  let ?c = "c\<lparr>ck_state := sw_chunk_size, ck_size := x\<rparr>" let ?n = "int (length d)"
  have v: "hex_from x h' = ?n" using x h assms(2) by (simp add: hex_from_def)
  note rng = hex_digit_val_range [OF x]
  have x_le: "x \<le> max_chunk" using rng by (simp add: max_chunk_def)
  have "unchunk c (chunk_bytes (h, d) @ r) = unchunk ?c (h' @ ([CR, LF] @ d @ [CR, LF] @ r))"
    using assms(1) x h rng x_le by (simp add: chunk_step_def chunk_enter_def)
  also have "\<dots> = unchunk (?c\<lparr>ck_size := ?n\<rparr>) ([CR, LF] @ d @ [CR, LF] @ r)"
    using unchunk_hex [of ?c h' "[CR, LF] @ d @ [CR, LF] @ r"] h' v assms(3) rng by simp
  also have "\<dots> = unchunk (c\<lparr>ck_state := sw_chunk_data, ck_size := ?n\<rparr>) (d @ [CR, LF] @ r)"
    using assms(2,3) by (cases c) (simp add: chunk_step_defs chunk_enter_def)
  also have "\<dots> = map_option (apfst ((@) d)) (unchunk (c\<lparr>ck_state := sw_chunk_data, ck_size := 0\<rparr>) ([CR, LF] @ r))"
    using unchunk_take [of "length d" d "c\<lparr>ck_state := sw_chunk_data, ck_size := ?n\<rparr>" "[CR, LF] @ r"] by simp
  also have "unchunk (c\<lparr>ck_state := sw_chunk_data, ck_size := 0\<rparr>) ([CR, LF] @ r) =
      unchunk (c\<lparr>ck_state := sw_chunk_start, ck_size := 0\<rparr>) r"
    by (cases c) (simp add: chunk_step_defs chunk_enter_def max_chunk_def)
  finally show ?thesis .
qed

lemma unchunk_last: "ck_state c = sw_chunk_start \<Longrightarrow> unchunk c (''0'' @ [CR, LF, CR, LF]) = Some ([], [])"
proof -
  have "hex_digit_val (CHR ''0'') = Some 0" by code_simp
  moreover assume "ck_state c = sw_chunk_start"
  ultimately show ?thesis by (simp add: chunk_step_defs chunk_enter_def max_chunk_def)
qed

lemma unchunk_chunked_bytes:
  "ck_state c = sw_chunk_start \<Longrightarrow> list_all chunk_wf cs \<Longrightarrow> int (length (body_bytes cs)) \<le> max_chunk \<Longrightarrow>
   unchunk c (chunked_bytes cs) = Some (body_bytes cs, [])"
proof (induction cs arbitrary: c)
  case Nil
  then show ?case using unchunk_last by (simp add: chunked_bytes_def body_bytes_def)
next
  case (Cons hd cs)
  obtain h d where hd: "hd = (h, d)" by (cases hd)
  have "unchunk c (chunk_bytes (h, d) @ chunked_bytes cs) =
      map_option (apfst ((@) d)) (unchunk (c\<lparr>ck_state := sw_chunk_start, ck_size := 0\<rparr>) (chunked_bytes cs))"
    using Cons.prems hd by (intro unchunk_chunk) (auto simp: body_bytes_def)
  with Cons hd show ?case by (simp add: chunked_bytes_def body_bytes_def)
qed

section \<open>Properties\<close>

text \<open>
  C15. A body of any number of chunks, cut anywhere into non-empty buffers, passes the filter: the pieces
  put together are the body as it was sent, the length counted is its length and nothing is left to
  read; this needs only that buffers can be had and that the body is no longer than the configured limit
  (and than 2^62).
\<close>

theorem chunked_body_round_trip:
  assumes "list_all chunk_wf cs" "concat bufs = chunked_bytes cs" "[] \<notin> set bufs" "rb_rest body = - 1" "rb_out body = []"
    and "max_size = 0 \<or> int (length (body_bytes cs)) \<le> max_size" "int (length (body_bytes cs)) \<le> max_chunk"
  shows "\<exists>body'. ngx_http_request_body_chunked_filter True (\<lambda>_. True) True max_size bufs body = (NGX_OK, body') \<and>
    concat (rb_out body') = body_bytes cs \<and> content_length_n body' = int (length (body_bytes cs)) \<and> rb_rest body' = 0"
proof -
  let ?body = "body\<lparr>rb_chunked := fresh_chunked, content_length_n := 0, rb_rest := 3\<rparr>"
  have "unchunk (rb_chunked ?body) (concat bufs) = Some (body_bytes cs, [])"
    using unchunk_chunked_bytes [of fresh_chunked cs] assms by (simp add: fresh_chunked_def)
  moreover have "ck_ok (rb_chunked ?body)" by (simp add: ck_ok_def fresh_chunked_def max_chunk_def)
  ultimately obtain ps body' where "chunked_chain (\<lambda>_. True) max_size bufs ?body = (None, body')" "body_bytes cs = concat ps"
    "rb_out body' = ps" "content_length_n body' = int (length (body_bytes cs))" "rb_rest body' = 0"
    using chunked_chain_unchunk [of ?body bufs "body_bytes cs" max_size] assms by auto
  then show ?thesis using assms(4) by (simp add: ngx_http_request_body_chunked_filter_def)
qed

definition no_body :: request_body where
  "no_body = \<lparr>rb_rest = - 1, rb_chunked = fresh_chunked, content_length_n = - 1, rb_out = []\<rparr>"

definition demo_chunks :: "(string \<times> string) list" where
  "demo_chunks = [(''3'', ''abc''), (''0A'', ''0123456789'')]"

lemma demo_cut: "concat [take 4 (chunked_bytes demo_chunks), drop 4 (chunked_bytes demo_chunks)] = chunked_bytes demo_chunks"
  by simp

theorem chunked_body_round_trip_witness:
  "\<exists>body'. ngx_http_request_body_chunked_filter True (\<lambda>_. True) True 1024
      [take 4 (chunked_bytes demo_chunks), drop 4 (chunked_bytes demo_chunks)] no_body = (NGX_OK, body') \<and>
    concat (rb_out body') = body_bytes demo_chunks \<and> content_length_n body' = int (length (body_bytes demo_chunks)) \<and> rb_rest body' = 0"
proof (rule chunked_body_round_trip [OF _ demo_cut])
  show "list_all chunk_wf demo_chunks" by code_simp
  show "[] \<notin> set [take 4 (chunked_bytes demo_chunks), drop 4 (chunked_bytes demo_chunks)]" by code_simp
qed (simp_all add: no_body_def body_bytes_def demo_chunks_def max_chunk_def)


end
