(* ===== verification/Ngx_Pool_Inv.thy ===== *)
theory Ngx_Pool_Inv
  imports Ngx_Pool "HOL-Library.Multiset"
begin

text \<open>
  The invariant of the pools of \<open>Ngx_Pool\<close> and what follows from it.

  \<open>pool_reach\<close> are the states after any history of calls, with the list of regions granted so far as a ghost.
  In every such state the grants are apart from each other, from the nodes the pool keeps in its own memory, and inside
  memory of the system; no call faults; and destroying the pool gives back exactly what it took.
\<close>

section \<open>Regions\<close>

definition apart :: "region \<Rightarrow> region \<Rightarrow> bool" where
  "apart g h \<longleftrightarrow> fst g + snd g \<le> fst h \<or> fst h + snd h \<le> fst g"

definition inside :: "region \<Rightarrow> region \<Rightarrow> bool" where
  "inside g h \<longleftrightarrow> fst h \<le> fst g \<and> fst g + snd g \<le> fst h + snd h"

definition all_apart :: "region list \<Rightarrow> bool" where
  "all_apart gs \<longleftrightarrow> distinct gs \<and> (\<forall>g\<in>set gs. \<forall>h\<in>set gs. g \<noteq> h \<longrightarrow> apart g h)"

lemma apart_sym: "apart g h \<longleftrightarrow> apart h g"
  by (auto simp: apart_def)

lemma apart_inside: "apart g h \<Longrightarrow> inside g' g \<Longrightarrow> inside h' h \<Longrightarrow> apart g' h'"
  by (auto simp: apart_def inside_def)

lemma all_apart_Nil [simp]: "all_apart []"
  by (simp add: all_apart_def)

lemma all_apart_Cons [simp]: "all_apart (g # gs) \<longleftrightarrow> g \<notin> set gs \<and> (\<forall>h\<in>set gs. apart g h) \<and> all_apart gs"
  unfolding all_apart_def using apart_sym by auto

lemma all_apart_mset: "mset gs = mset hs \<Longrightarrow> all_apart gs \<longleftrightarrow> all_apart hs"
  using mset_eq_setD [of gs hs] mset_eq_imp_distinct_iff [of gs hs] by (simp add: all_apart_def)

lemma all_apart_remove1: "all_apart gs \<Longrightarrow> all_apart (remove1 g gs)"
  by (auto simp: all_apart_def dest: notin_set_remove1)

definition alloc_contract :: "sys_alloc \<Rightarrow> bool" where
  "alloc_contract sys \<longleftrightarrow>
     (\<forall>k live al n p. sys k live al n = Some p \<longrightarrow>
        al dvd p \<and> p \<notin> fst ` set live \<and> (\<forall>g\<in>set live. apart (p, n) g))"

definition heap_ok :: "sys_heap \<Rightarrow> bool" where
  "heap_ok s \<longleftrightarrow> distinct (map fst (sys_live s)) \<and> all_apart (sys_live s)"

lemma memalign_Some:
  assumes "alloc_contract sys" "heap_ok s" "ngx_memalign sys al n s = (Some p, s')"
  shows "heap_ok s'" "sys_live s' = (p, n) # sys_live s" "al dvd p" "\<forall>g\<in>set (sys_live s). apart (p, n) g" "(p, n) \<notin> set (sys_live s)"
proof -
  have c: "sys (sys_calls s) (sys_live s) al n = Some p" and s': "sys_live s' = (p, n) # sys_live s"
    using assms(3) by (auto simp: ngx_memalign_def Let_def split: option.splits)
  from assms(1) c have p: "al dvd p" "p \<notin> fst ` set (sys_live s)" "\<forall>g\<in>set (sys_live s). apart (p, n) g"
    unfolding alloc_contract_def by blast+
  then show "heap_ok s'" "sys_live s' = (p, n) # sys_live s" "al dvd p" "\<forall>g\<in>set (sys_live s). apart (p, n) g"
    "(p, n) \<notin> set (sys_live s)"
    using assms(2) s' by (force simp: heap_ok_def)+
qed

lemma memalign_None: "ngx_memalign sys al n s = (None, s') \<Longrightarrow> sys_live s' = sys_live s"
  by (auto simp: ngx_memalign_def Let_def split: option.splits)

lemma heap_ok_live: "sys_live s' = sys_live s \<Longrightarrow> heap_ok s' = heap_ok s"
  by (simp add: heap_ok_def)

lemma find_base: "distinct (map fst gs) \<Longrightarrow> (p, n) \<in> set gs \<Longrightarrow> find (\<lambda>(a, n). a = p) gs = Some (p, n)"
  by (induction gs) (auto simp: rev_image_eqI)

lemma free_live:
  assumes "heap_ok s" "(p, n) \<in> set (sys_live s)"
  shows "\<exists>s'. ngx_free p s = Inr s' \<and> heap_ok s' \<and> sys_live s' = remove1 (p, n) (sys_live s)"
  using assms find_base [of "sys_live s" p n] all_apart_remove1 [of "sys_live s" "(p, n)"]
  by (auto simp: ngx_free_def heap_ok_def distinct_map distinct_remove1 dest: inj_on_subset [OF _ set_remove1_subset])

section \<open>The blocks of a pool\<close>

definition block_region :: "ngx_pool_data \<Rightarrow> region" where
  "block_region b = (d_start b, d_end b - d_start b)"

text \<open>The first block starts with the record of the pool, the others with that of the block.\<close>

definition header_size :: "nat \<Rightarrow> nat" where
  "header_size i = (if i = 0 then sizeof_pool else sizeof_pool_data)"

definition block_ok :: "nat \<Rightarrow> nat \<Rightarrow> ngx_pool_data \<Rightarrow> bool" where
  "block_ok psize h b \<longleftrightarrow> 16 dvd d_start b \<and> d_end b = d_start b + psize \<and> d_start b + h \<le> d_last b \<and> d_last b \<le> d_end b"

definition placed :: "ngx_pool_data list \<Rightarrow> region \<Rightarrow> bool" where
  "placed bl g \<longleftrightarrow> (\<exists>i<length bl. d_start (bl ! i) + header_size i \<le> fst g \<and> fst g + snd g \<le> d_last (bl ! i))"

text \<open>
  The invariant of the memory: \<open>us\<close> are the regions in use, each in the used part of a block or one of the
  separate regions \<open>lrs\<close>; the memory taken from the system is that of the blocks, \<open>lrs\<close>, and what \<open>others\<close> took.
\<close>

definition core_inv :: "nat \<Rightarrow> region list \<Rightarrow> ngx_pool_data list \<Rightarrow> sys_heap \<Rightarrow> region list \<Rightarrow> region list \<Rightarrow> bool" where
  "core_inv psize others bl s us lrs \<longleftrightarrow>
     8 dvd psize \<and> psize < 2 ^ 64 \<and> sizeof_pool \<le> psize \<and> bl \<noteq> [] \<and> (\<forall>i<length bl. block_ok psize (header_size i) (bl ! i)) \<and>
     heap_ok s \<and> mset (sys_live s) = mset others + mset (map block_region bl) + mset lrs \<and>
     all_apart us \<and> (\<forall>g\<in>set us. 0 < snd g \<and> (placed bl g \<or> g \<in> set lrs))"

lemma size_t_sub_exact: "y \<le> x \<Longrightarrow> x - y < 2 ^ 64 \<Longrightarrow> size_t_sub x y = x - y"
  by (simp add: size_t_sub_def of_nat_diff [symmetric] nat_mod_distrib del: of_nat_diff)

lemma align_ptr_8: "x \<le> ngx_align_ptr x 8" "8 dvd ngx_align_ptr x 8" "8 dvd e \<Longrightarrow> x \<le> e \<Longrightarrow> ngx_align_ptr x 8 \<le> e"
proof -
  show "x \<le> ngx_align_ptr x 8" "8 dvd ngx_align_ptr x 8" by (auto simp: ngx_align_ptr_def)
  assume "8 dvd e" "x \<le> e"
  then show "ngx_align_ptr x 8 \<le> e" by (auto simp: ngx_align_ptr_def elim!: dvdE)
qed

lemma align_ptr_id: "8 dvd x \<Longrightarrow> ngx_align_ptr x 8 = x"
  by (auto simp: ngx_align_ptr_def elim!: dvdE)

lemma core_invD:
  assumes "core_inv psize others bl s us lrs"
  shows "8 dvd psize" "psize < 2 ^ 64" "sizeof_pool \<le> psize" "bl \<noteq> []" "\<And>i. i < length bl \<Longrightarrow> block_ok psize (header_size i) (bl ! i)"
    "heap_ok s" "mset (sys_live s) = mset others + mset (map block_region bl) + mset lrs" "all_apart us"
    "\<And>g. g \<in> set us \<Longrightarrow> 0 < snd g \<and> (placed bl g \<or> g \<in> set lrs)"
  using assms by (simp_all add: core_inv_def)

lemma core_live:
  assumes "core_inv psize others bl s us lrs"
  shows "set (sys_live s) = set others \<union> block_region ` set bl \<union> set lrs"
  using arg_cong [OF core_invD(7) [OF assms], of set_mset] by simp

lemma placed_inside:
  assumes "core_inv psize others bl s us lrs" "placed bl g"
  shows "\<exists>i<length bl. inside g (block_region (bl ! i))"
  using assms(2) core_invD(5) [OF assms(1)] unfolding placed_def inside_def block_region_def block_ok_def by fastforce

lemma core_used_inside:
  assumes inv: "core_inv psize others bl s us lrs" and "g \<in> set us"
  shows "\<exists>h\<in>set (sys_live s). inside g h"
proof (cases "placed bl g")
  case True
  then obtain i where "i < length bl" "inside g (block_region (bl ! i))" using placed_inside [OF inv] by blast
  then show ?thesis using core_live [OF inv] by (intro bexI [of _ "block_region (bl ! i)"]) simp_all
next
  case False
  then have "g \<in> set lrs" using core_invD(9) [OF assms] by simp
  then show ?thesis using core_live [OF inv] by (auto simp: inside_def)
qed

text \<open>The blocks and the separate regions are apart from each other.\<close>

lemma core_regions_apart:
  assumes "core_inv psize others bl s us lrs"
  shows "all_apart (others @ map block_region bl @ lrs)"
proof -
  have "all_apart (sys_live s)" using core_invD(6) [OF assms] by (simp add: heap_ok_def)
  moreover have "mset (sys_live s) = mset (others @ map block_region bl @ lrs)" using core_invD(7) [OF assms] by simp
  ultimately show ?thesis using all_apart_mset by blast
qed

lemma core_block_apart:
  assumes inv: "core_inv psize others bl s us lrs" and i: "i < length bl"
  shows "j < length bl \<Longrightarrow> j \<noteq> i \<Longrightarrow> apart (block_region (bl ! i)) (block_region (bl ! j))"
    "h \<in> set lrs \<Longrightarrow> apart (block_region (bl ! i)) h"
proof -
  note a = core_regions_apart [OF inv]
  show "apart (block_region (bl ! i)) (block_region (bl ! j))" if j: "j < length bl" "j \<noteq> i"
  proof -
    have "map block_region bl ! i \<noteq> map block_region bl ! j"
      using a i j nth_eq_iff_index_eq [of "map block_region bl" i j] by (simp add: all_apart_def)
    then show ?thesis using a i j(1) by (auto simp: all_apart_def)
  qed
  show "apart (block_region (bl ! i)) h" if "h \<in> set lrs"
  proof -
    have b: "block_region (bl ! i) \<in> block_region ` set bl" using i by simp
    then have "block_region (bl ! i) \<noteq> h" using a that by (auto simp: all_apart_def)
    then show ?thesis using a b that by (auto simp: all_apart_def)
  qed
qed

text \<open>Only the addresses of a block matter.\<close>

definition same_places :: "ngx_pool_data list \<Rightarrow> ngx_pool_data list \<Rightarrow> bool" where
  "same_places bl bl' \<longleftrightarrow> map (\<lambda>b. (d_start b, d_last b, d_end b)) bl = map (\<lambda>b. (d_start b, d_last b, d_end b)) bl'"

lemma same_placesD:
  assumes "same_places bl bl'"
  shows "length bl = length bl'" "i < length bl' \<Longrightarrow> d_start (bl ! i) = d_start (bl' ! i)" "i < length bl' \<Longrightarrow> d_last (bl ! i) = d_last (bl' ! i)"
    "i < length bl' \<Longrightarrow> d_end (bl ! i) = d_end (bl' ! i)"
  using assms by (auto simp: same_places_def list_eq_iff_nth_eq)

lemma placed_append: "placed bl g \<Longrightarrow> placed (bl @ bl') g"
  by (auto simp: placed_def nth_append intro: trans_less_add1)

lemma core_same_places:
  assumes "core_inv psize others bl s us lrs" "same_places bl bl'"
  shows "core_inv psize others bl' s us lrs" "placed bl = placed bl'"
proof -
  note d = same_placesD [OF assms(2)]
  show p: "placed bl = placed bl'" using d by (auto simp: placed_def fun_eq_iff)
  have "map block_region bl = map block_region bl'"
    using d by (auto simp: list_eq_iff_nth_eq block_region_def)
  then show "core_inv psize others bl' s us lrs"
    using assms(1) d p by (auto simp: core_inv_def block_ok_def)
qed

text \<open>A region behind \<open>last\<close> is free.\<close>

lemma core_take:
  assumes inv: "core_inv psize others bl s us lrs" and i: "i < length bl"
    and m: "d_last (bl ! i) \<le> m" "m + n \<le> d_end (bl ! i)" and n: "0 < n"
  shows "core_inv psize others (bl[i := (bl ! i)\<lparr>d_last := m + n\<rparr>]) s ((m, n) # us) lrs"
    "placed (bl[i := (bl ! i)\<lparr>d_last := m + n\<rparr>]) (m, n)"
    "placed bl g \<Longrightarrow> placed (bl[i := (bl ! i)\<lparr>d_last := m + n\<rparr>]) g"
proof -
  let ?bl = "bl[i := (bl ! i)\<lparr>d_last := m + n\<rparr>]"
  have ok: "block_ok psize (header_size i) (bl ! i)" using core_invD(5) [OF inv i] .
  show p: "placed ?bl (m, n)" using i m ok by (auto simp: placed_def block_ok_def intro!: exI [of _ i])
  have mono: "placed ?bl h" if pl: "placed bl h" for h
  proof -
    obtain j where j: "j < length bl" "d_start (bl ! j) + header_size j \<le> fst h" "fst h + snd h \<le> d_last (bl ! j)"
      using pl by (auto simp: placed_def)
    then show ?thesis using m i unfolding placed_def by (intro exI [of _ j]) (cases "j = i"; simp)
  qed
  then show "placed bl g \<Longrightarrow> placed ?bl g" .
  have reg: "map block_region ?bl = map block_region bl"
    by (rule nth_equalityI) (simp_all add: block_region_def nth_list_update [OF i])
  have mine: "inside (m, n) (block_region (bl ! i))" using m ok by (auto simp: inside_def block_region_def block_ok_def)
  have ap: "apart (m, n) h" if h: "h \<in> set us" for h
  proof (cases "placed bl h")
    case True
    then obtain j where j: "j < length bl" "d_start (bl ! j) + header_size j \<le> fst h" "fst h + snd h \<le> d_last (bl ! j)"
      by (auto simp: placed_def)
    show ?thesis
    proof (cases "j = i")
      case True
      then show ?thesis using m(1) j by (auto simp: apart_def)
    next
      case False
      have "inside h (block_region (bl ! j))" using j core_invD(5) [OF inv j(1)] by (auto simp: inside_def block_region_def block_ok_def)
      then show ?thesis using apart_inside [OF core_block_apart(1) [OF inv i j(1) False] mine] by blast
    qed
  next
    case False
    then have "h \<in> set lrs" using core_invD(9) [OF inv h] by simp
    then show ?thesis using apart_inside [OF core_block_apart(2) [OF inv i] mine, of h h] by (simp add: inside_def)
  qed
  moreover have "(m, n) \<notin> set us" using ap [of "(m, n)"] n by (auto simp: apart_def)
  moreover have "block_ok psize (header_size j) (?bl ! j)" if "j < length bl" for j
    using core_invD(5) [OF inv that] m ok i by (cases "j = i") (auto simp: block_ok_def)
  ultimately show "core_inv psize others ?bl s ((m, n) # us) lrs"
    using inv reg mono p n unfolding core_inv_def by auto
qed

text \<open>A new block.\<close>

lemma core_new_block:
  assumes inv: "core_inv psize others bl s us lrs" and sys: "alloc_contract sys"
    and m: "ngx_memalign sys NGX_POOL_ALIGNMENT psize s = (Some a, s')"
  shows "core_inv psize others (bl @ [\<lparr>d_start = a, d_last = a + sizeof_pool_data, d_end = a + psize, d_failed = 0\<rparr>]) s' us lrs"
    (is "core_inv _ _ (bl @ [?b]) _ _ _")
proof -
  note new = memalign_Some [OF sys core_invD(6) [OF inv] m]
  have "block_ok psize (header_size i) ((bl @ [?b]) ! i)" if "i < Suc (length bl)" for i
  proof (cases "i < length bl")
    case True
    then show ?thesis using core_invD(5) [OF inv] by (simp add: nth_append)
  next
    case False
    with that have "i = length bl" by simp
    then show ?thesis using core_invD(3,4) [OF inv] new(3) by (simp add: block_ok_def header_size_def)
  qed
  then show ?thesis
    using inv new(1,2) placed_append [of bl _ "[?b]"] unfolding core_inv_def by (auto simp: block_region_def)
qed

text \<open>A separate region, taken and given back.\<close>

lemma core_new_region:
  assumes inv: "core_inv psize others bl s us lrs" and sys: "alloc_contract sys"
    and m: "ngx_memalign sys al n s = (Some a, s')" and n: "0 < n"
  shows "core_inv psize others bl s' ((a, n) # us) ((a, n) # lrs)"
proof -
  note new = memalign_Some [OF sys core_invD(6) [OF inv] m]
  have "apart (a, n) h" if h: "h \<in> set us" for h
  proof -
    obtain k where k: "k \<in> set (sys_live s)" "inside h k" using core_used_inside [OF inv h] by blast
    then show ?thesis using new(4) apart_inside [of "(a, n)" k "(a, n)" h] by (auto simp: inside_def)
  qed
  moreover from this [of "(a, n)"] have "(a, n) \<notin> set us" using n by (auto simp: apart_def)
  ultimately have "all_apart ((a, n) # us)" using core_invD(8) [OF inv] by simp
  then show ?thesis using inv new(1,2) n unfolding core_inv_def by auto
qed

lemma core_free_region:
  assumes inv: "core_inv psize others bl s us lrs" and g: "(a, n) \<in> set lrs"
  shows "\<exists>s'. ngx_free a s = Inr s' \<and> core_inv psize others bl s' (remove1 (a, n) us) (remove1 (a, n) lrs)"
proof -
  have "(a, n) \<in> set (sys_live s)" using core_live [OF inv] g by simp
  from free_live [OF core_invD(6) [OF inv] this] obtain s' where
    s': "ngx_free a s = Inr s'" "heap_ok s'" "sys_live s' = remove1 (a, n) (sys_live s)" by blast
  have d: "distinct us" using core_invD(8) [OF inv] by (simp add: all_apart_def)
  have "mset (sys_live s') = mset others + mset (map block_region bl) + mset (remove1 (a, n) lrs)"
    using core_invD(7) [OF inv] g s'(3) by simp
  then have "core_inv psize others bl s' (remove1 (a, n) us) (remove1 (a, n) lrs)"
    using inv s'(2) d all_apart_remove1 unfolding core_inv_def by (auto simp: set_remove1_eq)
  then show ?thesis using s'(1) by blast
qed

section \<open>Allocation\<close>

text \<open>The parts of a pool that small allocations rely on, and what they leave alone.\<close>

definition pool_core :: "nat \<Rightarrow> region list \<Rightarrow> 'h ngx_pool \<Rightarrow> sys_heap \<Rightarrow> region list \<Rightarrow> region list \<Rightarrow> bool" where
  "pool_core psize others pool s us lrs \<longleftrightarrow> core_inv psize others (pool_blocks pool) s us lrs \<and>
     pool_current pool < length (pool_blocks pool) \<and> 24 \<le> pool_max pool \<and> pool_max pool + sizeof_pool \<le> psize"

definition pool_keeps :: "'h ngx_pool \<Rightarrow> 'h ngx_pool \<Rightarrow> bool" where
  "pool_keeps pool pool' \<longleftrightarrow> pool_large pool' = pool_large pool \<and> pool_cleanup pool' = pool_cleanup pool \<and>
     (\<forall>g. placed (pool_blocks pool) g \<longrightarrow> placed (pool_blocks pool') g)"

lemma scan_takes:
  assumes "palloc_scan align sz ps = Some (m, qs)" "\<forall>p\<in>set ps. d_last p \<le> d_end p \<and> 8 dvd d_end p \<and> d_end p - d_last p < 2 ^ 64"
  shows "\<exists>i<length ps. qs = ps[i := (ps ! i)\<lparr>d_last := m + sz\<rparr>] \<and> d_last (ps ! i) \<le> m \<and> m + sz \<le> d_end (ps ! i) \<and> (align \<longrightarrow> 8 dvd m)"
  using assms
proof (induction ps arbitrary: qs)
  case (Cons p ps)
  define k where "k = (if align then ngx_align_ptr (d_last p) 8 else d_last p)"
  have k: "d_last p \<le> k" "k \<le> d_end p" "align \<longrightarrow> 8 dvd k" using Cons.prems(2) align_ptr_8 by (auto simp: k_def)
  then have sub: "size_t_sub (d_end p) k = d_end p - k" using Cons.prems(2) by (intro size_t_sub_exact) auto
  show ?case
  proof (cases "sz \<le> d_end p - k")
    case True
    then have "m = k \<and> qs = p\<lparr>d_last := m + sz\<rparr> # ps" using Cons.prems(1) sub by (auto simp: k_def Let_def)
    then show ?thesis using k True by (intro exI [of _ 0]) simp
  next
    case False
    then obtain qs' where qs': "palloc_scan align sz ps = Some (m, qs')" "qs = p # qs'"
      using Cons.prems(1) sub by (auto simp: k_def Let_def)
    then obtain i where "i < length ps" "qs' = ps[i := (ps ! i)\<lparr>d_last := m + sz\<rparr>]" "d_last (ps ! i) \<le> m" "m + sz \<le> d_end (ps ! i)" "align \<longrightarrow> 8 dvd m"
      using Cons.IH Cons.prems(2) by auto
    then show ?thesis using qs'(2) by (intro exI [of _ "Suc i"]) simp
  qed
qed simp

lemma bump_failed_places:
  "bump_failed i cur ps = (qs, cur') \<Longrightarrow> same_places ps qs \<and> (cur < i + length ps \<longrightarrow> cur' < i + length ps)"
proof (induction i cur ps arbitrary: qs cur' rule: bump_failed.induct)
  case (1 i current p q ps)
  obtain rs c where rs: "bump_failed (Suc i) (if d_failed p > 4 then Suc i else current) (q # ps) = (rs, c)" by fastforce
  with "1.IH" [OF rs] "1.prems" show ?case by (auto simp: same_places_def split: if_splits)
qed (auto simp: same_places_def)

lemma same_places_append: "same_places ps qs \<Longrightarrow> same_places (a @ ps @ b) (a @ qs @ b)"
  by (simp add: same_places_def)

lemma palloc_block_core:
  assumes core: "pool_core psize others pool s us lrs" and sys: "alloc_contract sys" and sz: "0 < sz" "sz \<le> pool_max pool"
    and r: "ngx_palloc_block sys pool sz s = (Some m, pool', s')"
  shows "pool_core psize others pool' s' ((m, sz) # us) lrs" "placed (pool_blocks pool') (m, sz)" "pool_keeps pool pool'" "8 dvd m"
proof -
  let ?bl = "pool_blocks pool" let ?c = "pool_current pool"
  have inv: "core_inv psize others ?bl s us lrs" and c: "?c < length ?bl" and mx: "pool_max pool + 80 \<le> psize" "24 \<le> pool_max pool"
    using core by (simp_all add: pool_core_def)
  have "block_ok psize (header_size 0) (hd ?bl)" using core_invD(4,5) [OF inv] by (simp add: hd_conv_nth)
  then have psize: "size_t_sub (d_end (hd ?bl)) (d_start (hd ?bl)) = psize"
    using core_invD(2) [OF inv] by (subst size_t_sub_exact) (simp_all add: block_ok_def)
  obtain qs cur where qs: "bump_failed ?c ?c (drop ?c ?bl) = (qs, cur)" by fastforce
  obtain a s1 where a: "ngx_memalign sys 16 psize s = (Some a, s1)" "s' = s1"
    and m0: "m = ngx_align_ptr (a + 32) 8"
    and p': "pool' = pool\<lparr>pool_blocks := take ?c ?bl @ qs @ [\<lparr>d_start = a, d_last = m + sz, d_end = a + psize, d_failed = 0\<rparr>], pool_current := cur\<rparr>"
    using r psize qs by (auto simp: ngx_palloc_block_def Let_def split: prod.splits option.splits)
  have al: "8 dvd a" using memalign_Some(3) [OF sys core_invD(6) [OF inv] a(1)] by (rule dvd_trans [rotated]) simp
  then have m: "m = a + 32" using m0 by (simp add: align_ptr_id)
  show "8 dvd m" using al m by simp
  let ?new = "\<lparr>d_start = a, d_last = a + 32, d_end = a + psize, d_failed = 0\<rparr>"
  have bump: "same_places (drop ?c ?bl) qs" "cur < length ?bl" using bump_failed_places [OF qs] c by simp_all
  have new: "core_inv psize others (?bl @ [?new]) s1 us lrs" by (rule core_new_block [OF inv sys a(1)])
  have same: "same_places (?bl @ [?new]) (take ?c ?bl @ qs @ [?new])"
    using same_places_append [OF bump(1), of "take ?c ?bl" "[?new]"] by (simp add: append_assoc [symmetric] del: append_assoc)
  note new' = core_same_places [OF new same]
  have len: "length (take ?c ?bl @ qs) = length ?bl" using same_placesD(1) [OF bump(1)] c by simp
  then have nth: "(take ?c ?bl @ qs @ [?new]) ! length ?bl = ?new" by (metis append_assoc nth_append_length)
  have i: "length ?bl < length (take ?c ?bl @ qs @ [?new])" using len by simp
  have upd: "(take ?c ?bl @ qs @ [?new])[length ?bl := ?new\<lparr>d_last := m + sz\<rparr>] = pool_blocks pool'"
    using len p' by (metis (no_types, lifting) append_assoc list_update_length ngx_pool.select_convs(1) ngx_pool.surjective
        ngx_pool.update_convs(1,3) ngx_pool_data.update_convs(2))
  note take = core_take [OF new'(1) i, of m sz, unfolded nth upd]
  show "pool_core psize others pool' s' ((m, sz) # us) lrs"
    using take(1) m sz mx bump(2) len a(2) c by (simp add: pool_core_def p')
  show "placed (pool_blocks pool') (m, sz)" using take(2) m sz mx by simp
  have "placed (pool_blocks pool') g" if "placed ?bl g" for g
    using take(3) [of g] m sz mx placed_append [OF that, of "[?new]"] new'(2) by simp
  then show "pool_keeps pool pool'" by (simp add: pool_keeps_def p')
qed

text \<open>A call leaves a granted region or, without memory, nothing changed but the number of calls.\<close>

definition grants :: "nat \<Rightarrow> region list \<Rightarrow> 'h ngx_pool \<Rightarrow> region list \<Rightarrow> region list \<Rightarrow> nat \<Rightarrow> c_ptr option \<Rightarrow> 'h ngx_pool \<Rightarrow> sys_heap \<Rightarrow> bool" where
  "grants psize others pool us lrs sz r pool' s' \<longleftrightarrow> pool_keeps pool pool' \<and>
     (case r of None \<Rightarrow> pool_core psize others pool' s' us lrs
      | Some m \<Rightarrow> pool_core psize others pool' s' ((m, sz) # us) lrs \<and> placed (pool_blocks pool') (m, sz))"

lemma palloc_block_None:
  assumes "ngx_palloc_block sys pool sz s = (None, pool', s')"
  shows "pool' = pool" "sys_live s' = sys_live s"
proof -
  obtain r s1 where r: "ngx_memalign sys 16 (size_t_sub (d_end (hd (pool_blocks pool))) (d_start (hd (pool_blocks pool)))) s = (r, s1)"
    by fastforce
  with assms have "r = None" by (cases r) (auto simp: ngx_palloc_block_def Let_def split: prod.splits)
  with assms r show "pool' = pool" "sys_live s' = sys_live s" by (auto simp: ngx_palloc_block_def dest: memalign_None)
qed

lemma pool_core_live: "sys_live s' = sys_live s \<Longrightarrow> pool_core psize others pool s' us lrs = pool_core psize others pool s us lrs"
  using heap_ok_live [of s' s] by (simp add: pool_core_def core_inv_def)

lemma update_drop: "c \<le> length xs \<Longrightarrow> take c xs @ (drop c xs)[i := v] = xs[c + i := v]"
  using list_update_append [of "take c xs" "drop c xs" "c + i" v] by simp

lemma palloc_small_grants:
  assumes core: "pool_core psize others pool s us lrs" and sys: "alloc_contract sys" and sz: "0 < sz" "sz \<le> pool_max pool"
    and r: "palloc_small align sys pool sz s = (res, pool', s')"
  shows "grants psize others pool us lrs sz res pool' s'" "align \<longrightarrow> (case res of None \<Rightarrow> True | Some m \<Rightarrow> 8 dvd m)"
proof -
  let ?bl = "pool_blocks pool" let ?c = "pool_current pool"
  have inv: "core_inv psize others ?bl s us lrs" and c: "?c < length ?bl" using core by (simp_all add: pool_core_def)
  have "grants psize others pool us lrs sz res pool' s' \<and> (align \<longrightarrow> (case res of None \<Rightarrow> True | Some m \<Rightarrow> 8 dvd m))"
  proof (cases "palloc_scan align sz (drop ?c ?bl)")
    case None
    then have b: "ngx_palloc_block sys pool sz s = (res, pool', s')" using r by (simp add: palloc_small_def)
    show ?thesis
    proof (cases res)
      case None
      then show ?thesis using palloc_block_None [of sys pool sz s] pool_core_live [of s' s psize others pool us lrs] b core by (simp add: grants_def pool_keeps_def)
    next
      case (Some m)
      then show ?thesis using palloc_block_core [OF core sys sz, of m pool' s'] b by (simp add: grants_def)
    qed
  next
    case (Some x)
    then obtain m qs where x: "palloc_scan align sz (drop ?c ?bl) = Some (m, qs)" by (cases x) auto
    then have res: "res = Some m" "pool' = pool\<lparr>pool_blocks := take ?c ?bl @ qs\<rparr>" "s' = s" using r by (simp_all add: palloc_small_def)
    have "d_last p \<le> d_end p \<and> 8 dvd d_end p \<and> d_end p - d_last p < 2 ^ 64" if p: "p \<in> set (drop ?c ?bl)" for p
    proof -
      obtain i where "i < length ?bl" "p = ?bl ! i" using in_set_dropD [OF p] by (auto simp: in_set_conv_nth)
      then have "block_ok psize (header_size i) p" using core_invD(5) [OF inv] by simp
      moreover from this have "8 dvd d_start p" by (auto simp: block_ok_def elim: dvd_trans [rotated])
      ultimately show ?thesis using core_invD(1,2) [OF inv] by (auto simp: block_ok_def)
    qed
    then obtain i where i: "i < length (drop ?c ?bl)" "qs = (drop ?c ?bl)[i := (drop ?c ?bl ! i)\<lparr>d_last := m + sz\<rparr>]"
      "d_last (drop ?c ?bl ! i) \<le> m" "m + sz \<le> d_end (drop ?c ?bl ! i)" "align \<longrightarrow> 8 dvd m"
      using scan_takes [OF x] by blast
    have j: "?c + i < length ?bl" using i(1) by simp
    have upd: "take ?c ?bl @ qs = ?bl[?c + i := (?bl ! (?c + i))\<lparr>d_last := m + sz\<rparr>]"
      using i(2) c update_drop [of ?c ?bl i] by (simp add: less_imp_le)
    note take = core_take [OF inv j, of m sz, folded upd]
    have m: "d_last (?bl ! (?c + i)) \<le> m" "m + sz \<le> d_end (?bl ! (?c + i))" using i(3,4) c by simp_all
    have "pool_core psize others pool' s' ((m, sz) # us) lrs"
      using take(1) [OF m sz(1)] core by (simp add: res pool_core_def i(2))
    then show ?thesis using take(2,3) [OF m sz(1)] i(5) by (simp add: res grants_def pool_keeps_def)
  qed
  then show "grants psize others pool us lrs sz res pool' s'" "align \<longrightarrow> (case res of None \<Rightarrow> True | Some m \<Rightarrow> 8 dvd m)" by simp_all
qed

lemma core_perm:
  assumes "core_inv psize others bl s us lrs" "mset us = mset us'" "mset lrs = mset lrs'"
  shows "core_inv psize others bl s us' lrs'"
  using assms mset_eq_setD [OF assms(2)] mset_eq_setD [OF assms(3)] all_apart_mset [OF assms(2)] unfolding core_inv_def by simp

lemma core_drop: "core_inv psize others bl s (g # us) lrs \<Longrightarrow> core_inv psize others bl s us lrs"
  by (simp add: core_inv_def)

section \<open>The invariant of a pool\<close>

text \<open>The memory a pool uses for its own nodes.\<close>

definition pool_nodes :: "'h ngx_pool \<Rightarrow> region list" where
  "pool_nodes pool = map (\<lambda>l. (large_node l, sizeof_pool_large)) (pool_large pool) @
     map (\<lambda>c. (cleanup_node c, sizeof_pool_cleanup)) (pool_cleanup pool)"

definition large_blocks :: "ngx_pool_large list \<Rightarrow> c_ptr list" where
  "large_blocks ls = List.map_filter large_alloc ls"

text \<open>\<open>gs\<close> are the regions granted to the clients of the pool.\<close>

definition pool_inv :: "nat \<Rightarrow> region list \<Rightarrow> 'h ngx_pool \<Rightarrow> sys_heap \<Rightarrow> region list \<Rightarrow> bool" where
  "pool_inv psize others pool s gs \<longleftrightarrow>
     (\<exists>lrs. pool_core psize others pool s (gs @ pool_nodes pool) lrs \<and> (\<forall>g\<in>set (pool_nodes pool). placed (pool_blocks pool) g) \<and>
       mset (large_blocks (pool_large pool)) = mset (map fst lrs) \<and> set lrs \<subseteq> set gs)"

definition served :: "nat \<Rightarrow> region list \<Rightarrow> 'h ngx_pool \<Rightarrow> region list \<Rightarrow> nat \<Rightarrow> c_ptr option \<Rightarrow> 'h ngx_pool \<Rightarrow> sys_heap \<Rightarrow> bool" where
  "served psize others pool gs n r pool' s' \<longleftrightarrow> pool_cleanup pool' = pool_cleanup pool \<and>
     (\<forall>g. placed (pool_blocks pool) g \<longrightarrow> placed (pool_blocks pool') g) \<and>
     pool_inv psize others pool' s' (case r of None \<Rightarrow> gs | Some m \<Rightarrow> (m, n) # gs)"

lemma large_blocks_simps [simp]:
  "large_blocks [] = []"
  "large_blocks (l # ls) = (case large_alloc l of None \<Rightarrow> large_blocks ls | Some p \<Rightarrow> p # large_blocks ls)"
  by (simp_all add: large_blocks_def map_filter_simps split: option.split)

lemma small_served:
  assumes inv: "pool_inv psize others pool s gs" and sys: "alloc_contract sys" and n: "0 < n" "n \<le> pool_max pool"
    and r: "palloc_small align sys pool n s = (res, pool', s')"
  shows "served psize others pool gs n res pool' s'"
proof -
  obtain lrs where lrs: "pool_core psize others pool s (gs @ pool_nodes pool) lrs" "\<forall>g\<in>set (pool_nodes pool). placed (pool_blocks pool) g"
    "mset (large_blocks (pool_large pool)) = mset (map fst lrs)" "set lrs \<subseteq> set gs"
    using inv by (auto simp: pool_inv_def)
  have g: "grants psize others pool (gs @ pool_nodes pool) lrs n res pool' s'" by (rule palloc_small_grants(1) [OF lrs(1) sys n r])
  then have k: "pool_nodes pool' = pool_nodes pool" "pool_large pool' = pool_large pool" "pool_cleanup pool' = pool_cleanup pool"
    "\<forall>g\<in>set (pool_nodes pool). placed (pool_blocks pool') g" "\<forall>g. placed (pool_blocks pool) g \<longrightarrow> placed (pool_blocks pool') g"
    using lrs(2) by (auto simp: grants_def pool_keeps_def pool_nodes_def)
  then show ?thesis
    using g lrs(3,4) by (cases res) (auto simp: grants_def served_def pool_inv_def intro!: exI [of _ lrs])
qed

lemma nodes_cong: "map large_node ls = map large_node ls' \<Longrightarrow> map (\<lambda>l. (large_node l, n)) ls = map (\<lambda>l. (large_node l, n)) ls'"
  by (drule arg_cong [of _ _ "map (\<lambda>a. (a, n))"]) (simp add: comp_def)

lemma large_slot_blocks:
  "large_slot k p ls = Some ls' \<Longrightarrow> map large_node ls' = map large_node ls \<and> mset (large_blocks ls') = mset (p # large_blocks ls)"
  by (induction k p ls arbitrary: ls' rule: large_slot.induct) (auto split: if_splits option.splits)

lemma large_node_served:
  assumes inv: "pool_inv psize others pool s gs" and sys: "alloc_contract sys" and n: "0 < n"
    and m: "ngx_memalign sys al n s = (Some p, s1)"
  shows "\<exists>res pool' s2 r2. palloc_small True sys pool 16 s1 = (res, pool', s2) \<and>
    (case res of None \<Rightarrow> bindr (ngx_free p s2) (\<lambda>s3. Inr (None, pool', s3))
     | Some l \<Rightarrow> Inr (Some p, pool'\<lparr>pool_large := \<lparr>large_node = l, large_alloc = Some p\<rparr> # pool_large pool'\<rparr>, s2)) = Inr r2 \<and>
    served psize others pool gs n (fst r2) (fst (snd r2)) (snd (snd r2))"
proof -
  obtain lrs where lrs: "pool_core psize others pool s (gs @ pool_nodes pool) lrs" "\<forall>g\<in>set (pool_nodes pool). placed (pool_blocks pool) g"
    "mset (large_blocks (pool_large pool)) = mset (map fst lrs)" "set lrs \<subseteq> set gs"
    using inv by (auto simp: pool_inv_def)
  have "core_inv psize others (pool_blocks pool) s1 ((p, n) # gs @ pool_nodes pool) ((p, n) # lrs)"
    using core_new_region [OF _ sys m n] lrs(1) by (simp add: pool_core_def)
  then have core: "pool_core psize others pool s1 ((p, n) # gs @ pool_nodes pool) ((p, n) # lrs)" "16 \<le> pool_max pool"
    using lrs(1) by (simp_all add: pool_core_def)
  obtain res pool' s2 where r: "palloc_small True sys pool 16 s1 = (res, pool', s2)" by (metis prod_cases3)
  have g: "grants psize others pool ((p, n) # gs @ pool_nodes pool) ((p, n) # lrs) 16 res pool' s2"
    by (rule palloc_small_grants(1) [OF core(1) sys _ core(2) r]) simp
  then have k: "pool_nodes pool' = pool_nodes pool" "pool_large pool' = pool_large pool" "pool_cleanup pool' = pool_cleanup pool"
    "\<forall>g\<in>set (pool_nodes pool). placed (pool_blocks pool') g" "\<forall>g. placed (pool_blocks pool) g \<longrightarrow> placed (pool_blocks pool') g"
    using lrs(2) by (auto simp: grants_def pool_keeps_def pool_nodes_def)
  show ?thesis
  proof (cases res)
    case None
    then have "pool_core psize others pool' s2 ((p, n) # gs @ pool_nodes pool) ((p, n) # lrs)" using g by (simp add: grants_def)
    then obtain s3 where "ngx_free p s2 = Inr s3" "pool_core psize others pool' s3 (gs @ pool_nodes pool) lrs"
      using core_free_region [of psize others "pool_blocks pool'" s2 "(p, n) # gs @ pool_nodes pool" "(p, n) # lrs" p n]
      by (auto simp: pool_core_def)
    then show ?thesis using r None k lrs(3,4) by (auto simp: served_def pool_inv_def intro!: exI [of _ lrs])
  next
    case (Some l)
    let ?pool = "pool'\<lparr>pool_large := \<lparr>large_node = l, large_alloc = Some p\<rparr> # pool_large pool'\<rparr>"
    have l: "pool_core psize others pool' s2 ((l, 16) # (p, n) # gs @ pool_nodes pool) ((p, n) # lrs)" "placed (pool_blocks pool') (l, 16)"
      using g Some by (simp_all add: grants_def)
    have nodes: "pool_nodes ?pool = (l, 16) # pool_nodes pool" using k by (simp add: pool_nodes_def)
    have "core_inv psize others (pool_blocks ?pool) s2 (((p, n) # gs) @ pool_nodes ?pool) ((p, n) # lrs)"
      by (rule core_perm [of _ _ _ _ "(l, 16) # (p, n) # gs @ pool_nodes pool" "(p, n) # lrs"]) (use l(1) nodes in \<open>simp_all add: pool_core_def\<close>)
    then have "pool_core psize others ?pool s2 (((p, n) # gs) @ pool_nodes ?pool) ((p, n) # lrs)"
      using l(1) by (simp add: pool_core_def)
    then have "pool_inv psize others ?pool s2 ((p, n) # gs)"
      unfolding pool_inv_def using nodes k l(2) lrs(3,4) by (intro exI [of _ "(p, n) # lrs"]) auto
    then show ?thesis using r Some k by (auto simp: served_def)
  qed
qed

text \<open>
  With at least the size of a node below \<open>max\<close>, one unit of fuel is enough: the node of a large block is small.
\<close>

lemma pool_inv_max: "pool_inv psize others pool s gs \<Longrightarrow> 24 \<le> pool_max pool"
  by (auto simp: pool_inv_def pool_core_def)

lemma pool_inv_live: "sys_live s' = sys_live s \<Longrightarrow> pool_inv psize others pool s' gs = pool_inv psize others pool s gs"
  using pool_core_live [of s' s psize others pool] by (simp add: pool_inv_def)

lemma palloc_small_eq: "n \<le> pool_max pool \<Longrightarrow> ngx_palloc f sys pool n s = Inr (palloc_small True sys pool n s)"
  by (cases f) simp_all

lemma large_served:
  assumes inv: "pool_inv psize others pool s gs" and sys: "alloc_contract sys" and n: "0 < n"
  shows "\<exists>r pool' s'. ngx_palloc_large (Suc f) sys pool n s = Inr (r, pool', s') \<and> served psize others pool gs n r pool' s'"
proof -
  obtain r s1 where m: "ngx_memalign sys 16 n s = (r, s1)" by fastforce
  show ?thesis
  proof (cases r)
    case None
    then show ?thesis using m inv pool_inv_live [OF memalign_None, of sys 16 n s s1 psize others pool] by (simp add: ngx_alloc_def served_def)
  next
    case (Some p)
    show ?thesis
    proof (cases "large_slot 0 p (pool_large pool)")
      case None
      from large_node_served [OF inv sys n m [unfolded Some]] obtain res pool' s2 r2 where
        x: "palloc_small True sys pool 16 s1 = (res, pool', s2)"
        "(case res of None \<Rightarrow> bindr (ngx_free p s2) (\<lambda>s3. Inr (None, pool', s3))
           | Some l \<Rightarrow> Inr (Some p, pool'\<lparr>pool_large := \<lparr>large_node = l, large_alloc = Some p\<rparr> # pool_large pool'\<rparr>, s2)) = Inr r2"
        "served psize others pool gs n (fst r2) (fst (snd r2)) (snd (snd r2))" by blast
      then have "ngx_palloc_large (Suc f) sys pool n s = Inr r2"
        using None Some m pool_inv_max [OF inv] by (simp add: ngx_alloc_def palloc_small_eq)
      then show ?thesis using x(3) by (cases r2) auto
    next
      case slot: (Some ls)
      obtain lrs where lrs: "pool_core psize others pool s (gs @ pool_nodes pool) lrs" "\<forall>g\<in>set (pool_nodes pool). placed (pool_blocks pool) g"
        "mset (large_blocks (pool_large pool)) = mset (map fst lrs)" "set lrs \<subseteq> set gs"
        using inv by (auto simp: pool_inv_def)
      let ?pool = "pool\<lparr>pool_large := ls\<rparr>"
      note ls = large_slot_blocks [OF slot]
      then have nodes: "pool_nodes ?pool = pool_nodes pool" using nodes_cong [of ls "pool_large pool"] by (simp add: pool_nodes_def)
      have "core_inv psize others (pool_blocks pool) s1 ((p, n) # gs @ pool_nodes pool) ((p, n) # lrs)"
        using core_new_region [OF _ sys m [unfolded Some] n] lrs(1) by (simp add: pool_core_def)
      then have "pool_inv psize others ?pool s1 ((p, n) # gs)"
        unfolding pool_inv_def using nodes lrs ls by (intro exI [of _ "(p, n) # lrs"]) (auto simp: pool_core_def)
      then show ?thesis using m Some slot by (simp add: ngx_alloc_def served_def)
    qed
  qed
qed

lemma palloc_served:
  assumes "pool_inv psize others pool s gs" "alloc_contract sys" "0 < n"
  shows "\<exists>r pool' s'. ngx_palloc (Suc f) sys pool n s = Inr (r, pool', s') \<and> served psize others pool gs n r pool' s'"
  using small_served [OF assms] large_served [OF assms, of f]
  by (cases "n \<le> pool_max pool"; cases "palloc_small True sys pool n s") auto

lemma pnalloc_served:
  assumes "pool_inv psize others pool s gs" "alloc_contract sys" "0 < n"
  shows "\<exists>r pool' s'. ngx_pnalloc (Suc f) sys pool n s = Inr (r, pool', s') \<and> served psize others pool gs n r pool' s'"
  using small_served [OF assms] large_served [OF assms, of f]
  by (cases "n \<le> pool_max pool"; cases "palloc_small False sys pool n s") (auto simp: ngx_pnalloc_def)

lemma pcalloc_served:
  assumes "pool_inv psize others pool s gs" "alloc_contract sys" "0 < n"
  shows "\<exists>r pool' s'. ngx_pcalloc (Suc f) sys pool n s = Inr (r, pool', s') \<and> served psize others pool gs n r pool' s'"
proof -
  obtain r pool' s' where p: "ngx_palloc (Suc f) sys pool n s = Inr (r, pool', s')" "served psize others pool gs n r pool' s'"
    using palloc_served [OF assms] by blast
  show ?thesis
  proof (cases r)
    case (Some m)
    have "pool_inv psize others pool' (ngx_memzero m n s') ((m, n) # gs)"
      using p(2) Some pool_inv_live [of "ngx_memzero m n s'" s' psize others pool'] by (simp add: served_def ngx_memzero_def)
    then show ?thesis using p Some by (simp add: ngx_pcalloc_def served_def)
  qed (use p in \<open>simp add: ngx_pcalloc_def\<close>)
qed

lemma pmemalign_served:
  assumes inv: "pool_inv psize others pool s gs" and sys: "alloc_contract sys" and n: "0 < n"
  shows "\<exists>r pool' s'. ngx_pmemalign f sys pool n al s = Inr (r, pool', s') \<and> served psize others pool gs n r pool' s'"
proof -
  obtain r s1 where m: "ngx_memalign sys al n s = (r, s1)" by fastforce
  show ?thesis
  proof (cases r)
    case None
    then show ?thesis using m inv pool_inv_live [OF memalign_None, of sys al n s s1 psize others pool] by (simp add: ngx_pmemalign_def served_def)
  next
    case (Some p)
    from large_node_served [OF inv sys n m [unfolded Some]] obtain res pool' s2 r2 where
      x: "palloc_small True sys pool 16 s1 = (res, pool', s2)"
      "(case res of None \<Rightarrow> bindr (ngx_free p s2) (\<lambda>s3. Inr (None, pool', s3))
         | Some l \<Rightarrow> Inr (Some p, pool'\<lparr>pool_large := \<lparr>large_node = l, large_alloc = Some p\<rparr> # pool_large pool'\<rparr>, s2)) = Inr r2"
      "served psize others pool gs n (fst r2) (fst (snd r2)) (snd (snd r2))" by blast
    then have "ngx_pmemalign f sys pool n al s = Inr r2"
      using Some m pool_inv_max [OF inv] by (simp add: ngx_pmemalign_def palloc_small_eq)
    then show ?thesis using x(3) by (cases r2) auto
  qed
qed

text \<open>Freeing.\<close>

lemma pool_invE:
  assumes "pool_inv psize others pool s gs"
  obtains lrs where "core_inv psize others (pool_blocks pool) s (gs @ pool_nodes pool) lrs"
    "pool_core psize others pool s (gs @ pool_nodes pool) lrs" "\<forall>g\<in>set (pool_nodes pool). placed (pool_blocks pool) g"
    "mset (large_blocks (pool_large pool)) = mset (map fst lrs)" "set lrs \<subseteq> set gs"
  using assms by (auto simp: pool_inv_def pool_core_def)

lemma region_not_placed:
  assumes inv: "core_inv psize others bl s us lrs" and g: "g \<in> set lrs" "0 < snd g"
  shows "\<not> placed bl g"
proof
  assume "placed bl g"
  then obtain i where "i < length bl" "inside g (block_region (bl ! i))" using placed_inside [OF inv] by blast
  then have "apart g g" using apart_inside [OF core_block_apart(2) [OF inv _ g(1)], of i g g] by (simp add: inside_def)
  then show False using g(2) by (simp add: apart_def)
qed

text \<open>A block that is given back is the only granted region that starts where it starts.\<close>

lemma filter_base:
  assumes "all_apart gs" "\<forall>g\<in>set gs. 0 < snd g" "(p, n) \<in> set gs"
  shows "filter (\<lambda>g. fst g \<noteq> p) gs = remove1 (p, n) gs"
proof -
  have only: "g = (p, n)" if g: "g \<in> set gs" "fst g = p" for g
  proof (rule ccontr)
    assume "g \<noteq> (p, n)"
    then have "apart g (p, n)" using assms(1,3) g(1) unfolding all_apart_def by blast
    moreover have "0 < snd g" "0 < n" using assms(2) bspec [OF assms(2,3)] g(1) by simp_all
    ultimately show False using g(2) by (simp add: apart_def)
  qed
  have "fst g \<noteq> p \<longleftrightarrow> (p, n) \<noteq> g" if "g \<in> set gs" for g using only [OF that] by (cases g) auto
  then have "filter (\<lambda>g. fst g \<noteq> p) gs = filter (\<lambda>g. (p, n) \<noteq> g) gs" by (rule filter_cong [OF refl])
  then show ?thesis using assms(1) by (simp add: all_apart_def distinct_remove1_removeAll removeAll_filter_not_eq)
qed

lemma pfree_scan_blocks:
  "pfree_scan p ls s =
     (if p \<in> set (large_blocks ls) then
        bindr (ngx_free p s) (\<lambda>s'. Inr (True, (let (as, bs) = (takeWhile (\<lambda>l. large_alloc l \<noteq> Some p) ls, dropWhile (\<lambda>l. large_alloc l \<noteq> Some p) ls)
          in as @ (hd bs)\<lparr>large_alloc := None\<rparr> # tl bs), s'))
      else Inr (False, ls, s))"
  by (induction p ls s rule: pfree_scan.induct) (auto simp: bindr_def split: option.splits sum.splits)

lemma pfree_nodes:
  assumes "p \<in> set (large_blocks ls)"
  defines "ls' \<equiv> (let (as, bs) = (takeWhile (\<lambda>l. large_alloc l \<noteq> Some p) ls, dropWhile (\<lambda>l. large_alloc l \<noteq> Some p) ls)
          in as @ (hd bs)\<lparr>large_alloc := None\<rparr> # tl bs)"
  shows "map large_node ls' = map large_node ls" "mset (large_blocks ls') = mset (large_blocks ls) - {#p#}"
  using assms(1) unfolding ls'_def by (induction ls) (auto split: option.splits)

lemma pfree_inv:
  assumes inv: "pool_inv psize others pool s gs"
  shows "\<exists>rc pool' s'. ngx_pfree pool p s = Inr (rc, pool', s') \<and> pool_cleanup pool' = pool_cleanup pool \<and>
    pool_inv psize others pool' s' (if rc then filter (\<lambda>g. fst g \<noteq> p) gs else gs)"
proof -
  obtain lrs where core: "core_inv psize others (pool_blocks pool) s (gs @ pool_nodes pool) lrs"
    "pool_core psize others pool s (gs @ pool_nodes pool) lrs" "\<forall>g\<in>set (pool_nodes pool). placed (pool_blocks pool) g"
    "mset (large_blocks (pool_large pool)) = mset (map fst lrs)" "set lrs \<subseteq> set gs" using inv by (rule pool_invE)
  show ?thesis
  proof (cases "p \<in> set (large_blocks (pool_large pool))")
    case False
    then show ?thesis using inv by (intro exI [of _ False]) (simp add: ngx_pfree_def pfree_scan_blocks)
  next
    case True
    then have "p \<in> set (map fst lrs)" using mset_eq_setD [OF core(4)] by simp
    then obtain n where n: "(p, n) \<in> set lrs" by auto
    obtain s' where s': "ngx_free p s = Inr s'"
      "core_inv psize others (pool_blocks pool) s' (remove1 (p, n) (gs @ pool_nodes pool)) (remove1 (p, n) lrs)"
      using core_free_region [OF core(1) n] by blast
    obtain ls where ls: "pfree_scan p (pool_large pool) s = Inr (True, ls, s')" "map large_node ls = map large_node (pool_large pool)"
      "mset (large_blocks ls) = mset (large_blocks (pool_large pool)) - {#p#}"
      using pfree_nodes [OF True] True s'(1) by (simp add: pfree_scan_blocks)
    have gs: "all_apart gs" "\<forall>g\<in>set gs. 0 < snd g"
      using core_invD(8,9) [OF core(1)] by (auto simp: all_apart_def)
    have f: "filter (\<lambda>g. fst g \<noteq> p) gs = remove1 (p, n) gs" using filter_base [OF gs] core(5) n by blast
    have nodes: "pool_nodes (pool\<lparr>pool_large := ls\<rparr>) = pool_nodes pool" using nodes_cong [OF ls(2)] by (simp add: pool_nodes_def)
    have "remove1 (p, n) (gs @ pool_nodes pool) = remove1 (p, n) gs @ pool_nodes pool" using core(5) n by (auto simp: remove1_append)
    moreover have "set (remove1 (p, n) lrs) \<subseteq> set (remove1 (p, n) gs)"
      using core_regions_apart [OF core(1)] gs(1) core(5) by (auto simp: all_apart_def set_remove1_eq)
    moreover have "mset (large_blocks ls) = mset (map fst (remove1 (p, n) lrs))"
      using ls(3) core(4) n by (simp add: image_mset_Diff)
    ultimately have "pool_inv psize others (pool\<lparr>pool_large := ls\<rparr>) s' (filter (\<lambda>g. fst g \<noteq> p) gs)"
      unfolding pool_inv_def using s'(2) core(2,3) nodes f
      by (intro exI [of _ "remove1 (p, n) lrs"]) (auto simp: pool_core_def)
    then show ?thesis using ls(1) by (intro exI [of _ True]) (simp add: ngx_pfree_def)
  qed
qed

lemma core_drop_all: "core_inv psize others bl s us lrs \<Longrightarrow> core_inv psize others bl s [] lrs"
  by (simp add: core_inv_def)

lemma free_larges_core:
  assumes "core_inv psize others bl s [] lrs" "mset (large_blocks ls) = mset (map fst lrs)"
  shows "\<exists>s'. free_larges ls s = Inr s' \<and> core_inv psize others bl s' [] []"
  using assms
proof (induction ls arbitrary: s lrs)
  case (Cons l ls)
  show ?case
  proof (cases "large_alloc l")
    case None
    then show ?thesis using Cons by simp
  next
    case (Some p)
    then have "p \<in> set (map fst lrs)" using mset_eq_setD [OF Cons.prems(2)] by auto
    then obtain n where n: "(p, n) \<in> set lrs" by auto
    then obtain s' where s': "ngx_free p s = Inr s'" "core_inv psize others bl s' [] (remove1 (p, n) lrs)"
      using core_free_region [OF Cons.prems(1) n] by auto
    have "mset (large_blocks ls) = mset (map fst (remove1 (p, n) lrs))"
      using Cons.prems(2) Some n by (simp add: image_mset_Diff) (metis add_mset_remove_trivial)
    from Cons.IH [OF s'(2) this] show ?thesis using Some s'(1) by simp
  qed
qed (auto intro: core_perm)

lemma free_blocks_all:
  assumes "heap_ok s" "mset (sys_live s) = M + mset (map block_region bl)"
  shows "\<exists>s'. free_blocks bl s = Inr s' \<and> heap_ok s' \<and> mset (sys_live s') = M"
  using assms
proof (induction bl arbitrary: s)
  case (Cons b bl)
  have "block_region b \<in> set (sys_live s)" using arg_cong [OF Cons.prems(2), of set_mset] by simp
  then obtain s' where s': "ngx_free (d_start b) s = Inr s'" "heap_ok s'" "sys_live s' = remove1 (block_region b) (sys_live s)"
    using free_live [OF Cons.prems(1), of "d_start b"] by (auto simp: block_region_def)
  then have "mset (sys_live s') = M + mset (map block_region bl)" using Cons.prems(2) by simp
  from Cons.IH [OF s'(2) this] show ?case using s'(1) by simp
qed simp

lemma reset_inv:
  assumes inv: "pool_inv psize others pool s gs" and c: "pool_cleanup pool = []"
  shows "\<exists>pool' s'. ngx_reset_pool pool s = Inr (pool', s') \<and> pool_cleanup pool' = [] \<and> pool_inv psize others pool' s' []"
proof -
  obtain lrs where core: "core_inv psize others (pool_blocks pool) s (gs @ pool_nodes pool) lrs"
    "pool_core psize others pool s (gs @ pool_nodes pool) lrs" "mset (large_blocks (pool_large pool)) = mset (map fst lrs)"
    using inv by (rule pool_invE)
  obtain s' where s': "free_larges (pool_large pool) s = Inr s'" "core_inv psize others (pool_blocks pool) s' [] []"
    using free_larges_core [OF core_drop_all [OF core(1)] core(3)] by blast
  let ?bl = "map (\<lambda>p. p\<lparr>d_last := d_start p + 80\<rparr>) (pool_blocks pool)"
  have "block_ok psize (header_size i) (?bl ! i)" if "i < length (pool_blocks pool)" for i
    using core_invD(5) [OF s'(2) that] core_invD(3) [OF s'(2)] that by (auto simp: block_ok_def header_size_def)
  moreover have "mset (map block_region ?bl) = mset (map block_region (pool_blocks pool))" by (simp add: block_region_def [abs_def] comp_def del: mset_map)
  ultimately have "core_inv psize others ?bl s' [] []" using s'(2) unfolding core_inv_def by (simp del: mset_map)
  then have "pool_inv psize others (pool\<lparr>pool_large := [], pool_blocks := ?bl\<rparr>) s' []"
    using core(2) c by (simp add: pool_inv_def pool_nodes_def pool_core_def)
  then show ?thesis using s'(1) c by (simp add: ngx_reset_pool_def)
qed

lemma destroy_inv:
  assumes inv: "pool_inv psize others pool s gs"
  shows "\<exists>s'. ngx_destroy_pool pool s = Inr (run_cleanups (pool_cleanup pool), s') \<and> mset (sys_live s') = mset others"
proof -
  obtain lrs where core: "core_inv psize others (pool_blocks pool) s (gs @ pool_nodes pool) lrs"
    "mset (large_blocks (pool_large pool)) = mset (map fst lrs)" using inv by (rule pool_invE)
  obtain s1 where s1: "free_larges (pool_large pool) s = Inr s1" "core_inv psize others (pool_blocks pool) s1 [] []"
    using free_larges_core [OF core_drop_all [OF core(1)] core(2)] by blast
  obtain s' where "free_blocks (pool_blocks pool) s1 = Inr s'" "mset (sys_live s') = mset others"
    using free_blocks_all [of s1 "mset others" "pool_blocks pool"] core_invD(6,7) [OF s1(2)] by auto
  then show ?thesis using s1(1) by (simp add: ngx_destroy_pool_def)
qed

lemma create_inv:
  assumes sys: "alloc_contract sys" and heap: "heap_ok s" and psize: "8 dvd psize" "psize < 2 ^ 64" "104 \<le> psize" "25 \<le> pagesize"
    and r: "ngx_create_pool sys pagesize psize s = (Some pool, s')"
  shows "pool_inv psize (sys_live s) pool s' []" "pool_cleanup pool = []"
proof -
  obtain a where m: "ngx_memalign sys 16 psize s = (Some a, s')"
    and pool: "pool = \<lparr>pool_blocks = [\<lparr>d_start = a, d_last = a + 80, d_end = a + psize, d_failed = 0\<rparr>],
      pool_max = (if psize - 80 < pagesize - 1 then psize - 80 else pagesize - 1), pool_current = 0, pool_large = [], pool_cleanup = []\<rparr>"
    using r psize size_t_sub_exact [of 80 psize] by (auto simp: ngx_create_pool_def Let_def split: prod.splits option.splits)
  note new = memalign_Some [OF sys heap m]
  have "core_inv psize (sys_live s) (pool_blocks pool) s' [] []"
    using psize new by (simp add: core_inv_def pool block_ok_def header_size_def block_region_def)
  then show "pool_inv psize (sys_live s) pool s' []" "pool_cleanup pool = []"
    using psize by (auto simp: pool_inv_def pool_core_def pool pool_nodes_def)
qed

text \<open>A region granted in a block becomes a node of the pool.\<close>

lemma grant_to_cleanup:
  assumes inv: "pool_inv psize others pool s gs" and gs: "mset gs = add_mset (a, 24) (mset hs)" and a: "placed (pool_blocks pool) (a, 24)"
  shows "pool_inv psize others (pool\<lparr>pool_cleanup := \<lparr>cleanup_node = a, cleanup_handler = None, cleanup_data = d\<rparr> # pool_cleanup pool\<rparr>) s hs"
    (is "pool_inv _ _ ?pool _ _")
proof -
  obtain lrs where core: "core_inv psize others (pool_blocks pool) s (gs @ pool_nodes pool) lrs"
    "pool_core psize others pool s (gs @ pool_nodes pool) lrs" "\<forall>g\<in>set (pool_nodes pool). placed (pool_blocks pool) g"
    "mset (large_blocks (pool_large pool)) = mset (map fst lrs)" "set lrs \<subseteq> set gs"
    using inv by (rule pool_invE)
  have "set gs = insert (a, 24) (set hs)" using arg_cong [OF gs, of set_mset] by simp
  moreover have "(a, 24) \<notin> set lrs" using region_not_placed [OF core(1), of "(a, 24)"] a by auto
  ultimately have "set lrs \<subseteq> set hs" using core(5) by auto
  moreover have "core_inv psize others (pool_blocks pool) s (hs @ pool_nodes ?pool) lrs"
    by (rule core_perm [OF core(1)]) (simp_all add: gs pool_nodes_def)
  ultimately show ?thesis
    unfolding pool_inv_def using core(2-4) a by (intro exI [of _ lrs]) (auto simp: pool_core_def pool_nodes_def)
qed

lemma pool_inv_drop: "pool_inv psize others pool s (g # gs) \<Longrightarrow> placed (pool_blocks pool) g \<Longrightarrow> pool_inv psize others pool s gs"
proof -
  assume inv: "pool_inv psize others pool s (g # gs)" and g: "placed (pool_blocks pool) g"
  obtain lrs where core: "core_inv psize others (pool_blocks pool) s ((g # gs) @ pool_nodes pool) lrs"
    "pool_core psize others pool s ((g # gs) @ pool_nodes pool) lrs" "\<forall>g\<in>set (pool_nodes pool). placed (pool_blocks pool) g"
    "mset (large_blocks (pool_large pool)) = mset (map fst lrs)" "set lrs \<subseteq> set (g # gs)"
    using inv by (rule pool_invE)
  have "g \<notin> set lrs" using region_not_placed [OF core(1), of g] core_invD(9) [OF core(1), of g] g by auto
  then show ?thesis
    unfolding pool_inv_def using core core_drop [of psize others "pool_blocks pool" s g "gs @ pool_nodes pool" lrs]
    by (intro exI [of _ lrs]) (auto simp: pool_core_def)
qed

lemma cleanup_add_inv:
  assumes inv: "pool_inv psize others pool s gs" and sys: "alloc_contract sys"
  shows "\<exists>c pool' s'. ngx_pool_cleanup_add (Suc f) sys pool n s = Inr (c, pool', s') \<and>
    pool_inv psize others pool' s' (case c of None \<Rightarrow> gs | Some cl \<Rightarrow> (case cleanup_data cl of None \<Rightarrow> gs | Some d \<Rightarrow> (d, n) # gs))"
proof -
  obtain r pool1 s1 where r: "palloc_small True sys pool 24 s = (r, pool1, s1)" by (metis prod_cases3)
  note mx = pool_inv_max [OF inv]
  note srv = small_served [OF inv sys _ mx r]
  show ?thesis
  proof (cases r)
    case None
    then show ?thesis using r srv mx by (simp add: ngx_pool_cleanup_add_def palloc_small_eq served_def)
  next
    case (Some a)
    have inv1: "pool_inv psize others pool1 s1 ((a, 24) # gs)" using srv Some by (simp add: served_def)
    have pl: "placed (pool_blocks pool1) (a, 24)"
      using inv palloc_small_grants(1) [OF _ sys _ mx r] Some by (auto simp: pool_inv_def grants_def)
    show ?thesis
    proof (cases "n = 0")
      case True
      then show ?thesis using r Some mx grant_to_cleanup [OF inv1 _ pl, of gs None] by (simp add: ngx_pool_cleanup_add_def palloc_small_eq Let_def)
    next
      case False
      obtain r2 pool2 s2 where p2: "ngx_palloc (Suc f) sys pool1 n s1 = Inr (r2, pool2, s2)" "served psize others pool1 ((a, 24) # gs) n r2 pool2 s2"
        using palloc_served [OF inv1 sys] False by blast
      then have pl2: "placed (pool_blocks pool2) (a, 24)" using pl by (simp add: served_def)
      show ?thesis
      proof (cases r2)
        case None
        then have "pool_inv psize others pool2 s2 gs" using p2(2) pool_inv_drop pl2 by (auto simp: served_def)
        then show ?thesis using r Some None False mx p2(1) by (simp add: ngx_pool_cleanup_add_def palloc_small_eq del: ngx_palloc.simps)
      next
        case (Some d)
        then have "pool_inv psize others pool2 s2 ((d, n) # (a, 24) # gs)" using p2(2) by (simp add: served_def)
        from grant_to_cleanup [OF this _ pl2, of "(d, n) # gs"] show ?thesis
          using r \<open>r = Some a\<close> Some False mx p2(1) by (simp add: ngx_pool_cleanup_add_def palloc_small_eq Let_def del: ngx_palloc.simps)
      qed
    qed
  qed
qed

section \<open>Histories of calls\<close>

datatype pool_op = Palloc nat | Pnalloc nat | Pcalloc nat | Pmemalign nat nat | Pfree c_ptr | Cleanup_add nat | Reset

type_synonym 'h pool_state = "'h ngx_pool \<times> sys_heap \<times> region list"

definition grant :: "nat \<Rightarrow> region list \<Rightarrow> (c_ptr option \<times> 'h ngx_pool \<times> sys_heap) c_result \<Rightarrow> 'h pool_state c_result" where
  "grant n gs r = bindr r (\<lambda>(p, pool, s). Inr (pool, s, case p of None \<Rightarrow> gs | Some m \<Rightarrow> (m, n) # gs))"

fun pool_exec :: "sys_alloc \<Rightarrow> pool_op \<Rightarrow> 'h pool_state \<Rightarrow> 'h pool_state c_result" where
  "pool_exec sys (Palloc n) (pool, s, gs) = grant n gs (ngx_palloc 1 sys pool n s)"
| "pool_exec sys (Pnalloc n) (pool, s, gs) = grant n gs (ngx_pnalloc 1 sys pool n s)"
| "pool_exec sys (Pcalloc n) (pool, s, gs) = grant n gs (ngx_pcalloc 1 sys pool n s)"
| "pool_exec sys (Pmemalign n al) (pool, s, gs) = grant n gs (ngx_pmemalign 1 sys pool n al s)"
| "pool_exec sys (Pfree p) (pool, s, gs) =
     bindr (ngx_pfree pool p s) (\<lambda>(rc, pool', s'). Inr (pool', s', if rc then filter (\<lambda>g. fst g \<noteq> p) gs else gs))"
| "pool_exec sys (Cleanup_add n) (pool, s, gs) =
     bindr (ngx_pool_cleanup_add 1 sys pool n s) (\<lambda>(c, pool', s'). Inr (pool', s',
       case c of None \<Rightarrow> gs | Some cl \<Rightarrow> (case cleanup_data cl of None \<Rightarrow> gs | Some d \<Rightarrow> (d, n) # gs)))"
| "pool_exec sys Reset (pool, s, gs) = bindr (ngx_reset_pool pool s) (\<lambda>(pool', s'). Inr (pool', s', []))"

text \<open>Sizes are positive, and a pool with cleanups is not reset.\<close>

fun op_ok :: "pool_op \<Rightarrow> 'h pool_state \<Rightarrow> bool" where
  "op_ok (Palloc n) st \<longleftrightarrow> 0 < n"
| "op_ok (Pnalloc n) st \<longleftrightarrow> 0 < n"
| "op_ok (Pcalloc n) st \<longleftrightarrow> 0 < n"
| "op_ok (Pmemalign n al) st \<longleftrightarrow> 0 < n"
| "op_ok (Pfree p) st \<longleftrightarrow> True"
| "op_ok (Cleanup_add n) st \<longleftrightarrow> True"
| "op_ok Reset (pool, s, gs) \<longleftrightarrow> pool_cleanup pool = []"

inductive pool_reach :: "sys_alloc \<Rightarrow> 'h pool_state \<Rightarrow> 'h pool_state \<Rightarrow> bool" for sys st0 where
  pool_start: "pool_reach sys st0 st0"
| pool_call: "pool_reach sys st0 st \<Longrightarrow> op_ok op st \<Longrightarrow> pool_exec sys op st = Inr st' \<Longrightarrow> pool_reach sys st0 st'"

lemma grant_served:
  "\<exists>r pool' s'. m = Inr (r, pool', s') \<and> served psize others pool gs n r pool' s' \<Longrightarrow>
     \<exists>pool' s' gs'. grant n gs m = Inr (pool', s', gs') \<and> pool_inv psize others pool' s' gs'"
  by (auto simp: grant_def served_def)

lemma pool_exec_inv:
  assumes "pool_inv psize others pool s gs" "alloc_contract sys" "op_ok op (pool, s, gs)"
  shows "\<exists>pool' s' gs'. pool_exec sys op (pool, s, gs) = Inr (pool', s', gs') \<and> pool_inv psize others pool' s' gs'"
proof (cases op)
  case (Palloc n)
  then show ?thesis using grant_served [OF palloc_served [OF assms(1,2)], of n 0] assms(3) by simp
next
  case (Pnalloc n)
  then show ?thesis using grant_served [OF pnalloc_served [OF assms(1,2)], of n 0] assms(3) by simp
next
  case (Pcalloc n)
  then show ?thesis using grant_served [OF pcalloc_served [OF assms(1,2)], of n 0] assms(3) by simp
next
  case (Pmemalign n al)
  then show ?thesis using grant_served [OF pmemalign_served [OF assms(1,2)], of n 1 al] assms(3) by simp
next
  case (Pfree p)
  then show ?thesis using pfree_inv [OF assms(1), of p] by auto
next
  case (Cleanup_add n)
  then show ?thesis using cleanup_add_inv [OF assms(1,2), of 0 n] by auto
next
  case Reset
  then show ?thesis using reset_inv [OF assms(1)] assms(3) by auto
qed

lemma pool_reach_inv:
  assumes "pool_reach sys (pool0, s0, []) st" "alloc_contract sys" "pool_inv psize others pool0 s0 []"
  shows "pool_inv psize others (fst st) (fst (snd st)) (snd (snd st))"
  using assms(1)
proof (induction rule: pool_reach.induct)
  case pool_start
  then show ?case using assms(3) by simp
next
  case (pool_call st op st')
  then show ?case using pool_exec_inv [OF pool_call.IH assms(2), of op] by auto
qed

section \<open>Properties\<close>


text \<open>A system that takes fresh memory behind everything in use.\<close>

definition sys_top :: "region list \<Rightarrow> nat" where
  "sys_top live = foldr (\<lambda>(a, n) t. max (a + n + 1) t) live 4096"

definition sys_behind :: sys_alloc where
  "sys_behind k live al n = (if al = 0 then None else Some (ngx_align_ptr (sys_top live) al))"

definition empty_heap :: sys_heap where
  "empty_heap = \<lparr>sys_calls = 0, sys_live = [], sys_mem = (\<lambda>a. CHR ''x'')\<rparr>"

lemma sys_top_above: "(a, n) \<in> set live \<Longrightarrow> a + n < sys_top live"
  by (induction live) (auto simp: sys_top_def)

lemma sys_behind_contract: "alloc_contract sys_behind"
proof -
  have "p \<notin> fst ` set live \<and> (\<forall>g\<in>set live. apart (p, n) g)" if "0 < al" "p = ngx_align_ptr (sys_top live) al" for p live al n
    using align_ptr_ge [OF that(1), of "sys_top live"] that(2) sys_top_above by (fastforce simp: apart_def)
  then show ?thesis by (auto simp: alloc_contract_def sys_behind_def ngx_align_ptr_def split: if_splits)
qed


text \<open>
  The multiple of 8 is needed. In a pool of any other size an allocation without alignment of all that is
  left, then an aligned one, is granted memory behind the end of the block: the pointer is rounded up past
  \<open>d.end\<close>, and the difference, negative, is read as a size larger than any request.
\<close>

lemma size_t_sub_wraps: "x < y \<Longrightarrow> y - x \<le> 2 ^ 63 \<Longrightarrow> 2 ^ 63 \<le> size_t_sub x y"
proof -
  assume d: "x < y" "y - x \<le> 2 ^ 63"
  then have "(int x - int y) mod 2 ^ 64 = (int x - int y + 2 ^ 64) mod 2 ^ 64" by simp
  also have "\<dots> = int x - int y + 2 ^ 64" using d by (intro mod_pos_pos_trivial) simp_all
  finally show ?thesis using d by (simp add: size_t_sub_def)
qed

theorem palloc_overruns_odd_pool:
  assumes "\<not> 8 dvd psize" "80 < psize" "psize < 2 ^ 63" "psize < pagesize + 80" "8 \<le> psize - 80"
    and "alloc_contract sys" "sys_live s = []" "sys (sys_calls s) [] 16 psize = Some a"
  shows "\<exists>pool0 s0 pool s1 pool2 s2 m. ngx_create_pool sys pagesize psize s = (Some (pool0 :: 'h ngx_pool), s0) \<and>
     ngx_pnalloc 1 sys pool0 (psize - 80) s0 = Inr (Some (a + 80), pool, s1) \<and>
     ngx_palloc 1 sys pool 8 s1 = Inr (Some m, pool2, s2) \<and> sys_live s2 = [(a, psize)] \<and> a + psize < m"
proof -
  let ?m = "ngx_align_ptr (a + psize) 8"
  have "16 dvd a" using assms(6,8) by (auto simp: alloc_contract_def)
  then have "\<not> 8 dvd a + psize" using assms(1) dvd_trans [of 8 16 a] by (simp add: dvd_add_right_iff)
  then have m: "a + psize < ?m" "?m \<le> a + psize + 8" using align_ptr_8(1,2) [of "a + psize"]
    by (metis le_neq_implies_less, simp add: ngx_align_ptr_def)
  have sub: "8 \<le> size_t_sub (a + psize) ?m" using size_t_sub_wraps [OF m(1)] m(2) by (simp add: order_trans [of 8 "2 ^ 63"])
  have x: "size_t_sub psize 80 = psize - 80" "size_t_sub (a + psize) (a + 80) = psize - 80" using assms(2,3)
    by (simp_all add: size_t_sub_exact)
  let ?b = "\<lambda>l. \<lparr>d_start = a, d_last = l, d_end = a + psize, d_failed = 0\<rparr>"
  let ?p = "\<lambda>l. \<lparr>pool_blocks = [?b l], pool_max = psize - 80, pool_current = 0, pool_large = [], pool_cleanup = []\<rparr> :: 'h ngx_pool"
  let ?s = "s\<lparr>sys_calls := sys_calls s + 1, sys_live := [(a, psize)]\<rparr>"
  have "ngx_create_pool sys pagesize psize s = (Some (?p (a + 80)), ?s)"
    using assms(4,7,8) x(1) by (auto simp: ngx_create_pool_def ngx_memalign_def Let_def)
  moreover have "ngx_pnalloc 1 sys (?p (a + 80)) (psize - 80) ?s = Inr (Some (a + 80), ?p (a + psize), ?s)"
    using x(2) assms(2) by (simp add: ngx_pnalloc_def palloc_small_def)
  moreover have "ngx_palloc 1 sys (?p (a + psize)) 8 ?s = Inr (Some ?m, ?p (?m + 8), ?s)"
    using sub assms(5) by (simp add: palloc_small_def Let_def)
  ultimately show ?thesis using m(1) by (intro exI conjI) (assumption | simp)+
qed

theorem palloc_overruns_odd_pool_witness:
  "\<exists>pool0 s0 pool s1 pool2 s2 m. ngx_create_pool sys_behind 4096 108 empty_heap = (Some (pool0 :: unit ngx_pool), s0) \<and>
     ngx_pnalloc 1 sys_behind pool0 28 s0 = Inr (Some 4176, pool, s1) \<and>
     ngx_palloc 1 sys_behind pool 8 s1 = Inr (Some m, pool2, s2) \<and> sys_live s2 = [(4096, 108)] \<and> 4204 < m"
  using palloc_overruns_odd_pool [of 108 4096 sys_behind empty_heap 4096, OF _ _ _ _ _ sys_behind_contract]
  by (simp add: empty_heap_def sys_behind_def sys_top_def ngx_align_ptr_def)


definition tiny_pool :: "unit ngx_pool" where
  "tiny_pool = \<lparr>pool_blocks = [\<lparr>d_start = 4096, d_last = 4176, d_end = 4184, d_failed = 0\<rparr>], pool_max = 8, pool_current = 0,
     pool_large = [], pool_cleanup = []\<rparr>"


text \<open>
  Resetting a pool frees the memory of its cleanups but keeps them in the list: the next allocation is given the
  memory of a cleanup that \<open>ngx_destroy_pool\<close> will follow.
\<close>

theorem reset_reuses_cleanup:
  assumes sys: "alloc_contract sys" and new: "ngx_create_pool sys pagesize psize s = (Some (pool0 :: 'h ngx_pool), s0)"
    and size: "8 dvd psize" "psize < 2 ^ 64" "104 \<le> psize" "25 \<le> pagesize" "heap_ok s"
  shows "\<exists>c pool s1 pool2 s2 pool3 s3. ngx_pool_cleanup_add 1 sys pool0 0 s0 = Inr (Some c, pool, s1) \<and>
    ngx_reset_pool pool s1 = Inr (pool2, s2) \<and> ngx_palloc 1 sys pool2 24 s2 = Inr (Some (cleanup_node c), pool3, s3) \<and>
    c \<in> set (pool_cleanup pool3)"
proof -
  obtain a where m: "ngx_memalign sys 16 psize s = (Some a, s0)"
    using new by (auto simp: ngx_create_pool_def Let_def split: prod.splits option.splits)
  let ?b = "\<lambda>l. \<lparr>d_start = a, d_last = l, d_end = a + psize, d_failed = 0\<rparr>"
  obtain mx where mx: "24 \<le> mx" "pool0 = \<lparr>pool_blocks = [?b (a + 80)], pool_max = mx, pool_current = 0, pool_large = [], pool_cleanup = []\<rparr>"
  proof (rule that)
    have "size_t_sub psize 80 = psize - 80" using size(2,3) by (simp add: size_t_sub_exact)
    then show "24 \<le> (if psize - 80 < pagesize - 1 then psize - 80 else pagesize - 1)"
      "pool0 = \<lparr>pool_blocks = [?b (a + 80)], pool_max = (if psize - 80 < pagesize - 1 then psize - 80 else pagesize - 1),
         pool_current = 0, pool_large = [], pool_cleanup = []\<rparr>"
      using new m size(3,4) by (auto simp: ngx_create_pool_def Let_def)
  qed
  have "8 dvd a" using memalign_Some(3) [OF sys size(5) m] dvd_trans [of 8 16 a] by simp
  then have al: "ngx_align_ptr (a + 80) 8 = a + 80" by (simp add: align_ptr_id)
  have sub: "24 \<le> size_t_sub (a + psize) (a + 80)" using size(2,3) by (simp add: size_t_sub_exact)
  have alloc: "ngx_palloc 1 sys (pool0\<lparr>pool_cleanup := cs\<rparr>) 24 s0 =
      Inr (Some (a + 80), pool0\<lparr>pool_blocks := [?b (a + 104)], pool_cleanup := cs\<rparr>, s0)" for cs
    using mx al sub by (simp add: palloc_small_def Let_def)
  show ?thesis using alloc [of "[]"] alloc mx by (simp add: ngx_pool_cleanup_add_def ngx_reset_pool_def Let_def del: ngx_palloc.simps)
qed

end
