(* ===== verification/Ngx_Printf.thy ===== *)
theory Ngx_Printf
  imports Ngx_String
begin

text \<open>
  Formatted output: \<open>ngx_vslprintf\<close>, \<open>ngx_sprintf_num\<close> and their callers in \<^verbatim>\<open>src/nginx/src/core/ngx_string.c\<close>.

  The bytes from \<open>buf\<close> to \<open>last\<close> are the room: \<open>Some n\<close>, or \<open>None\<close> for the \<open>(void *) -1\<close> of \<open>ngx_sprintf\<close>. A conversion
  returns the bytes it writes; a byte written without a check of its own is the fault \<open>BufferOverflow\<close> where there is no
  room. The arguments are a list of values, \<open>BadArgument\<close> where the format asks for another one. What the floating
  point unit computes for \<open>%f\<close> comes with the argument. \<open>snprintf_truncates\<close>: output with a limit is the output
  without one, cut at the limit.
\<close>

section \<open>Room\<close>

type_synonym room = "nat option"

definition fit :: "room \<Rightarrow> string \<Rightarrow> string" where
  "fit r s = (case r of None \<Rightarrow> s | Some n \<Rightarrow> take n s)"

definition less_room :: "nat \<Rightarrow> room \<Rightarrow> room" where
  "less_room k r = map_option (\<lambda>n. n - k) r"

definition put :: "room \<Rightarrow> char \<Rightarrow> string c_result" where
  "put r c = (if r = Some 0 then Inl BufferOverflow else Inr [c])"

text \<open>Output one behind the other.\<close>

definition and_then :: "room \<Rightarrow> string c_result \<Rightarrow> (room \<Rightarrow> string c_result) \<Rightarrow> string c_result" where
  "and_then r m f = bindr m (\<lambda>s. bindr (f (less_room (length s) r)) (\<lambda>t. Inr (s @ t)))"

section \<open>Numbers\<close>

datatype radix = Decimal | Hex_lower | Hex_upper

definition hex_digit :: "radix \<Rightarrow> nat \<Rightarrow> char" where
  "hex_digit h d = (if h = Hex_upper then ''0123456789ABCDEF'' ! d else ''0123456789abcdef'' ! d)"

definition radix_of :: "radix \<Rightarrow> nat" where
  "radix_of h = (if h = Decimal then 10 else 16)"

text \<open>The digits go backwards into \<open>temp\<close>, which holds \<open>NGX_INT64_LEN\<close>, 20, of them.\<close>

function num_loop :: "radix \<Rightarrow> nat \<Rightarrow> string \<Rightarrow> string c_result" where
  "num_loop h n p =
     (if length p \<ge> 20 then Inl BufferOverflow
      else
        let p' = hex_digit h (n mod radix_of h) # p in
        if n div radix_of h = 0 then Inr p' else num_loop h (n div radix_of h) p')"
  by pat_completeness auto
termination
  by (relation "measure (\<lambda>(h, n, p). n)") (auto simp: radix_of_def split: if_splits intro: Nat.gr0I)

declare num_loop.simps [simp del]

definition ngx_sprintf_num :: "room \<Rightarrow> nat \<Rightarrow> char \<Rightarrow> radix \<Rightarrow> nat \<Rightarrow> string c_result" where
  "ngx_sprintf_num r n zero h width =
     bindr (num_loop h n []) (\<lambda>p.
       let pad = fit r (replicate (width - length p) zero)
       in Inr (pad @ fit (less_room (length pad) r) p))"

section \<open>Arguments and conversions\<close>

text \<open>
  \<open>Va_double neg whole frac\<close> is a double: whether it is below zero, its magnitude cast to \<open>int64_t\<close>, and for a scale the
  value of the cast \<open>(uint64_t) ((f - (double) ui64) * scale + 0.5)\<close>. \<open>Va_chars\<close> points to characters, behind which a NUL
  is read; \<open>Va_str\<close> is an \<open>ngx_str_t\<close> or a variable value.
\<close>

datatype va_arg = Va_int int | Va_str string | Va_chars string | Va_double bool nat "nat \<Rightarrow> nat"

record fmt_spec =
  f_zero :: char
  f_width :: nat
  f_sign :: bool
  f_hex :: radix
  f_max_width :: bool
  f_frac_width :: nat
  f_slen :: "nat option"

abbreviation (input) u64 :: "nat \<Rightarrow> nat" where "u64 n \<equiv> n mod 18446744073709551616"

definition u64_of :: "int \<Rightarrow> nat" where
  "u64_of i = nat (i mod 18446744073709551616)"

definition u32_of :: "int \<Rightarrow> nat" where
  "u32_of i = nat (i mod 4294967296)"

fun fmt_digits :: "nat \<Rightarrow> string \<Rightarrow> nat \<times> string" where
  "fmt_digits w [] = (w, [])"
| "fmt_digits w (c # fmt) = (if is_digit c then fmt_digits (u64 (w * 10 + nat (digit_val c))) fmt else (w, c # fmt))"

definition plain_flag :: "char \<Rightarrow> fmt_spec \<Rightarrow> fmt_spec option" where
  "plain_flag c f =
     (if c = CHR ''u'' then Some (f\<lparr>f_sign := False\<rparr>)
      else if c = CHR ''m'' then Some (f\<lparr>f_max_width := True\<rparr>)
      else if c = CHR ''X'' then Some (f\<lparr>f_hex := Hex_upper, f_sign := False\<rparr>)
      else if c = CHR ''x'' then Some (f\<lparr>f_hex := Hex_lower, f_sign := False\<rparr>)
      else None)"

text \<open>The loop over the flags. After a fraction it ends.\<close>

fun fmt_flags :: "string \<Rightarrow> fmt_spec \<Rightarrow> va_arg list \<Rightarrow> (fmt_spec \<times> string \<times> va_arg list) c_result" where
  "fmt_flags [] f args = Inr (f, [], args)"
| "fmt_flags (c # fmt) f args =
     (case plain_flag c f of
        Some f' \<Rightarrow> fmt_flags fmt f' args
      | None \<Rightarrow>
          if c = CHR ''.'' then
            (let wf = fmt_digits (f_frac_width f) fmt in Inr (f\<lparr>f_frac_width := fst wf\<rparr>, snd wf, args))
          else if c = CHR ''*'' then
            (case args of
               Va_int n # as \<Rightarrow>
                 fmt_flags fmt (f\<lparr>f_slen := (if u64_of n = 18446744073709551615 then None else Some (u64_of n))\<rparr>) as
             | _ \<Rightarrow> Inl BadArgument)
          else Inr (f, c # fmt, args))"

text \<open>An integer behind its sign; \<open>i\<close> is \<open>i64\<close> where the format is signed, else \<open>ui64\<close>.\<close>

definition put_int :: "room \<Rightarrow> fmt_spec \<Rightarrow> bool \<Rightarrow> int \<Rightarrow> string c_result" where
  "put_int r f sign i =
     (if sign \<and> i < 0 then and_then r (put r (CHR ''-'')) (\<lambda>r. ngx_sprintf_num r (u64_of (- i)) (f_zero f) (f_hex f) (f_width f))
      else ngx_sprintf_num r (u64_of i) (f_zero f) (f_hex f) (f_width f))"

definition put_double :: "room \<Rightarrow> fmt_spec \<Rightarrow> bool \<Rightarrow> nat \<Rightarrow> (nat \<Rightarrow> nat) \<Rightarrow> string c_result" where
  "put_double r f neg whole fraction =
     (let scale = u64 (10 ^ f_frac_width f);
          frac = (if f_frac_width f \<noteq> 0 then u64 (fraction scale) else 0);
          carry = f_frac_width f \<noteq> 0 \<and> frac = scale;
          whole = (if carry then u64 (whole + 1) else u64 whole); frac = (if carry then 0 else frac)
      in and_then r (if neg then put r (CHR ''-'') else Inr []) (\<lambda>r.
           and_then r (ngx_sprintf_num r whole (f_zero f) Decimal (f_width f)) (\<lambda>r.
             if f_frac_width f = 0 then Inr []
             else and_then r (Inr (fit r ''.'')) (\<lambda>r. ngx_sprintf_num r frac (CHR ''0'') Decimal (f_frac_width f)))))"

definition put_chars :: "room \<Rightarrow> nat option \<Rightarrow> string \<Rightarrow> string c_result" where
  "put_chars r slen p =
     (case slen of
        None \<Rightarrow> Inr (fit r (c_str p))
      | Some n \<Rightarrow> let len = (case r of None \<Rightarrow> n | Some k \<Rightarrow> min k n) in if length p < len then Inl BufferOverflow else Inr (take len p))"

text \<open>The conversions of integers: whether \<open>i64\<close> is used, its value or that of \<open>ui64\<close>, and the format as changed.\<close>

definition int_conversion :: "char \<Rightarrow> fmt_spec \<Rightarrow> int \<Rightarrow> (bool \<times> int \<times> fmt_spec) option" where
  "int_conversion c f i =
     (let wide = (f_sign f, if f_sign f then wrap64 i else int (u64_of i)); f20 = (if f_max_width f then f\<lparr>f_width := 20\<rparr> else f) in
      if c \<in> {CHR ''O'', CHR ''T'', CHR ''r''} then Some (True, wrap64 i, f)
      else if c = CHR ''P'' then Some (True, wrap32 i, f)
      else if c = CHR ''M'' then Some (if wrap64 i = - 1 then (True, - 1, f) else (False, int (u64_of i), f))
      else if c \<in> {CHR ''z'', CHR ''l'', CHR ''L''} then Some (fst wide, snd wide, f)
      else if c \<in> {CHR ''i'', CHR ''A''} then Some (fst wide, snd wide, f20)
      else if c \<in> {CHR ''d'', CHR ''D''} then Some (f_sign f, if f_sign f then wrap32 i else int (u32_of i), f)
      else if c = CHR ''p'' then Some (False, int (u64_of i), f\<lparr>f_hex := Hex_upper, f_zero := CHR ''0'', f_width := 16\<rparr>)
      else None)"

definition int_letter :: "char \<Rightarrow> bool" where
  "int_letter c \<longleftrightarrow> c \<in> set ''OTrPMzlLiAdDp''"

text \<open>One conversion; \<open>c\<close> is the letter. Every other byte stands for itself.\<close>

definition put_conversion :: "room \<Rightarrow> char \<Rightarrow> fmt_spec \<Rightarrow> va_arg list \<Rightarrow> (string \<times> va_arg list) c_result" where
  "put_conversion r c f args =
     (if int_letter c then
        (case args of
           Va_int i # as \<Rightarrow>
             (case int_conversion c f i of
                Some (sign, v, f') \<Rightarrow> bindr (put_int r f' sign v) (\<lambda>s. Inr (s, as))
              | None \<Rightarrow> Inl BadArgument)
         | _ \<Rightarrow> Inl BadArgument)
      else if c = CHR ''V'' \<or> c = CHR ''v'' then
        (case args of Va_str v # as \<Rightarrow> Inr (fit r v, as) | _ \<Rightarrow> Inl BadArgument)
      else if c = CHR ''s'' then
        (case args of Va_chars p # as \<Rightarrow> bindr (put_chars r (f_slen f) p) (\<lambda>s. Inr (s, as)) | _ \<Rightarrow> Inl BadArgument)
      else if c = CHR ''f'' then
        (case args of
           Va_double neg whole fraction # as \<Rightarrow> bindr (put_double r f neg whole fraction) (\<lambda>s. Inr (s, as))
         | _ \<Rightarrow> Inl BadArgument)
      else if c = CHR ''c'' then
        (case args of Va_int d # as \<Rightarrow> bindr (put r (char_of (nat (d mod 256)))) (\<lambda>s. Inr (s, as)) | _ \<Rightarrow> Inl BadArgument)
      else if c = CHR ''Z'' then bindr (put r NUL) (\<lambda>s. Inr (s, args))
      else if c = CHR ''N'' then bindr (put r LF) (\<lambda>s. Inr (s, args))
      else bindr (put r c) (\<lambda>s. Inr (s, args)))"

definition fresh_spec :: "char \<Rightarrow> nat \<Rightarrow> fmt_spec" where
  "fresh_spec zero width = \<lparr>f_zero = zero, f_width = width, f_sign = True, f_hex = Decimal, f_max_width = False, f_frac_width = 0, f_slen = None\<rparr>"

text \<open>
  What follows a per cent sign: the width, the flags, the letter. A format that ends before its letter makes the code
  copy the NUL behind it and read on.
\<close>

definition conversion :: "string \<Rightarrow> va_arg list \<Rightarrow> (char \<times> fmt_spec \<times> string \<times> va_arg list) c_result" where
  "conversion fmt args =
     (case fmt_digits 0 fmt of
        (width, fmt1) \<Rightarrow>
          bindr (fmt_flags fmt1 (fresh_spec (if cur fmt = CHR ''0'' then CHR ''0'' else CHR '' '') width) args) (\<lambda>(f, fmt2, as).
            case fmt2 of [] \<Rightarrow> Inl BufferOverflow | c # fmt3 \<Rightarrow> if c = NUL then Inl BufferOverflow else Inr (c, f, fmt3, as)))"

lemma fmt_digits_length: "length (snd (fmt_digits w fmt)) \<le> length fmt"
  by (induction w fmt rule: fmt_digits.induct) (simp_all add: le_SucI)

lemma fmt_flags_length: "fmt_flags fmt f args = Inr (f', fmt', as) \<Longrightarrow> length fmt' \<le> length fmt"
proof (induction fmt f args rule: fmt_flags.induct)
  case (2 c fmt f args)
  show ?case
  proof (cases "plain_flag c f")
    case None
    consider (dot) "c = CHR ''.''" | (star) "c = CHR ''*''" | (other) "c \<noteq> CHR ''.''" "c \<noteq> CHR ''*''" by blast
    then show ?thesis
    proof cases
      case dot
      then show ?thesis using "2.prems" None fmt_digits_length [of "f_frac_width f" fmt] by (auto simp: Let_def)
    next
      case star
      then show ?thesis using "2.prems" "2.IH"(1) [OF None] None by (auto split: list.splits va_arg.splits)
    qed (use "2.prems" None in simp)
  qed (use 2 in simp)
qed simp

lemma conversion_length: "conversion fmt args = Inr (c, f, fmt', as) \<Longrightarrow> length fmt' < length fmt"
proof -
  assume a: "conversion fmt args = Inr (c, f, fmt', as)"
  obtain w fmt1 where w: "fmt_digits 0 fmt = (w, fmt1)" by (cases "fmt_digits 0 fmt")
  with a obtain g fmt2 bs where g: "fmt_flags fmt1 (fresh_spec (if cur fmt = CHR ''0'' then CHR ''0'' else CHR '' '') w) args = Inr (g, fmt2, bs)"
    "(case fmt2 of [] \<Rightarrow> Inl BufferOverflow | c # fmt3 \<Rightarrow> if c = NUL then Inl BufferOverflow else Inr (c, g, fmt3, bs)) = Inr (c, f, fmt', as)"
    by (auto simp only: conversion_def bindr_Inr_iff prod.case split_paired_Ex)
  have "fmt2 = c # fmt'" using g(2) by (auto split: list.splits if_splits)
  then show ?thesis using fmt_flags_length [OF g(1)] fmt_digits_length [of 0 fmt] w by simp
qed

function ngx_vslprintf :: "room \<Rightarrow> string \<Rightarrow> va_arg list \<Rightarrow> string c_result" where
  "ngx_vslprintf r fmt args =
     (case fmt of
        [] \<Rightarrow> Inr []
      | ch # fmt1 \<Rightarrow>
          if ch = NUL \<or> r = Some 0 then Inr []
          else if ch = CHR ''%'' then
            (case conversion fmt1 args of
               Inl e \<Rightarrow> Inl e
             | Inr (c, f, fmt2, as) \<Rightarrow>
                 (case put_conversion r c f as of
                    Inl e \<Rightarrow> Inl e
                  | Inr (s, as') \<Rightarrow> bindr (ngx_vslprintf (less_room (length s) r) fmt2 as') (\<lambda>t. Inr (s @ t))))
          else and_then r (put r ch) (\<lambda>r. ngx_vslprintf r fmt1 args))"
  by pat_completeness auto
termination
  by (relation "measure (\<lambda>(r, fmt, args). length fmt)") (auto dest: conversion_length)

declare ngx_vslprintf.simps [simp del]

definition ngx_sprintf :: "string \<Rightarrow> va_arg list \<Rightarrow> string c_result" where
  "ngx_sprintf fmt args = ngx_vslprintf None fmt args"

definition ngx_snprintf :: "nat \<Rightarrow> string \<Rightarrow> va_arg list \<Rightarrow> string c_result" where
  "ngx_snprintf n fmt args = ngx_vslprintf (Some n) fmt args"

text \<open>\<open>buf\<close> and \<open>last\<close> are addresses.\<close>

definition ngx_slprintf :: "nat \<Rightarrow> nat \<Rightarrow> string \<Rightarrow> va_arg list \<Rightarrow> string c_result" where
  "ngx_slprintf buf lst fmt args = ngx_vslprintf (Some (lst - buf)) fmt args"

section \<open>Truncation\<close>

lemma fit_append: "fit r (s @ t) = fit r s @ fit (less_room (length (fit r s)) r) t"
  by (cases r) (auto simp: fit_def less_room_def min_def)

lemma fit_None [simp]: "fit None s = s"
  by (simp add: fit_def)

lemma less_room_None [simp]: "less_room k None = None"
  by (simp add: less_room_def)

lemma fit_full: "fit (Some 0) s = []"
  by (simp add: fit_def)

lemma fit_length: "length (fit (Some n) s) \<le> n"
  by (simp add: fit_def)

definition truncating :: "room \<Rightarrow> (room \<Rightarrow> string c_result) \<Rightarrow> bool" where
  "truncating r m \<longleftrightarrow> (\<forall>s. m None = Inr s \<longrightarrow> m r = Inr (fit r s))"

lemma truncating_put: "r \<noteq> Some 0 \<Longrightarrow> truncating r (\<lambda>r. put r c)"
  by (cases r) (auto simp: truncating_def put_def fit_def take_Cons')

lemma truncating_fit [simp]: "truncating r (\<lambda>r. Inr (fit r s))"
  by (simp add: truncating_def)

lemma truncating_nothing [simp]: "truncating r (\<lambda>r. Inr [])"
  by (simp add: truncating_def fit_def split: option.split)

lemma truncating_if: "truncating r m \<Longrightarrow> truncating r m' \<Longrightarrow> truncating r (\<lambda>r. if b then m r else m' r)"
  by (cases b) simp_all

lemma truncating_and_then:
  assumes "truncating r m" "\<And>r. truncating r f"
  shows "truncating r (\<lambda>r. and_then r (m r) f)"
  unfolding truncating_def
proof (intro allI impI)
  fix s assume "and_then None (m None) f = Inr s"
  then obtain a b where s: "m None = Inr a" "f None = Inr b" "s = a @ b" by (auto simp: and_then_def bindr_Inr_iff)
  have "m r = Inr (fit r a)" "f r' = Inr (fit r' b)" for r' using assms s unfolding truncating_def by blast+
  then show "and_then r (m r) f = Inr (fit r s)" by (simp add: and_then_def s(3) fit_append)
qed

lemma truncating_num: "truncating r (\<lambda>r. ngx_sprintf_num r n zero h width)"
  by (auto simp: truncating_def ngx_sprintf_num_def bindr_Inr_iff Let_def fit_append)

lemma truncating_int: "r \<noteq> Some 0 \<Longrightarrow> truncating r (\<lambda>r. put_int r f sign i)"
  unfolding put_int_def by (intro truncating_if truncating_and_then truncating_num truncating_put)

lemma truncating_double: "r \<noteq> Some 0 \<Longrightarrow> truncating r (\<lambda>r. put_double r f neg whole fraction)"
  unfolding put_double_def Let_def
  by (intro truncating_if truncating_and_then truncating_num truncating_put truncating_nothing truncating_fit)

lemma truncating_chars: "truncating r (\<lambda>r. put_chars r slen p)"
  by (cases slen; cases r) (auto simp: truncating_def put_chars_def fit_def min_def split: if_splits)

lemma put_conversion_truncates:
  assumes "r \<noteq> Some 0" "put_conversion None c f args = Inr (s, as)"
  shows "put_conversion r c f args = Inr (fit r s, as)"
proof -
  have use: "bindr (m r) (\<lambda>s. Inr (s, as')) = Inr (fit r s, as)" if "truncating r m" "bindr (m None) (\<lambda>s. Inr (s, as')) = Inr (s, as)" for m as'
    using that by (auto simp: truncating_def bindr_Inr_iff)
  note t = truncating_int [OF assms(1)] truncating_double [OF assms(1)] truncating_chars [of r] truncating_put [OF assms(1)]
  show ?thesis
  proof (cases "int_letter c")
    case True
    then obtain i bs sg v f' where i: "args = Va_int i # bs" "int_conversion c f i = Some (sg, v, f')"
      using assms(2) by (auto simp: put_conversion_def split: list.splits va_arg.splits option.splits)
    then show ?thesis using True assms(2) use [OF t(1)] by (simp add: put_conversion_def)
  next
    case False
    consider (str) "c = CHR ''V'' \<or> c = CHR ''v''" | (chars) "c = CHR ''s''" | (double) "c = CHR ''f''" | (char) "c = CHR ''c''"
      | (nul) "c = CHR ''Z''" | (lf) "c = CHR ''N''" | (other) "c \<notin> set ''VvsfcZN''" by auto
    then show ?thesis
    proof cases
      case str
      then show ?thesis using assms(2) False by (auto simp: put_conversion_def split: list.splits va_arg.splits)
    next
      case chars
      then show ?thesis using assms(2) False use [OF t(3)] by (auto simp: put_conversion_def split: list.splits va_arg.splits)
    next
      case double
      then show ?thesis using assms(2) False use [OF t(2)] by (auto simp: put_conversion_def split: list.splits va_arg.splits)
    next
      case char
      then show ?thesis using assms(2) False use [OF t(4)] by (auto simp: put_conversion_def split: list.splits va_arg.splits)
    qed (use assms(2) False use [OF t(4)] in \<open>auto simp: put_conversion_def\<close>)
  qed
qed

lemma vslprintf_stop: "fmt = [] \<or> cur fmt = NUL \<or> r = Some 0 \<Longrightarrow> ngx_vslprintf r fmt args = Inr []"
  by (subst ngx_vslprintf.simps) (cases fmt, auto)

lemma vslprintf_conversion:
  "r \<noteq> Some 0 \<Longrightarrow> ngx_vslprintf r (CHR ''%'' # fmt) args =
    (case conversion fmt args of Inl e \<Rightarrow> Inl e
     | Inr (c, f, fmt2, as) \<Rightarrow> (case put_conversion r c f as of Inl e \<Rightarrow> Inl e
         | Inr (s, as') \<Rightarrow> bindr (ngx_vslprintf (less_room (length s) r) fmt2 as') (\<lambda>t. Inr (s @ t))))"
  by (subst ngx_vslprintf.simps) simp

lemma vslprintf_plain:
  "r \<noteq> Some 0 \<Longrightarrow> ch \<noteq> NUL \<Longrightarrow> ch \<noteq> CHR ''%'' \<Longrightarrow>
   ngx_vslprintf r (ch # fmt) args = bindr (ngx_vslprintf (less_room 1 r) fmt args) (\<lambda>t. Inr (ch # t))"
  by (subst ngx_vslprintf.simps) (simp add: and_then_def put_def)

lemma vslprintf_truncates: "ngx_vslprintf None fmt args = Inr s \<Longrightarrow> ngx_vslprintf r fmt args = Inr (fit r s)"
proof (induction "length fmt" arbitrary: fmt args r s rule: less_induct)
  case less
  show ?case
  proof (cases "fmt = [] \<or> cur fmt = NUL \<or> r = Some 0")
    case True
    then have "ngx_vslprintf r fmt args = Inr []" by (rule vslprintf_stop)
    moreover have "s = []" if "r \<noteq> Some 0"
      using True that less.prems vslprintf_stop [of fmt None args] by auto
    ultimately show ?thesis by (cases "r = Some 0") (auto simp: fit_def split: option.split)
  next
    case False
    then obtain ch fmt1 where fmt: "fmt = ch # fmt1" "ch \<noteq> NUL" and r: "r \<noteq> Some 0" by (cases fmt) auto
    note simps = vslprintf_conversion vslprintf_plain
    show ?thesis
    proof (cases "ch = CHR ''%''")
      case True
      from less.prems obtain c f fmt2 as where c: "conversion fmt1 args = Inr (c, f, fmt2, as)"
        using fmt True by (auto simp: simps split: sum.splits)
      from less.prems obtain u as' t where u: "put_conversion None c f as = Inr (u, as')" "ngx_vslprintf None fmt2 as' = Inr t" "s = u @ t"
        using fmt True c by (auto simp: simps bindr_Inr_iff split: sum.splits)
      have "length fmt2 < length fmt" using conversion_length [OF c] fmt(1) by simp
      from less.hyps [OF this u(2)] put_conversion_truncates [OF r u(1)] show ?thesis
        using fmt True c r by (simp add: simps u(3) fit_append)
    next
      case False
      from less.prems obtain t where t: "ngx_vslprintf None fmt1 args = Inr t" "s = ch # t"
        using fmt False by (auto simp: simps bindr_Inr_iff)
      have "fit r (ch # t) = ch # fit (less_room 1 r) t" using r by (cases r) (auto simp: fit_def less_room_def take_Cons')
      with less.hyps [OF _ t(1)] show ?thesis using fmt False r by (simp add: simps t(2))
    qed
  qed
qed

section \<open>Numbers in text\<close>

lemma decimal_digits: "list_all (\<lambda>d. hex_digit Decimal d = digit_char d) [0..<10]"
  by code_simp

lemma num_loop_dec:
  assumes "n < 10 ^ k" "length p + k \<le> 20" "0 < k"
  shows "num_loop Decimal n p = Inr (nat_dec n @ p)"
  using assms
proof (induction n arbitrary: p k rule: nat_dec.induct)
  case (1 n)
  have d: "hex_digit Decimal (n mod 10) = digit_char (n mod 10)"
    using decimal_digits by (simp add: list_all_iff)
  show ?case
  proof (cases "n < 10")
    case True
    then show ?thesis using "1.prems" d by (subst num_loop.simps) (simp add: radix_of_def nat_dec.simps [of n] Let_def)
  next
    case False
    then obtain j where j: "k = Suc j" "0 < j" using "1.prems" by (cases k; cases "k - 1") auto
    have "n div 10 < 10 ^ j" using "1.prems"(1) j(1) by (simp add: less_mult_imp_div_less mult.commute)
    from "1.IH" [OF False this _ j(2), of "digit_char (n mod 10) # p"] have
      "num_loop Decimal (n div 10) (digit_char (n mod 10) # p) = Inr (nat_dec (n div 10) @ digit_char (n mod 10) # p)"
      using "1.prems"(2) j by simp
    then show ?thesis using "1.prems" False d by (subst num_loop.simps) (simp add: radix_of_def nat_dec.simps [of n] Let_def)
  qed
qed

lemma num_loop_fits:
  assumes "n < radix_of h ^ k" "length p + k \<le> 20" "0 < k"
  shows "\<exists>q. num_loop h n p = Inr q \<and> length q \<le> 20"
  using assms
proof (induction k arbitrary: n p)
  case (Suc k)
  let ?b = "radix_of h" let ?p = "hex_digit h (n mod ?b) # p"
  have b: "0 < ?b" by (simp add: radix_of_def)
  show ?case
  proof (cases "n div ?b = 0")
    case True
    then show ?thesis using Suc.prems by (subst num_loop.simps) simp
  next
    case False
    then have "n \<ge> ?b" using b by (metis div_eq_0_iff linorder_not_less)
    then have "k \<noteq> 0" using Suc.prems(1) by (cases k) auto
    moreover have "n div ?b < ?b ^ k" using Suc.prems(1) by (simp add: less_mult_imp_div_less mult.commute)
    ultimately obtain q where "num_loop h (n div ?b) ?p = Inr q" "length q \<le> 20" using Suc.IH [of "n div ?b" ?p] Suc.prems(2) by auto
    then show ?thesis using Suc.prems(2) False by (subst num_loop.simps) (simp add: Let_def)
  qed
qed simp

lemma num_loop_total: "n < 18446744073709551616 \<Longrightarrow> \<exists>q. num_loop h n [] = Inr q \<and> length q \<le> 20"
  using num_loop_fits [of n h "if h = Decimal then 20 else 16" "[]"] by (simp add: radix_of_def split: if_splits)

lemma num_loop_text: "n < 18446744073709551616 \<Longrightarrow> num_loop Decimal n [] = Inr (nat_dec n)"
  using num_loop_dec [of n 20 "[]"] by simp

lemma sprintf_num_dec:
  "n < 18446744073709551616 \<Longrightarrow> ngx_sprintf_num None n zero Decimal w = Inr (replicate (w - length (nat_dec n)) zero @ nat_dec n)"
  by (simp add: ngx_sprintf_num_def num_loop_text Let_def)

text \<open>Evaluation of a format that is a literal.\<close>

lemma is_digit_literals:
  "is_digit CHR ''0''" "is_digit CHR ''2''" "is_digit CHR ''4''" "is_digit CHR ''5''" "\<not> is_digit CHR ''d''" "\<not> is_digit CHR ''s''"
  "\<not> is_digit CHR ''c''" "\<not> is_digit CHR ''%''" "\<not> is_digit CHR ''.''" "\<not> is_digit CHR ''f''" "\<not> is_digit CHR ''*''"
  by (simp_all add: is_digit_def less_eq_char_def)

lemmas printf_eval = ngx_sprintf_def vslprintf_stop vslprintf_plain vslprintf_conversion conversion_def is_digit_literals
  plain_flag_def fresh_spec_def put_conversion_def int_letter_def int_conversion_def put_int_def put_chars_def put_def digit_val_def

section \<open>Properties\<close>

text \<open>
  C29. Output with a limit is the output without one, cut at the limit: for every format and all arguments for which
  \<open>ngx_sprintf\<close> returns, \<open>ngx_snprintf\<close> and \<open>ngx_slprintf\<close> return the first bytes of the same text, as many as
  fit, never write behind the limit, and do not fault; this holds also where the limit falls into a number, its padding
  or a fraction.
\<close>

theorem snprintf_truncates:
  assumes "ngx_sprintf fmt args = Inr s"
  shows "ngx_snprintf n fmt args = Inr (take n s) \<and> ngx_slprintf buf lst fmt args = Inr (take (lst - buf) s)"
  using vslprintf_truncates [of fmt args s] assms by (simp_all add: ngx_sprintf_def ngx_snprintf_def ngx_slprintf_def fit_def)

theorem snprintf_truncates_witness:
  "ngx_sprintf ''%s=%05d%% %.2f'' [Va_chars ''ab'', Va_int (- 42), Va_double False 3 (\<lambda>scale. 14)] = Inr ''ab=-00042% 3.14'' \<and>
   ngx_snprintf 6 ''%s=%05d%% %.2f'' [Va_chars ''ab'', Va_int (- 42), Va_double False 3 (\<lambda>scale. 14)] = Inr ''ab=-00''"
proof -
  have "ngx_sprintf ''%s=%05d%% %.2f'' [Va_chars ''ab'', Va_int (- 42), Va_double False 3 (\<lambda>scale. 14)] = Inr ''ab=-00042% 3.14''"
    by (simp add: printf_eval put_double_def Let_def and_then_def u64_of_def wrap32_def c_str_def ngx_sprintf_num_def
        num_loop_text nat_dec.simps digit_char_def) code_simp
  then show ?thesis using snprintf_truncates [of "''%s=%05d%% %.2f''" _ "''ab=-00042% 3.14''" 6 0 0] by simp
qed

end
