(* ===== verification/Ngx_Times.thy ===== *)
theory Ngx_Times
  imports Ngx_Printf
begin

text \<open>
  Calendar time: \<open>ngx_gmtime\<close>, \<open>ngx_http_time\<close> and \<open>ngx_http_cookie_time\<close> of \<^verbatim>\<open>src/nginx/src/core/ngx_times.c\<close>, and
  \<open>ngx_http_parse_time\<close> of \<^verbatim>\<open>src/nginx/src/http/ngx_http_parse_time.c\<close>.

  \<open>time_t\<close>, \<open>ngx_int_t\<close> and \<open>ngx_uint_t\<close> have 64 bits; unsigned arithmetic goes through \<open>U\<close>. The reference is the calendar
  itself: \<open>next_day\<close>, counted from the first of January 1970. \<open>gmtime_calendar\<close>: \<open>ngx_gmtime\<close> is that calendar;
  \<open>http_time_round_trip\<close>: what is printed is read back.
\<close>

section \<open>Breaking a time down\<close>

definition U :: "int \<Rightarrow> int" where
  "U i = i mod 18446744073709551616"

record ngx_tm =
  tm_sec :: int
  tm_min :: int
  tm_hour :: int
  tm_mday :: int
  tm_mon :: int
  tm_year :: int
  tm_wday :: int

text \<open>From the days since the first of March of 1 BC to the year, which starts in March, and the day in it.\<close>

definition gm_year :: "int \<Rightarrow> int \<times> int" where
  "gm_year days =
     (let year = U (U (days + 2) * 400) div (365 * 400 + 100 - 4 + 1);
          yday = wrap64 (days - (365 * year + year div 4 - year div 100 + year div 400));
          leap = (if year mod 4 = 0 \<and> (year mod 100 \<noteq> 0 \<or> year mod 400 = 0) then 1 else 0)
      in if yday < 0 then (U (year - 1), wrap64 (365 + leap + yday)) else (year, yday))"

text \<open>Month and day of the month, then the year that starts in January.\<close>

definition gm_date :: "int \<times> int \<Rightarrow> int \<times> int \<times> int" where
  "gm_date yy =
     (let (year, yday) = yy;
          mon = U (wrap64 (wrap64 (yday + 31) * 10) sdiv 306);
          mday = U (yday - (U (367 * mon) div 12 - 30) + 1)
      in if yday \<ge> 306 then (U (year + 1), U (mon - 10), mday) else (year, U (mon + 2), mday))"

definition ngx_gmtime :: "int \<Rightarrow> ngx_tm" where
  "ngx_gmtime t =
     (let n = U t;
          days = n div 86400;
          wday = U (4 + days) mod 7;
          n = n mod 86400; hour = n div 3600;
          n = n mod 3600; min = n div 60; sec = n mod 60;
          days = U (days - (31 + 28) + 719527);
          (year, mon, mday) = gm_date (gm_year days)
      in \<lparr>tm_sec = wrap32 sec, tm_min = wrap32 min, tm_hour = wrap32 hour, tm_mday = wrap32 mday, tm_mon = wrap32 mon,
          tm_year = wrap32 year, tm_wday = wrap32 wday\<rparr>)"

definition week :: "string list" where
  "week = [''Sun'', ''Mon'', ''Tue'', ''Wed'', ''Thu'', ''Fri'', ''Sat'']"

definition months :: "string list" where
  "months = [''Jan'', ''Feb'', ''Mar'', ''Apr'', ''May'', ''Jun'', ''Jul'', ''Aug'', ''Sep'', ''Oct'', ''Nov'', ''Dec'']"

definition ngx_http_time :: "int \<Rightarrow> string c_result" where
  "ngx_http_time t =
     (let tm = ngx_gmtime t in
      ngx_sprintf ''%s, %02d %s %4d %02d:%02d:%02d GMT''
        [Va_chars (week ! nat (tm_wday tm)), Va_int (tm_mday tm), Va_chars (months ! nat (tm_mon tm - 1)), Va_int (tm_year tm),
         Va_int (tm_hour tm), Va_int (tm_min tm), Va_int (tm_sec tm)])"

definition ngx_http_cookie_time :: "int \<Rightarrow> string c_result" where
  "ngx_http_cookie_time t =
     (let tm = ngx_gmtime t in
      ngx_sprintf (if tm_year tm > 2037 then ''%s, %02d-%s-%d %02d:%02d:%02d GMT'' else ''%s, %02d-%s-%02d %02d:%02d:%02d GMT'')
        [Va_chars (week ! nat (tm_wday tm)), Va_int (tm_mday tm), Va_chars (months ! nat (tm_mon tm - 1)),
         Va_int (if tm_year tm > 2037 then tm_year tm else tm_year tm smod 100),
         Va_int (tm_hour tm), Va_int (tm_min tm), Va_int (tm_sec tm)])"

section \<open>Reading a time\<close>

text \<open>\<open>None\<close> is \<open>NGX_ERROR\<close>. A byte behind the end of the value is a fault.\<close>

type_synonym 'a reading = "'a option c_result"

definition bindo :: "'a reading \<Rightarrow> ('a \<Rightarrow> 'b reading) \<Rightarrow> 'b reading" where
  "bindo m f = bindr m (\<lambda>x. case x of None \<Rightarrow> Inr None | Some y \<Rightarrow> f y)"

definition byte_at :: "string \<Rightarrow> nat \<Rightarrow> char c_result" where
  "byte_at v p = (if p < length v then Inr (v ! p) else Inl BufferOverflow)"

definition digit_at :: "string \<Rightarrow> nat \<Rightarrow> int reading" where
  "digit_at v p = bindr (byte_at v p) (\<lambda>c. Inr (if is_digit c then Some (digit_val c) else None))"

definition two_digits :: "string \<Rightarrow> nat \<Rightarrow> int reading" where
  "two_digits v p = bindo (digit_at v p) (\<lambda>a. bindo (digit_at v (p + 1)) (\<lambda>b. Inr (Some (a * 10 + b))))"

definition four_digits :: "string \<Rightarrow> nat \<Rightarrow> int reading" where
  "four_digits v p = bindo (digit_at v p) (\<lambda>a. bindo (digit_at v (p + 1)) (\<lambda>b. bindo (digit_at v (p + 2)) (\<lambda>c.
     bindo (digit_at v (p + 3)) (\<lambda>d. Inr (Some (a * 1000 + b * 100 + c * 10 + d))))))"

definition must_be :: "string \<Rightarrow> nat \<Rightarrow> char \<Rightarrow> unit reading" where
  "must_be v p c = bindr (byte_at v p) (\<lambda>x. Inr (if x = c then Some () else None))"

datatype time_fmt = fmt_no | rfc822 | rfc850 | isoc

fun weekday_end :: "nat \<Rightarrow> string \<Rightarrow> nat \<times> time_fmt" where
  "weekday_end p [] = (p, fmt_no)"
| "weekday_end p (c # v) = (if c = CHR '','' then (p, fmt_no) else if c = CHR '' '' then (p, isoc) else weekday_end (p + 1) v)"

fun skip_blanks :: "nat \<Rightarrow> string \<Rightarrow> nat" where
  "skip_blanks p [] = p"
| "skip_blanks p (c # v) = (if c \<noteq> CHR '' '' then p else skip_blanks (p + 1) v)"

definition month_at :: "string \<Rightarrow> nat \<Rightarrow> int reading" where
  "month_at v p =
     bindr (byte_at v p) (\<lambda>c.
       if c = CHR ''J'' then bindr (byte_at v (p + 1)) (\<lambda>c1.
         if c1 = CHR ''a'' then Inr (Some 0) else bindr (byte_at v (p + 2)) (\<lambda>c2. Inr (Some (if c2 = CHR ''n'' then 5 else 6))))
       else if c = CHR ''F'' then Inr (Some 1)
       else if c = CHR ''M'' then bindr (byte_at v (p + 2)) (\<lambda>c2. Inr (Some (if c2 = CHR ''r'' then 2 else 4)))
       else if c = CHR ''A'' then bindr (byte_at v (p + 1)) (\<lambda>c1. Inr (Some (if c1 = CHR ''p'' then 3 else 7)))
       else if c = CHR ''S'' then Inr (Some 8)
       else if c = CHR ''O'' then Inr (Some 9)
       else if c = CHR ''N'' then Inr (Some 10)
       else if c = CHR ''D'' then Inr (Some 11)
       else Inr None)"

text \<open>The day before the month of \<open>rfc822\<close> and \<open>rfc850\<close>: format, day and the place behind.\<close>

definition day_before_month :: "string \<Rightarrow> nat \<Rightarrow> (time_fmt \<times> int \<times> nat) reading" where
  "day_before_month v p =
     bindo (two_digits v p) (\<lambda>day.
       bindr (byte_at v (p + 2)) (\<lambda>c.
         if c = CHR '' '' then (if int (length v) - int (p + 2) < 18 then Inr None else Inr (Some (rfc822, day, p + 3)))
         else if c = CHR ''-'' then Inr (Some (rfc850, day, p + 3))
         else Inr None))"

text \<open>Behind the month: day and year, as far as the format has them here, and the place of the blank before the hour.\<close>

definition isoc_day :: "string \<Rightarrow> nat \<Rightarrow> (int \<times> nat) reading" where
  "isoc_day v p =
     bindr (byte_at v (p + 1)) (\<lambda>c.
       let p = (if c = CHR '' '' then p + 2 else p + 1) in
       bindo (digit_at v p) (\<lambda>d1.
         bindr (byte_at v (p + 1)) (\<lambda>c2.
           if c2 \<noteq> CHR '' '' then bindo (digit_at v (p + 1)) (\<lambda>d2. Inr (Some (d1 * 10 + d2, p + 2))) else Inr (Some (d1, p + 1)))))"

definition day_year_at :: "string \<Rightarrow> time_fmt \<Rightarrow> int \<Rightarrow> nat \<Rightarrow> (int \<times> int \<times> nat) reading" where
  "day_year_at v fmt day p =
     (case fmt of
        rfc822 \<Rightarrow> bindo (must_be v p (CHR '' '')) (\<lambda>_. bindo (four_digits v (p + 1)) (\<lambda>year. Inr (Some (day, year, p + 5))))
      | rfc850 \<Rightarrow> bindo (must_be v p (CHR ''-'')) (\<lambda>_. bindo (two_digits v (p + 1)) (\<lambda>year.
          Inr (Some (day, year + (if year < 70 then 2000 else 1900), p + 3))))
      | _ \<Rightarrow> bindo (isoc_day v p) (\<lambda>(day, p). if int (length v) - int p < 14 then Inr None else Inr (Some (day, 0, p))))"

definition clock_at :: "string \<Rightarrow> nat \<Rightarrow> (int \<times> int \<times> int) reading" where
  "clock_at v p =
     bindo (must_be v p (CHR '' '')) (\<lambda>_. bindo (two_digits v (p + 1)) (\<lambda>hour.
       bindo (must_be v (p + 3) (CHR '':'')) (\<lambda>_. bindo (two_digits v (p + 4)) (\<lambda>min.
         bindo (must_be v (p + 6) (CHR '':'')) (\<lambda>_. bindo (two_digits v (p + 7)) (\<lambda>sec. Inr (Some (hour, min, sec))))))))"

definition mday :: "int list" where
  "mday = [31, 28, 31, 30, 31, 30, 31, 31, 30, 31, 30, 31]"

definition date_ok :: "int \<Rightarrow> int \<Rightarrow> int \<Rightarrow> bool" where
  "date_ok day month year =
     (if day = 29 \<and> month = 1 then \<not> (year mod 4 \<noteq> 0 \<or> year mod 100 = 0 \<and> year mod 400 \<noteq> 0)
      else \<not> day > mday ! nat month)"

text \<open>Gauss' formula; \<open>month\<close> counts from 0.\<close>

definition gauss :: "int \<Rightarrow> int \<Rightarrow> int \<Rightarrow> int" where
  "gauss year month day =
     (let (month, year) = (if month - 1 \<le> 0 then (month - 1 + 12, U (year - 1)) else (month - 1, year)) in
      365 * year + year div 4 - year div 100 + year div 400 + 367 * month div 12 - 30 + day - 1 - 719527 + 31 + 28)"

text \<open>From the blank before the hour to the end: clock, the year of \<open>isoc\<close>, the tests of the fields and the time.\<close>

definition clock_and_time :: "string \<Rightarrow> time_fmt \<Rightarrow> int \<Rightarrow> int \<Rightarrow> int \<Rightarrow> nat \<Rightarrow> int reading" where
  "clock_and_time v fmt month day year p =
     bindo (clock_at v p) (\<lambda>(hour, min, sec).
       bindo (if fmt = isoc then bindo (must_be v (p + 9) (CHR '' '')) (\<lambda>_. four_digits v (p + 10)) else Inr (Some year)) (\<lambda>year.
         if hour > 23 \<or> min > 59 \<or> sec > 59 then Inr None
         else if \<not> date_ok day month year then Inr None
         else Inr (Some (wrap64 (gauss year month day * 86400 + hour * 3600 + min * 60 + sec)))))"

definition month_and_time :: "string \<Rightarrow> time_fmt \<Rightarrow> int \<Rightarrow> nat \<Rightarrow> int reading" where
  "month_and_time v fmt day p =
     bindo (month_at v p) (\<lambda>month.
       bindo (day_year_at v fmt day (p + 3)) (\<lambda>(day, year, p). clock_and_time v fmt month day year p))"

definition ngx_http_parse_time :: "string \<Rightarrow> int c_result" where
  "ngx_http_parse_time v =
     (let (p, fmt) = weekday_end 0 v; p = skip_blanks (p + 1) (drop (p + 1) v) in
      bindr (if int (length v) - int p < 18 then Inr None
        else bindo (if fmt \<noteq> isoc then day_before_month v p else Inr (Some (isoc, 0, p))) (\<lambda>(fmt, day, p). month_and_time v fmt day p))
        (\<lambda>t. case t of None \<Rightarrow> Inr NGX_ERROR | Some t \<Rightarrow> Inr t))"

section \<open>The calendar\<close>

definition leap_year :: "int \<Rightarrow> bool" where
  "leap_year y \<longleftrightarrow> y mod 4 = 0 \<and> (y mod 100 \<noteq> 0 \<or> y mod 400 = 0)"

definition month_len :: "int \<Rightarrow> int \<Rightarrow> int" where
  "month_len y m = (if m = 2 \<and> leap_year y then 29 else mday ! nat (m - 1))"

definition next_day :: "int \<times> int \<times> int \<Rightarrow> int \<times> int \<times> int" where
  "next_day ymd =
     (let (y, m, d) = ymd in
      if d < month_len y m then (y, m, d + 1) else if m < 12 then (y, m + 1, 1) else (y + 1, 1, 1))"

definition calendar :: "nat \<Rightarrow> int \<times> int \<times> int" where
  "calendar k = (next_day ^^ k) (1970, 1, 1)"

definition valid_date :: "int \<times> int \<times> int \<Rightarrow> bool" where
  "valid_date ymd \<longleftrightarrow> (let (y, m, d) = ymd in 1970 \<le> y \<and> 1 \<le> m \<and> m \<le> 12 \<and> 1 \<le> d \<and> d \<le> month_len y m)"

text \<open>Days before a year that starts in March, since the first of March of 1 BC; \<open>gauss\<close> counts from 1970.\<close>

definition march_days :: "int \<Rightarrow> int" where
  "march_days y = 365 * y + y div 4 - y div 100 + y div 400"

lemma div_Suc: "0 < k \<Longrightarrow> (y + 1) div k = y div k + (if (y + 1) mod k = 0 then 1 else 0)" for y k :: int
proof -
  assume k: "0 < k"
  have "(y + 1) div k = y div k + (if (y + 1) mod k = 0 then 1 else 0)" if "y = k * q + r" "0 \<le> r" "r < k" for q r
  proof (cases "r + 1 = k")
    case True
    then have "y + 1 = k * (q + 1)" using that(1) by (simp add: algebra_simps)
    moreover have "y div k = q" using that k by (simp add: int_div_pos_eq)
    ultimately show ?thesis using k by simp
  next
    case False
    then have "y div k = q" "(y + 1) div k = q" "(y + 1) mod k = r + 1" using that k
      by (auto simp: int_div_pos_eq int_mod_pos_eq add.assoc)
    then show ?thesis using that(2) by simp
  qed
  from this [of "y div k" "y mod k"] show ?thesis using k by simp
qed

lemma leap_mods: "y mod 400 = 0 \<Longrightarrow> y mod 100 = 0" "y mod 100 = 0 \<Longrightarrow> y mod 4 = 0" for y :: int
  using dvd_trans [of 100 400 y] dvd_trans [of 4 100 y] by (simp_all add: mod_eq_0_iff_dvd)

lemma march_days_Suc: "march_days (y + 1) = march_days y + 365 + (if leap_year (y + 1) then 1 else 0)"
proof -
  have "march_days (y + 1) = 365 * (y + 1) + (y div 4 + (if (y + 1) mod 4 = 0 then 1 else 0))
      - (y div 100 + (if (y + 1) mod 100 = 0 then 1 else 0)) + (y div 400 + (if (y + 1) mod 400 = 0 then 1 else 0))"
    by (simp only: march_days_def div_Suc [of 4 y] div_Suc [of 100 y] div_Suc [of 400 y] zero_less_numeral)
  moreover define l4 l100 l400 where "l4 \<longleftrightarrow> (y + 1) mod 4 = 0" and "l100 \<longleftrightarrow> (y + 1) mod 100 = 0" and "l400 \<longleftrightarrow> (y + 1) mod 400 = 0"
  moreover have "l400 \<Longrightarrow> l100" "l100 \<Longrightarrow> l4" unfolding l4_def l100_def l400_def by (rule leap_mods; simp)+
  ultimately show ?thesis
    unfolding march_days_def [of y] leap_year_def l4_def [symmetric] l100_def [symmetric] l400_def [symmetric]
    by (cases l4; cases l100; cases l400) simp_all
qed

lemma gregorian_bounds:
  fixes y a b q :: int
  assumes "0 \<le> y - 100 * a" "y - 100 * a \<le> 99" "0 \<le> a - 4 * b" "a - 4 * b \<le> 3" "0 \<le> y - 4 * q" "y - 4 * q \<le> 3"
  shows "146097 * y \<le> (365 * y + q - a + b + 2) * 400 \<and> (365 * y + q - a + b + 1) * 400 < 146097 * (y + 1)"
proof -
  have "(365 * y + q - a + b + 2) * 400 = 146097 * y + 3 * (y - 100 * a) - 100 * (a - 4 * b) - 100 * (y - 4 * q) + 800"
    "(365 * y + q - a + b + 1) * 400 = 146097 * y + 3 * (y - 100 * a) - 100 * (a - 4 * b) - 100 * (y - 4 * q) + 400"
    by (simp_all add: algebra_simps)
  then show ?thesis using assms by simp
qed

lemma march_days_bounds: "146097 * y \<le> (march_days y + 2) * 400 \<and> (march_days y + 1) * 400 < 146097 * (y + 1)"
proof -
  have "y div 400 = y div 100 div 4" using zdiv_zmult2_eq [of 4 y 100] by simp
  moreover have "0 \<le> x - n * (x div n) \<and> x - n * (x div n) \<le> n - 1" if "0 < n" for x n :: int
    using that by (simp add: minus_mult_div_eq_mod)
  ultimately show ?thesis
    using gregorian_bounds [of y "y div 100" "y div 100 div 4" "y div 4"] by (simp add: march_days_def)
qed

lemma div_between: "k * a \<le> x \<Longrightarrow> x < k * (a + 2) \<Longrightarrow> 0 < k \<Longrightarrow> x div k = a \<or> x div k = a + 1" for x k a :: int
  using int_div_pos_eq [of x k a "x - k * a"] int_div_pos_eq [of x k "a + 1" "x - k * (a + 1)"]
  by (cases "x < k * (a + 1)") (auto simp: algebra_simps)

text \<open>The year of a day, in both cases of the correction.\<close>

definition march_len :: "int \<Rightarrow> int" where
  "march_len y = 365 + (if leap_year (y + 1) then 1 else 0)"

lemma gm_year_eq:
  assumes "0 \<le> y" "y < 2147483648" "0 \<le> d" "d < march_len y"
  shows "gm_year (march_days y + d) = (y, d)"
proof -
  let ?n = "march_days y + d"
  have len: "march_len y \<le> 366" by (simp add: march_len_def)
  have suc: "march_days (y + 1) = march_days y + march_len y" using march_days_Suc [of y] by (simp add: march_len_def)
  have b: "146097 * y \<le> (march_days y + 2) * 400" "(march_days (y + 1) + 1) * 400 < 146097 * (y + 2)"
    using march_days_bounds [of y] march_days_bounds [of "y + 1"] by simp_all
  have pos: "0 \<le> march_days y" using b(1) assms(1) by (cases "y = 0") (simp_all add: march_days_def [of 0])
  have big: "march_days y < 146097 * 2147483649" using march_days_bounds [of y] assms(2) by simp
  have u: "U (U (?n + 2) * 400) = (?n + 2) * 400" using pos big assms(3,4) len by (simp add: U_def)
  define Y where "Y = (?n + 2) * 400 div 146097"
  have "146097 * y \<le> (?n + 2) * 400" "(?n + 2) * 400 < 146097 * (y + 2)" using b suc assms(3,4) by simp_all
  then have Y: "Y = y \<or> Y = y + 1" unfolding Y_def by (intro div_between) simp_all
  have w: "wrap64 x = x" if "- 400 < x" "x < 400" for x using that by (simp add: wrap64_id is_int64_def)
  have c: "365 * 400 + 100 - 4 + 1 = (146097 :: int)" by simp
  have eq: "gm_year ?n = (let yday = wrap64 (?n - march_days Y); leap = (if leap_year Y then 1 else 0)
      in if yday < 0 then (U (Y - 1), wrap64 (365 + leap + yday)) else (Y, yday))"
    unfolding gm_year_def Let_def c u Y_def [symmetric] march_days_def [of Y] leap_year_def [of Y] by (rule refl)
  show ?thesis
  proof (cases "Y = y")
    case True
    then show ?thesis using assms(3,4) len by (simp add: eq Let_def w)
  next
    case False
    then have "Y = y + 1" "?n - march_days Y = d - march_len y" using Y suc by simp_all
    then show ?thesis using assms len unfolding eq Let_def by (simp add: w march_len_def U_def split: if_splits)
  qed
qed

text \<open>Months counted from March, and the day in the year.\<close>

definition march_month :: "int \<Rightarrow> int" where
  "march_month m = (if m \<le> 2 then m + 10 else m - 2)"

definition march_year :: "int \<Rightarrow> int \<Rightarrow> int" where
  "march_year y m = (if m \<le> 2 then y - 1 else y)"

definition march_yday :: "int \<Rightarrow> int \<Rightarrow> int" where
  "march_yday m d = 367 * march_month m div 12 - 30 + d - 1"

definition longest :: "int \<Rightarrow> int" where
  "longest m = (if m = 2 then 29 else mday ! nat (m - 1))"

lemma div_is: "k * a \<le> x \<Longrightarrow> x < k * (a + 1) \<Longrightarrow> 0 < k \<Longrightarrow> x div k = a" for x k a :: int
  using int_div_pos_eq [of x k a "x - k * a"] by (simp add: algebra_simps)

lemma month_cases: "1 \<le> m \<Longrightarrow> m \<le> 12 \<Longrightarrow> m \<in> {1, 2, 3, 4, 5, 6, 7, 8, 9, 10, 11, 12}" for m :: int
  unfolding insert_iff empty_iff by presburger

lemma march_yday_month:
  assumes "1 \<le> m" "m \<le> 12" "1 \<le> d" "d \<le> longest m"
  shows "(march_yday m d + 31) * 10 div 306 = march_month m \<and> (306 \<le> march_yday m d \<longleftrightarrow> m \<le> 2) \<and>
    0 \<le> march_yday m d \<and> march_yday m d \<le> (if m = 2 \<and> d = 29 then 365 else 364)"
  using month_cases [OF assms(1,2)] assms(3,4)
  by (elim insertE emptyE; simp add: march_yday_def march_month_def longest_def mday_def div_is)

lemma longest_le: "1 \<le> m \<Longrightarrow> m \<le> 12 \<Longrightarrow> longest m \<le> 31"
  using month_cases [of m] by (auto simp: longest_def mday_def)

lemma small_int: "\<bar>x\<bar> < 2147483648 \<Longrightarrow> wrap64 x = x" "0 \<le> x \<Longrightarrow> x < 4294967296 \<Longrightarrow> U x = x"
  by (auto simp: is_int64_def U_def intro!: wrap64_id)

lemma gm_date_eq:
  assumes "1 \<le> m" "m \<le> 12" "1 \<le> d" "d \<le> longest m" "0 < y" "y < 2147483648"
  shows "gm_date (march_year y m, march_yday m d) = (y, m, d)"
proof -
  note t = march_yday_month [OF assms(1-4)]
  let ?yd = "march_yday m d"
  have b: "0 \<le> ?yd" "?yd \<le> 365" "1 \<le> march_month m" "march_month m \<le> 12" using t assms(1,2) by (auto simp: march_month_def split: if_splits)
  have mon: "U (wrap64 (wrap64 (?yd + 31) * 10) sdiv 306) = march_month m"
    using t b by (simp add: small_int signed_divide_int_def sgn_if algebra_simps)
  have mday: "U (?yd - (U (367 * march_month m) div 12 - 30) + 1) = d"
    using b assms(3) longest_le [OF assms(1,2)] assms(4) by (simp add: small_int march_yday_def)
  show ?thesis
    unfolding gm_date_def Let_def prod.case mon mday using assms t by (auto simp: small_int march_year_def march_month_def)
qed

text \<open>Days since the first of January 1970.\<close>

definition days_of :: "int \<times> int \<times> int \<Rightarrow> int" where
  "days_of ymd = (let (y, m, d) = ymd in march_days (march_year y m) + march_yday m d - 719468)"

lemma month_len_longest: "1 \<le> m \<Longrightarrow> m \<le> 12 \<Longrightarrow> month_len y m \<le> longest m \<and> 28 \<le> month_len y m"
  using month_cases [of m] by (auto simp: month_len_def longest_def mday_def)

lemma gauss_eq: "0 < y \<Longrightarrow> y < 4294967296 \<Longrightarrow> gauss y (m - 1) d = days_of (y, m, d)"
  by (simp add: gauss_def days_of_def march_days_def march_year_def march_yday_def march_month_def small_int Let_def add.commute)

lemma gm_days_of:
  assumes "valid_date (y, m, d)" "y < 2147483648"
  shows "gm_date (gm_year (days_of (y, m, d) + 719468)) = (y, m, d)"
proof -
  have v: "1970 \<le> y" "1 \<le> m" "m \<le> 12" "1 \<le> d" "d \<le> month_len y m" using assms(1) by (simp_all add: valid_date_def)
  have l: "d \<le> longest m" using month_len_longest [OF v(2,3), of y] v(5) by simp
  note t = march_yday_month [OF v(2-4) l]
  have "march_yday m d < march_len (march_year y m)"
    using t v(5) by (auto simp: march_len_def march_year_def month_len_def mday_def split: if_splits)
  then have "gm_year (march_days (march_year y m) + march_yday m d) = (march_year y m, march_yday m d)"
    using t v(1) assms(2) by (intro gm_year_eq) (auto simp: march_year_def)
  then show ?thesis using gm_date_eq [OF v(2-4) l, of y] v(1) assms(2) by (simp add: days_of_def)
qed

lemma next_month:
  assumes "1 \<le> m" "m < 12"
  shows "days_of (y, m + 1, 1) = days_of (y, m, month_len y m) + 1"
proof -
  have "m \<in> {1, 2, 3, 4, 5, 6, 7, 8, 9, 10, 11, 12}" using month_cases [of m] assms by simp
  moreover have "march_days y = march_days (y - 1) + 365 + (if leap_year y then 1 else 0)" using march_days_Suc [of "y - 1"] by simp
  ultimately show ?thesis using assms(2)
    by (elim insertE emptyE; simp add: days_of_def march_year_def march_yday_def march_month_def month_len_def mday_def)
qed

lemma next_day_days:
  assumes "valid_date ymd"
  shows "valid_date (next_day ymd) \<and> days_of (next_day ymd) = days_of ymd + 1"
proof -
  obtain y m d where ymd: "ymd = (y, m, d)" by (metis prod_cases3)
  have v: "1970 \<le> y" "1 \<le> m" "m \<le> 12" "1 \<le> d" "d \<le> month_len y m" using assms by (simp_all add: valid_date_def ymd)
  consider (day) "d < month_len y m" | (month) "d = month_len y m" "m < 12" | (year) "d = month_len y m" "m = 12" using v by linarith
  then show ?thesis
  proof cases
    case day
    then show ?thesis using v by (simp add: ymd next_day_def valid_date_def days_of_def march_yday_def)
  next
    case month
    then show ?thesis using v next_month [of m y] month_len_longest [of "m + 1" y] by (simp add: ymd next_day_def valid_date_def)
  next
    case year
    then show ?thesis using v month_len_longest [of 1 "y + 1"]
      by (simp add: ymd next_day_def valid_date_def days_of_def march_year_def march_yday_def march_month_def month_len_def mday_def)
  qed
qed

lemma calendar_days: "valid_date (calendar k) \<and> days_of (calendar k) = int k"
proof (induction k)
  case 0
  show ?case by (simp add: calendar_def valid_date_def days_of_def month_len_def mday_def march_year_def march_yday_def march_month_def march_days_def)
next
  case (Suc k)
  have "calendar (Suc k) = next_day (calendar k)" by (simp add: calendar_def)
  then show ?case using next_day_days [of "calendar k"] Suc.IH by simp
qed

section \<open>Properties of \<open>ngx_gmtime\<close>\<close>

lemma calendar_year:
  assumes "calendar k = (y, m, d)" "int k < 500000000000"
  shows "1970 \<le> y \<and> y < 2147483648"
proof -
  have v: "valid_date (y, m, d)" "days_of (y, m, d) = int k" using calendar_days [of k] assms(1) by simp_all
  then have r: "1970 \<le> y" "1 \<le> m" "m \<le> 12" "1 \<le> d" "d \<le> longest m"
    using month_len_longest [of m y] by (auto simp: valid_date_def)
  have "146097 * march_year y m \<le> (int k + 719468 + 2) * 400"
    using march_days_bounds [of "march_year y m"] march_yday_month [OF r(2-5)] v(2) by (simp add: days_of_def)
  moreover have "y \<le> march_year y m + 1" by (simp add: march_year_def)
  ultimately show ?thesis using r(1) assms(2) by simp
qed

lemma mod_div_parts: "0 < a \<Longrightarrow> 0 < b \<Longrightarrow> t mod (a * b) div a = t div a mod b" for a b t :: int
proof -
  assume ab: "0 < a" "0 < b"
  have "t mod (a * b) = a * (t div a mod b) + t mod a" using zmod_zmult2_eq [of b t a] ab by simp
  then show ?thesis using ab by simp
qed

lemma clock_parts:
  "t mod 86400 div 3600 = t div 3600 mod 24" "t mod 86400 mod 3600 div 60 = t div 60 mod 60" "t mod 86400 mod 3600 mod 60 = t mod 60"
  for t :: int
proof -
  have n: "86400 = (3600 :: int) * 24" "3600 = (60 :: int) * 60" by simp_all
  have m: "t mod 86400 mod 3600 = t mod 3600" by (rule mod_mod_cancel) simp
  show "t mod 86400 div 3600 = t div 3600 mod 24" unfolding n(1) by (rule mod_div_parts) simp_all
  show "t mod 86400 mod 3600 div 60 = t div 60 mod 60" unfolding m unfolding n(2) by (rule mod_div_parts) simp_all
  show "t mod 86400 mod 3600 mod 60 = t mod 60" unfolding m by (rule mod_mod_cancel) simp
qed

lemma clock_sum: "t div 86400 * 86400 + t div 3600 mod 24 * 3600 + t div 60 mod 60 * 60 + t mod 60 = t" for t :: int
proof -
  have "t = t div 86400 * 86400 + t mod 86400" by simp
  moreover have "t mod 86400 = t mod 86400 div 3600 * 3600 + t mod 86400 mod 3600" by simp
  moreover have "t mod 86400 mod 3600 = t mod 86400 mod 3600 div 60 * 60 + t mod 86400 mod 3600 mod 60" by simp
  ultimately show ?thesis unfolding clock_parts by linarith
qed

lemma gmtime_eq:
  assumes "0 \<le> t" "t < 2 ^ 55" "calendar (nat (t div 86400)) = (y, m, d)"
  shows "ngx_gmtime t = \<lparr>tm_sec = t mod 60, tm_min = t div 60 mod 60, tm_hour = t div 3600 mod 24, tm_mday = d, tm_mon = m,
    tm_year = y, tm_wday = (t div 86400 + 4) mod 7\<rparr>"
proof -
  let ?k = "nat (t div 86400)"
  have k: "int ?k = t div 86400" "int ?k < 500000000000" "0 \<le> t div 86400" using assms(1,2) by (simp_all add: pos_imp_zdiv_nonneg_iff)
  have v: "valid_date (y, m, d)" "days_of (y, m, d) = t div 86400" using calendar_days [of ?k] assms(3) k(1) by simp_all
  note y = calendar_year [OF assms(3) k(2)]
  have md: "0 \<le> m" "m \<le> 12" "0 \<le> d" "d \<le> 31" using v(1) month_len_longest [of m y] longest_le [of m] by (auto simp: valid_date_def)
  have days: "U (t div 86400 - (31 + 28) + 719527) = days_of (y, m, d) + 719468" using k v(2) by (simp add: U_def)
  have w: "U t = t" "U (4 + t div 86400) = t div 86400 + 4" using assms(1,2) k by (simp_all add: U_def)
  have wrap: "wrap32 x = x" if "0 \<le> x" "x < 2147483648" for x using that by (simp add: wrap32_id is_int32_def)
  have small: "x mod n < 2147483648 \<and> 0 \<le> x mod n" if "n \<in> {7, 24, 60}" for x n :: int using that by (auto intro: less_trans [OF pos_mod_bound])
  show ?thesis
    unfolding ngx_gmtime_def Let_def w days gm_days_of [OF v(1) conjunct2 [OF y]] prod.case clock_parts
    using y md small by (simp add: wrap)
qed

section \<open>Text\<close>

text \<open>A time as two digits, and a year as four.\<close>

definition two :: "int \<Rightarrow> string" where
  "two n = [digit_char (nat (n div 10)), digit_char (nat (n mod 10))]"

definition four :: "int \<Rightarrow> string" where
  "four n = [digit_char (nat (n div 1000)), digit_char (nat (n div 100 mod 10)), digit_char (nat (n div 10 mod 10)), digit_char (nat (n mod 10))]"

lemma char_zero: "char_of (48 :: nat) = CHR ''0''"
  by code_simp

lemma two_eq: "0 \<le> n \<Longrightarrow> n < 100 \<Longrightarrow> pad0 2 (nat_dec (nat n)) = two n"
  by (cases "n < 10") (auto simp: two_def pad0_def nat_dec.simps [of "nat n"] nat_dec.simps [of "nat n div 10"] nat_div_distrib nat_mod_distrib
      numeral_2_eq_2 digit_char_def char_zero)

lemma four_eq: "1000 \<le> n \<Longrightarrow> n < 10000 \<Longrightarrow> nat_dec (nat n) = four n"
proof -
  assume n: "1000 \<le> n" "n < 10000"
  let ?n = "nat n"
  have d: "\<not> ?n < 10" "\<not> ?n div 10 < 10" "\<not> ?n div 10 div 10 < 10" "?n div 10 div 10 div 10 < 10" using n by simp_all
  have "nat_dec ?n = [digit_char (?n div 10 div 10 div 10), digit_char (?n div 10 div 10 mod 10), digit_char (?n div 10 mod 10), digit_char (?n mod 10)]"
    by (simp add: nat_dec.simps [of ?n] nat_dec.simps [of "?n div 10"] nat_dec.simps [of "?n div 10 div 10"] nat_dec.simps [of "?n div 10 div 10 div 10"] d
        del: div_mult2_eq)
  moreover have "?n div 10 div 10 div 10 = nat (n div 1000)" "?n div 10 div 10 mod 10 = nat (n div 100 mod 10)" "?n div 10 mod 10 = nat (n div 10 mod 10)" "?n mod 10 = nat (n mod 10)"
    using n by (simp_all add: nat_div_distrib nat_mod_distrib div_mult2_eq [symmetric])
  ultimately show ?thesis by (simp add: four_def)
qed

definition http_text :: "int \<Rightarrow> int \<times> int \<times> int \<Rightarrow> int \<Rightarrow> int \<Rightarrow> int \<Rightarrow> string" where
  "http_text w ymd h i s = (let (y, m, d) = ymd in
     week ! nat w @ '', '' @ two d @ '' '' @ months ! nat (m - 1) @ '' '' @ four y @ '' '' @ two h @ '':'' @ two i @ '':'' @ two s @ '' GMT'')"

lemma put_two: "0 \<le> x \<Longrightarrow> x < 100 \<Longrightarrow> ngx_sprintf_num None (u64_of x) (CHR ''0'') Decimal 2 = Inr (two x)"
  using two_eq [of x] by (simp add: sprintf_num_dec u64_of_def pad0_def nat_less_iff)

lemma put_four: "1000 \<le> x \<Longrightarrow> x < 10000 \<Longrightarrow> ngx_sprintf_num None (u64_of x) (CHR '' '') Decimal 4 = Inr (four x)"
  using four_eq [of x] by (simp add: sprintf_num_dec u64_of_def nat_less_iff four_def)

lemma names_plain: "0 \<le> w \<Longrightarrow> w < 7 \<Longrightarrow> c_str (week ! nat w) = week ! nat w" "1 \<le> m \<Longrightarrow> m \<le> 12 \<Longrightarrow> c_str (months ! nat (m - 1)) = months ! nat (m - 1)"
proof -
  have l: "list_all (\<lambda>s. c_str s = s) week" "list_all (\<lambda>s. c_str s = s) months" "length week = 7" "length months = 12" by code_simp+
  show "0 \<le> w \<Longrightarrow> w < 7 \<Longrightarrow> c_str (week ! nat w) = week ! nat w"
    "1 \<le> m \<Longrightarrow> m \<le> 12 \<Longrightarrow> c_str (months ! nat (m - 1)) = months ! nat (m - 1)" using l by (simp_all add: list_all_length)
qed

lemma sprintf_http:
  assumes "0 \<le> w" "w < 7" "1 \<le> m" "m \<le> 12" "1 \<le> d" "d \<le> 31" "1000 \<le> y" "y < 10000" "0 \<le> h" "h < 24" "0 \<le> i" "i < 60" "0 \<le> s" "s < 60"
  shows "ngx_sprintf ''%s, %02d %s %4d %02d:%02d:%02d GMT'' [Va_chars (week ! nat w), Va_int d, Va_chars (months ! nat (m - 1)), Va_int y,
      Va_int h, Va_int i, Va_int s] = Inr (http_text w (y, m, d) h i s)"
proof -
  have w: "wrap32 x = x" if "0 \<le> x" "x < 10000" for x using that by (simp add: wrap32_id is_int32_def)
  show ?thesis
    using assms by (simp add: printf_eval w names_plain put_two put_two [unfolded numeral_2_eq_2] put_four http_text_def)
qed

section \<open>Reading what was printed\<close>

lemma bindo_simps [simp]: "bindo (Inr (Some x)) f = f x" "bindo (Inr None) f = Inr None" "bindo (Inl e) f = Inl e"
  by (simp_all add: bindo_def)

lemma byte_at_append [simp]: "byte_at (a @ c # b) (length a) = Inr c"
  by (simp add: byte_at_def)

lemma digit_at_char:
  "p < length v \<Longrightarrow> v ! p = digit_char (nat k) \<Longrightarrow> 0 \<le> k \<Longrightarrow> k < 10 \<Longrightarrow> digit_at v p = Inr (Some k)"
  by (simp add: digit_at_def byte_at_def digit_char_is_digit digit_val_digit_char)

lemma two_digits_at:
  assumes "v = a @ two n @ b" "p = length a" "0 \<le> n" "n < 100"
  shows "two_digits v p = Inr (Some n)"
proof -
  have "digit_at v p = Inr (Some (n div 10))" "digit_at v (p + 1) = Inr (Some (n mod 10))"
    by (rule digit_at_char; use assms in \<open>simp add: two_def nth_append pos_imp_zdiv_nonneg_iff\<close>)+
  then show ?thesis using assms(3) by (simp add: two_digits_def)
qed

lemma decimal_digits4: "n = n div 1000 * 1000 + n div 100 mod 10 * 100 + n div 10 mod 10 * 10 + n mod 10" for n :: int
proof -
  have "n div 100 = n div 10 div 10" "n div 1000 = n div 10 div 10 div 10"
    using zdiv_zmult2_eq [of 10 n 10] zdiv_zmult2_eq [of 10 n 100] by simp_all
  moreover have "x = x div 10 * 10 + x mod 10" for x :: int by simp
  ultimately show ?thesis by (smt (verit))
qed

lemma four_digits_of:
  assumes "v = a @ [digit_char (nat i), digit_char (nat j), digit_char (nat k), digit_char (nat l)] @ b" "p = length a"
    "0 \<le> i" "i < 10" "0 \<le> j" "j < 10" "0 \<le> k" "k < 10" "0 \<le> l" "l < 10"
  shows "four_digits v p = Inr (Some (i * 1000 + j * 100 + k * 10 + l))"
proof -
  have "digit_at v p = Inr (Some i)" "digit_at v (p + 1) = Inr (Some j)" "digit_at v (p + 2) = Inr (Some k)" "digit_at v (p + 3) = Inr (Some l)"
    by (rule digit_at_char; use assms in \<open>simp add: nth_append\<close>)+
  then show ?thesis by (simp add: four_digits_def)
qed

lemma four_digits_at:
  assumes "v = a @ four n @ b" "p = length a" "0 \<le> n" "n < 10000"
  shows "four_digits v p = Inr (Some n)"
proof -
  have "0 \<le> n div 1000" "n div 1000 < 10" using assms(3,4) by (simp_all add: pos_imp_zdiv_nonneg_iff)
  then have "four_digits v p = Inr (Some (n div 1000 * 1000 + n div 100 mod 10 * 100 + n div 10 mod 10 * 10 + n mod 10))"
    using assms(1,2) unfolding four_def by (intro four_digits_of) simp_all
  then show ?thesis by (simp only: decimal_digits4 [of n, symmetric])
qed

lemma month_at_name:
  assumes "v = a @ months ! nat (m - 1) @ b" "p = length a" "1 \<le> m" "m \<le> 12"
  shows "month_at v p = Inr (Some (m - 1))"
  using month_cases [OF assms(3,4)] unfolding assms(1,2)
  by (elim insertE emptyE; simp add: months_def month_at_def byte_at_def nth_append)

lemma weekday_end_name:
  "\<forall>c\<in>set a. c \<noteq> CHR '','' \<and> c \<noteq> CHR '' '' \<Longrightarrow> weekday_end p (a @ CHR '','' # b) = (p + length a, fmt_no)"
  by (induction a arbitrary: p) auto

lemma week_names: "0 \<le> w \<Longrightarrow> w < 7 \<Longrightarrow> length (week ! nat w) = 3 \<and> (\<forall>c\<in>set (week ! nat w). c \<noteq> CHR '','' \<and> c \<noteq> CHR '' '')"
proof -
  have "list_all (\<lambda>s. length s = 3 \<and> (\<forall>c\<in>set s. c \<noteq> CHR '','' \<and> c \<noteq> CHR '' '')) week" "length week = 7" by code_simp+
  moreover assume "0 \<le> w" "w < 7"
  then have "nat w < 7" by simp
  ultimately show ?thesis unfolding list_all_length by metis
qed

lemma month_names: "1 \<le> m \<Longrightarrow> m \<le> 12 \<Longrightarrow> length (months ! nat (m - 1)) = 3"
proof -
  have "list_all (\<lambda>s. length s = 3) months" "length months = 12" by code_simp+
  then show "1 \<le> m \<Longrightarrow> m \<le> 12 \<Longrightarrow> ?thesis" by (simp add: list_all_length)
qed

lemma two_length [simp]: "length (two n) = 2"
  by (simp add: two_def)

lemma four_length [simp]: "length (four n) = 4"
  by (simp add: four_def)

lemma must_be_at: "v = a @ c # b \<Longrightarrow> p = length a \<Longrightarrow> must_be v p c = Inr (Some ())"
  by (simp add: must_be_def)

lemma clock_at_text:
  assumes "v = a @ '' '' @ two h @ '':'' @ two i @ '':'' @ two s @ b" "p = length a"
    "0 \<le> h" "h < 100" "0 \<le> i" "i < 100" "0 \<le> s" "s < 100"
  shows "clock_at v p = Inr (Some (h, i, s))"
proof -
  have "must_be v p (CHR '' '') = Inr (Some ())" "must_be v (p + 3) (CHR '':'') = Inr (Some ())" "must_be v (p + 6) (CHR '':'') = Inr (Some ())"
    using must_be_at [of v a "CHR '' ''"] must_be_at [of v "a @ '' '' @ two h" "CHR '':''"]
      must_be_at [of v "a @ '' '' @ two h @ '':'' @ two i" "CHR '':''"] assms(1,2) by simp_all
  moreover have "two_digits v (p + 1) = Inr (Some h)" "two_digits v (p + 4) = Inr (Some i)" "two_digits v (p + 7) = Inr (Some s)"
    using two_digits_at [of v "a @ '' ''" h] two_digits_at [of v "a @ '' '' @ two h @ '':''" i]
      two_digits_at [of v "a @ '' '' @ two h @ '':'' @ two i @ '':''" s] assms by simp_all
  ultimately show ?thesis by (simp add: clock_at_def)
qed

lemma parse_http_text:
  assumes "0 \<le> w" "w < 7" "1 \<le> m" "m \<le> 12" "1 \<le> d" "d \<le> 31" "0 \<le> y" "y < 10000" "0 \<le> h" "h < 24" "0 \<le> i" "i < 60" "0 \<le> s" "s < 60"
  shows "ngx_http_parse_time (http_text w (y, m, d) h i s) =
    Inr (if date_ok d (m - 1) y then wrap64 (gauss y (m - 1) d * 86400 + h * 3600 + i * 60 + s) else NGX_ERROR)"
proof -
  define W where "W = week ! nat w" define M where "M = months ! nat (m - 1)"
  define C where "C = '' '' @ two h @ '':'' @ two i @ '':'' @ two s @ '' GMT''"
  define v where "v = W @ '', '' @ two d @ '' '' @ M @ '' '' @ four y @ C"
  have v: "http_text w (y, m, d) h i s = v" by (simp add: http_text_def v_def C_def W_def M_def)
  have len: "length W = 3" "length M = 3" "length C = 13" using week_names [OF assms(1,2)] month_names [OF assms(3,4)] by (simp_all add: W_def M_def C_def)
  have wd: "weekday_end 0 v = (3, fmt_no)"
    using weekday_end_name [of W 0] week_names [OF assms(1,2)] by (simp add: v_def W_def [symmetric] len)
  have "is_digit (hd (two d))" using assms(5,6) by (simp add: two_def digit_char_is_digit)
  then have "hd (two d) \<noteq> CHR '' ''" by (auto simp: is_digit_def less_eq_char_def)
  moreover have "drop 4 v = CHR '' '' # two d @ '' '' @ M @ '' '' @ four y @ C" by (simp add: v_def len)
  ultimately have sk: "skip_blanks 4 (drop 4 v) = 5" by (simp add: two_def)
  have n: "length v = 29" by (simp add: v_def len)
  have day: "day_before_month v 5 = Inr (Some (rfc822, d, 8))"
    using two_digits_at [of v "W @ '', ''" d "'' '' @ M @ '' '' @ four y @ C" 5] assms(5,6) n byte_at_append [of "W @ '', '' @ two d" "CHR '' ''" "M @ '' '' @ four y @ C"]
    by (simp add: day_before_month_def v_def len)
  have mon: "month_at v 8 = Inr (Some (m - 1))"
    using month_at_name [of v "W @ '', '' @ two d @ '' ''" m "'' '' @ four y @ C" 8] assms(3,4) by (simp add: v_def len M_def)
  have year: "day_year_at v rfc822 d 11 = Inr (Some (d, y, 16))"
    using must_be_at [of v "W @ '', '' @ two d @ '' '' @ M" "CHR '' ''" "four y @ C" 11] four_digits_at [of v "W @ '', '' @ two d @ '' '' @ M @ '' ''" y C 12] assms(7,8)
    by (simp add: day_year_at_def v_def len)
  have clock: "clock_at v 16 = Inr (Some (h, i, s))"
    using clock_at_text [of v "W @ '', '' @ two d @ '' '' @ M @ '' '' @ four y" h i s "'' GMT''" 16] assms(9-14) by (simp add: v_def len C_def)
  show ?thesis
    unfolding v using assms(10,12,14) by (simp add: ngx_http_parse_time_def month_and_time_def clock_and_time_def wd sk n day mon year clock)
qed

lemma valid_date_ok: "valid_date (y, m, d) \<Longrightarrow> date_ok d (m - 1) y"
  by (cases "m = 2"; cases "d = 29") (auto simp: valid_date_def date_ok_def month_len_def leap_year_def mday_def split: if_splits)

text \<open>The bytes that \<open>ngx_http_parse_time\<close> looks at are within the value.\<close>

lemma no_fault_bindr: "(\<exists>x. m = Inr x) \<Longrightarrow> (\<And>x. m = Inr x \<Longrightarrow> \<exists>y. f x = Inr y) \<Longrightarrow> \<exists>y. bindr m f = Inr y"
  by auto

lemma no_fault_bindo: "(\<exists>x. m = Inr x) \<Longrightarrow> (\<And>x. m = Inr (Some x) \<Longrightarrow> \<exists>y. f x = Inr y) \<Longrightarrow> \<exists>y. bindo m f = Inr y"
  by (auto simp: bindo_def split: option.split)

lemma byte_at_ok: "p < length v \<Longrightarrow> \<exists>x. byte_at v p = Inr x"
  by (simp add: byte_at_def)

lemma digit_at_ok: "p < length v \<Longrightarrow> \<exists>x. digit_at v p = Inr x"
  by (simp add: digit_at_def byte_at_def)

lemma two_digits_ok: "p + 1 < length v \<Longrightarrow> \<exists>x. two_digits v p = Inr x"
  unfolding two_digits_def by (intro no_fault_bindo digit_at_ok) auto

lemma four_digits_ok: "p + 3 < length v \<Longrightarrow> \<exists>x. four_digits v p = Inr x"
  unfolding four_digits_def by (intro no_fault_bindo digit_at_ok) auto

lemma must_be_ok: "p < length v \<Longrightarrow> \<exists>x. must_be v p c = Inr x"
  by (simp add: must_be_def byte_at_def)

lemma month_at_ok: "p + 2 < length v \<Longrightarrow> \<exists>x. month_at v p = Inr x"
  by (simp add: month_at_def byte_at_def)

lemma clock_at_ok: "p + 8 < length v \<Longrightarrow> \<exists>x. clock_at v p = Inr x"
  unfolding clock_at_def by (intro no_fault_bindo must_be_ok two_digits_ok) auto

lemma bindo_SomeE:
  assumes "bindo m f = Inr (Some y)"
  obtains x where "m = Inr (Some x)" "f x = Inr (Some y)"
  using assms by (auto simp: bindo_def bindr_Inr_iff split: option.splits)

lemma day_before_month_ok: "p + 2 < length v \<Longrightarrow> \<exists>x. day_before_month v p = Inr x"
  unfolding day_before_month_def by (intro no_fault_bindo no_fault_bindr two_digits_ok byte_at_ok) auto

lemma day_before_month_fmt:
  assumes "day_before_month v p = Inr (Some (fmt, day, q))"
  shows "q = p + 3 \<and> (fmt = rfc822 \<and> p + 20 \<le> length v \<or> fmt = rfc850)"
proof -
  from assms obtain a where "bindr (byte_at v (p + 2)) (\<lambda>c.
      if c = CHR '' '' then (if int (length v) - int (p + 2) < 18 then Inr None else Inr (Some (rfc822, a, p + 3)))
      else if c = CHR ''-'' then Inr (Some (rfc850, a, p + 3)) else Inr None) = Inr (Some (fmt, day, q))"
    unfolding day_before_month_def by (rule bindo_SomeE)
  then show ?thesis by (auto simp: bindr_Inr_iff split: if_splits)
qed

lemma isoc_day_ok:
  assumes "p + 3 < length v"
  shows "\<exists>x. isoc_day v p = Inr x"
proof -
  have "\<exists>x. bindo (digit_at v q) (\<lambda>d1. bindr (byte_at v (q + 1)) (\<lambda>c2.
      if c2 \<noteq> CHR '' '' then bindo (digit_at v (q + 1)) (\<lambda>d2. Inr (Some (d1 * 10 + d2, q + 2))) else Inr (Some (d1, q + 1)))) = Inr x"
    if "q + 1 < length v" for q
  proof (intro no_fault_bindo no_fault_bindr digit_at_ok byte_at_ok)
    show "\<exists>y. (if c \<noteq> CHR '' '' then bindo (digit_at v (q + 1)) (\<lambda>d2. Inr (Some (d * 10 + d2, q + 2))) else Inr (Some (d, q + 1))) = Inr y" for c d
      using no_fault_bindo [OF digit_at_ok [OF that], of "\<lambda>d2. Inr (Some (d * 10 + d2, q + 2))"] by simp
  qed (use that in simp_all)
  from this [of "p + 1"] this [of "p + 2"] show ?thesis
    using assms unfolding isoc_day_def Let_def by (intro no_fault_bindr byte_at_ok) simp_all
qed

lemma day_year_ok:
  assumes "fmt = rfc822 \<and> p + 5 \<le> length v \<or> fmt = rfc850 \<and> p + 3 \<le> length v \<or> fmt = isoc \<and> p + 4 \<le> length v"
  shows "\<exists>x. day_year_at v fmt day p = Inr x"
  using assms
proof (elim disjE conjE)
  assume "fmt = rfc822" "p + 5 \<le> length v"
  then show ?thesis unfolding day_year_at_def
    by (simp del: One_nat_def) (intro no_fault_bindo must_be_ok four_digits_ok; simp)
next
  assume "fmt = rfc850" "p + 3 \<le> length v"
  then show ?thesis unfolding day_year_at_def
    by (simp del: One_nat_def) (intro no_fault_bindo must_be_ok two_digits_ok; simp)
next
  assume "fmt = isoc" "p + 4 \<le> length v"
  then show ?thesis unfolding day_year_at_def
    by (simp del: One_nat_def) (intro no_fault_bindo isoc_day_ok; simp split: prod.split)
qed

lemma day_year_place:
  assumes "day_year_at v fmt day p = Inr (Some (day', year, q))"
  shows "(fmt = rfc822 \<longrightarrow> q = p + 5) \<and> (fmt = rfc850 \<longrightarrow> q = p + 3) \<and> (fmt \<noteq> rfc822 \<and> fmt \<noteq> rfc850 \<longrightarrow> q + 14 \<le> length v)"
  using assms unfolding day_year_at_def
  by (cases fmt) (auto elim!: bindo_SomeE split: if_splits)

lemma calendar_year_four_digits:
  assumes "calendar k = (y, m, d)" "int k < 2932897"
  shows "y < 10000"
proof (rule ccontr)
  assume y: "\<not> y < 10000"
  have v: "valid_date (y, m, d)" "days_of (y, m, d) = int k" using calendar_days [of k] assms(1) by simp_all
  then have r: "1 \<le> m" "m \<le> 12" "1 \<le> d" "d \<le> longest m"
    using month_len_longest [of m y] by (auto simp: valid_date_def)
  have "146097 * march_year y m \<le> (int k + 719468 + 2) * 400"
    using march_days_bounds [of "march_year y m"] march_yday_month [OF r] v(2) by (simp add: days_of_def)
  then have "march_year y m \<le> 9999" using assms(2) by simp
  then have m: "m \<le> 2" "march_year y m = 9999" using y by (auto simp: march_year_def split: if_splits)
  have "march_days 9999 = 3652059" by (simp add: march_days_def)
  then have "march_yday m d < 306" using v(2) m(2) assms(2) by (simp add: days_of_def)
  then show False using m(1) march_yday_month [OF r] by simp
qed

text \<open>
  C30. \<open>ngx_gmtime\<close> is the Gregorian calendar: for every time from 1970 on, far beyond year 10000, the fields are the parts of
  the day, the weekday counted from a Thursday, and the date reached from the first of January 1970 one day at a time.
\<close>
theorem gmtime_calendar:
  assumes "0 \<le> t" "t < 2 ^ 55"
  shows "(tm_year (ngx_gmtime t), tm_mon (ngx_gmtime t), tm_mday (ngx_gmtime t)) = calendar (nat (t div 86400)) \<and>
    tm_wday (ngx_gmtime t) = (t div 86400 + 4) mod 7 \<and>
    tm_hour (ngx_gmtime t) = t mod 86400 div 3600 \<and> tm_min (ngx_gmtime t) = t mod 3600 div 60 \<and> tm_sec (ngx_gmtime t) = t mod 60"
proof -
  obtain y m d where c: "calendar (nat (t div 86400)) = (y, m, d)" by (cases "calendar (nat (t div 86400))")
  have "t mod (60 * 60) div 60 = t div 60 mod 60" by (rule mod_div_parts) simp_all
  then have "t mod 3600 div 60 = t div 60 mod 60" by simp
  then show ?thesis unfolding gmtime_eq [OF assms c] c by (simp only: clock_parts ngx_tm.select_convs simp_thms)
qed

theorem gmtime_calendar_witness:
  "(tm_year (ngx_gmtime 5101261), tm_mon (ngx_gmtime 5101261), tm_mday (ngx_gmtime 5101261)) = (1970, 3, 1) \<and>
   tm_wday (ngx_gmtime 5101261) = 0 \<and> tm_hour (ngx_gmtime 5101261) = 1"
proof -
  have "calendar 59 = (1970, 3, 1)" by code_simp
  then show ?thesis using gmtime_calendar [of 5101261] by simp
qed

lemma http_time_prints:
  assumes "0 \<le> t" "t < 253402300800"
  obtains w y m d where "ngx_http_time t = Inr (http_text w (y, m, d) (t div 3600 mod 24) (t div 60 mod 60) (t mod 60))"
    "0 \<le> w" "w < 7" "1 \<le> m" "m \<le> 12" "1 \<le> d" "d \<le> 31" "1000 \<le> y" "y < 10000" "valid_date (y, m, d)" "days_of (y, m, d) = t div 86400"
proof -
  let ?k = "nat (t div 86400)" let ?w = "(t div 86400 + 4) mod 7"
  have k: "int ?k = t div 86400" "int ?k < 2932897" using assms by (simp_all add: pos_imp_zdiv_nonneg_iff)
  obtain y m d where c: "calendar ?k = (y, m, d)" by (cases "calendar ?k")
  have v: "valid_date (y, m, d)" "days_of (y, m, d) = t div 86400" using calendar_days [of ?k] c k(1) by simp_all
  then have b: "1 \<le> m" "m \<le> 12" "1 \<le> d" "d \<le> 31" "1000 \<le> y"
    using month_len_longest [of m y] longest_le [of m] by (auto simp: valid_date_def)
  have y: "y < 10000" using calendar_year_four_digits [OF c k(2)] .
  have w: "0 \<le> ?w" "?w < 7" by simp_all
  have "0 \<le> t div 3600 mod 24" "t div 3600 mod 24 < 24" "0 \<le> t div 60 mod 60" "t div 60 mod 60 < 60" "0 \<le> t mod 60" "t mod 60 < 60" by simp_all
  from sprintf_http [OF w b y this]
  have "ngx_http_time t = Inr (http_text ?w (y, m, d) (t div 3600 mod 24) (t div 60 mod 60) (t mod 60))"
    using gmtime_eq [OF assms(1) _ c] assms(2) by (simp add: ngx_http_time_def)
  from that [OF this w b y v] show ?thesis .
qed

lemma http_text_length: "0 \<le> w \<Longrightarrow> w < 7 \<Longrightarrow> 1 \<le> m \<Longrightarrow> m \<le> 12 \<Longrightarrow> length (http_text w (y, m, d) h i s) = 29"
  using week_names [of w] month_names [of m] by (simp add: http_text_def)

text \<open>
  C31. Up to the end of year 9999 a time printed by \<open>ngx_http_time\<close> has 29 bytes, without a fault, and
  \<open>ngx_http_parse_time\<close> reads the same time back.
\<close>
theorem http_time_round_trip:
  assumes "0 \<le> t" "t < 253402300800"
  shows "\<exists>s. ngx_http_time t = Inr s \<and> length s = 29 \<and> ngx_http_parse_time s = Inr t"
proof -
  define h i s where q: "h = t div 3600 mod 24" "i = t div 60 mod 60" "s = t mod 60"
  obtain w y m d where p: "ngx_http_time t = Inr (http_text w (y, m, d) h i s)"
      "0 \<le> w" "w < 7" "1 \<le> m" "m \<le> 12" "1 \<le> d" "d \<le> 31" "1000 \<le> y" "y < 10000" "valid_date (y, m, d)" "days_of (y, m, d) = t div 86400"
    using http_time_prints [OF assms] unfolding q .
  have r: "0 \<le> h" "h < 24" "0 \<le> i" "i < 60" "0 \<le> s" "s < 60" by (simp_all add: q)
  have "gauss y (m - 1) d = t div 86400" using gauss_eq [of y m d] p(8,9,11) by simp
  moreover have "t div 86400 * 86400 + h * 3600 + i * 60 + s = t" unfolding q by (rule clock_sum)
  moreover have "wrap64 t = t" using assms by (simp add: wrap64_id is_int64_def)
  ultimately have "ngx_http_parse_time (http_text w (y, m, d) h i s) = Inr t"
    using parse_http_text [OF p(2-7) _ p(9) r] p(8) valid_date_ok [OF p(10)] by simp
  then show ?thesis using p(1) http_text_length [OF p(2-5)] by blast
qed

theorem http_time_round_trip_witness: "\<exists>s. ngx_http_time 784111777 = Inr s \<and> length s = 29 \<and> ngx_http_parse_time s = Inr 784111777"
  using http_time_round_trip [of 784111777] by simp

lemma clock_and_time_ok:
  assumes "p + 9 \<le> length v" "fmt = isoc \<Longrightarrow> p + 14 \<le> length v"
  shows "\<exists>x. clock_and_time v fmt month day year p = Inr x"
proof -
  have clock: "\<exists>x. clock_at v p = Inr x" using assms(1) by (intro clock_at_ok) simp
  define y where "y = (if fmt = isoc then bindo (must_be v (p + 9) (CHR '' '')) (\<lambda>_. four_digits v (p + 10)) else Inr (Some year))"
  have "\<exists>x. y = Inr x"
  proof (cases "fmt = isoc")
    case True
    then show ?thesis using assms(2) unfolding y_def by simp (intro no_fault_bindo must_be_ok four_digits_ok; simp)
  qed (simp add: y_def)
  then have "\<exists>x. bindo y f = Inr x" if "\<And>a. \<exists>b. f a = Inr b" for f :: "int \<Rightarrow> int reading"
    using that by (intro no_fault_bindo) simp_all
  then show ?thesis
    unfolding clock_and_time_def y_def [symmetric] by (intro no_fault_bindo [OF clock]) (simp only: split_beta, simp)
qed

lemma month_and_time_ok:
  assumes "fmt = rfc822 \<and> p + 17 \<le> length v \<or> fmt = rfc850 \<and> p + 15 \<le> length v \<or> fmt = isoc \<and> p + 18 \<le> length v"
  shows "\<exists>x. month_and_time v fmt day p = Inr x"
  unfolding month_and_time_def
proof (intro no_fault_bindo)
  show "\<exists>x. month_at v p = Inr x" using assms by (intro month_at_ok) auto
  show "\<exists>x. day_year_at v fmt day (p + 3) = Inr x" using assms by (intro day_year_ok) auto
  fix month x assume x: "day_year_at v fmt day (p + 3) = Inr (Some x)"
  show "\<exists>y. (case x of (day, year, p) \<Rightarrow> clock_and_time v fmt month day year p) = Inr y"
  proof (cases x)
    case (fields day' year q)
    then show ?thesis using assms day_year_place [of v fmt day "p + 3" day' year q] x
      by (auto intro!: clock_and_time_ok)
  qed
qed

lemma day_fmt_ok:
  assumes "p + 18 \<le> length v" "(if fmt \<noteq> isoc then day_before_month v p else Inr (Some (isoc, 0, p))) = Inr (Some (fmt', day, q))"
  shows "fmt' = rfc822 \<and> q + 17 \<le> length v \<or> fmt' = rfc850 \<and> q + 15 \<le> length v \<or> fmt' = isoc \<and> q + 18 \<le> length v"
  using assms day_before_month_fmt [of v p fmt' day q] by (auto split: if_splits)

text \<open>
  \<open>ngx_http_parse_time\<close> reads only bytes of the value, whatever the client sent: every value gives a time or \<open>NGX_ERROR\<close>,
  by the three tests of the bytes that are left.
\<close>
theorem parse_time_reads_inside: "\<exists>t. ngx_http_parse_time v = Inr t"
proof -
  obtain e fmt where w: "weekday_end 0 v = (e, fmt)" by (cases "weekday_end 0 v")
  define p where "p = skip_blanks (e + 1) (drop (e + 1) v)"
  have "\<exists>x. bindo (if fmt \<noteq> isoc then day_before_month v p else Inr (Some (isoc, 0, p))) (\<lambda>(fmt, day, p). month_and_time v fmt day p) = Inr x"
    if "p + 18 \<le> length v"
  proof (rule no_fault_bindo)
    show "\<exists>x. (if fmt \<noteq> isoc then day_before_month v p else Inr (Some (isoc, 0, p))) = Inr x"
      using day_before_month_ok [of p v] that by simp
    show "\<exists>y. (case x of (fmt, day, p) \<Rightarrow> month_and_time v fmt day p) = Inr y"
      if x: "(if fmt \<noteq> isoc then day_before_month v p else Inr (Some (isoc, 0, p))) = Inr (Some x)" for x
    proof (cases x)
      case (fields f day q)
      then show ?thesis using day_fmt_ok [OF \<open>p + 18 \<le> length v\<close>, of fmt f day q] x month_and_time_ok by simp
    qed
  qed
  then show ?thesis
    unfolding ngx_http_parse_time_def w Let_def prod.case p_def [symmetric] by (intro no_fault_bindr) (auto split: option.split)
qed

text \<open>The bytes of a printed time.\<close>

lemma two_four_digits: "0 \<le> n \<Longrightarrow> n < 100 \<Longrightarrow> list_all is_digit (two n)" "0 \<le> n \<Longrightarrow> n < 10000 \<Longrightarrow> list_all is_digit (four n)"
  by (simp_all add: two_def four_def digit_char_is_digit nat_less_iff pos_imp_zdiv_nonneg_iff)

lemma http_text_bytes:
  assumes "0 \<le> w" "w < 7" "1 \<le> m" "m \<le> 12" "1 \<le> d" "d \<le> 31" "1000 \<le> y" "y < 10000" "0 \<le> h" "h < 24" "0 \<le> i" "i < 60" "0 \<le> s" "s < 60"
  shows "\<forall>c\<in>set (http_text w (y, m, d) h i s). CHR '' '' \<le> c" "hd (http_text w (y, m, d) h i s) \<noteq> CHR '' ''" "last (http_text w (y, m, d) h i s) \<noteq> CHR '' ''"
proof -
  have names: "list_all (\<lambda>s. list_all (\<lambda>c. CHR '' '' \<le> c \<and> c \<noteq> CHR '' '') s \<and> s \<noteq> []) (week @ months)" "length week = 7" "length months = 12" by code_simp+
  then have w: "list_all (\<lambda>c. CHR '' '' \<le> c \<and> c \<noteq> CHR '' '') (week ! nat w)" "week ! nat w \<noteq> []" and m: "list_all (\<lambda>c. CHR '' '' \<le> c \<and> c \<noteq> CHR '' '') (months ! nat (m - 1))"
    using assms(1-4) unfolding list_all_append by (simp_all add: list_all_length)
  have d: "CHR '' '' \<le> c" if "is_digit c" for c using that by (simp add: is_digit_def less_eq_char_def)
  have "list_all is_digit (two d)" "list_all is_digit (two h)" "list_all is_digit (two i)" "list_all is_digit (two s)" "list_all is_digit (four y)"
    using assms by (auto intro!: two_four_digits)
  then show "\<forall>c\<in>set (http_text w (y, m, d) h i s). CHR '' '' \<le> c"
    using w(1) m d by (auto simp: http_text_def list_all_iff less_eq_char_def)
  show "hd (http_text w (y, m, d) h i s) \<noteq> CHR '' ''" using w by (simp add: http_text_def list_all_iff)
  show "last (http_text w (y, m, d) h i s) \<noteq> CHR '' ''" by (simp add: http_text_def)
qed

lemma http_time_bytes:
  assumes "0 \<le> t" "t < 253402300800"
  obtains s where "ngx_http_time t = Inr s" "length s = 29" "\<forall>c\<in>set s. CHR '' '' \<le> c" "hd s \<noteq> CHR '' ''" "last s \<noteq> CHR '' ''"
proof -
  obtain w y m d where p: "ngx_http_time t = Inr (http_text w (y, m, d) (t div 3600 mod 24) (t div 60 mod 60) (t mod 60))"
      "0 \<le> w" "w < 7" "1 \<le> m" "m \<le> 12" "1 \<le> d" "d \<le> 31" "1000 \<le> y" "y < 10000"
    using http_time_prints [OF assms] .
  have "0 \<le> t div 3600 mod 24" "t div 3600 mod 24 < 24" "0 \<le> t div 60 mod 60" "t div 60 mod 60 < 60" "0 \<le> t mod 60" "t mod 60 < 60" by simp_all
  from that [OF p(1) http_text_length [OF p(2-5)] http_text_bytes [OF p(2-9) this]] show ?thesis .
qed

end
