(* ===== verification/Ngx_Http_Reply.thy ===== *)
theory Ngx_Http_Reply
  imports Ngx_Http_Header Ngx_Times
begin

text \<open>
  The head of a reply: \<open>ngx_http_header_filter\<close> of \<^verbatim>\<open>src/nginx/src/http/ngx_http_header_filter_module.c\<close>, which
  counts the bytes of the head, takes a buffer of that size and writes into it, and \<open>ngx_http_parse_status_line\<close> of
  \<^verbatim>\<open>src/nginx/src/http/ngx_http_parse.c\<close>, which reads the first line of a head.

  The pointers \<open>server\<close>, \<open>date\<close>, \<open>content_length\<close>, \<open>last_modified\<close> and \<open>location\<close> of \<open>headers_out\<close> point at elements of the list
  \<open>headers\<close>: they are indexes. Configuration, clock, socket and memory are the record \<open>header_env\<close>. The writes follow each
  other without a test of the end of the buffer: they overrun it exactly when the text is longer than the count, which
  is the fault \<open>BufferOverflow\<close>.
\<close>

section \<open>Writing the head of a reply\<close>

definition ngx_http_status_lines :: "string list" where
  "ngx_http_status_lines =
    [''200 OK'', ''201 Created'', ''202 Accepted'', [], ''204 No Content'', [], ''206 Partial Content'',
     ''301 Moved Permanently'', ''302 Moved Temporarily'', ''303 See Other'', ''304 Not Modified'', [], [], ''307 Temporary Redirect'',
     ''400 Bad Request'', ''401 Unauthorized'', ''402 Payment Required'', ''403 Forbidden'', ''404 Not Found'', ''405 Not Allowed'',
     ''406 Not Acceptable'', [], ''408 Request Time-out'', ''409 Conflict'', ''410 Gone'', ''411 Length Required'',
     ''412 Precondition Failed'', ''413 Request Entity Too Large'', [], ''415 Unsupported Media Type'',
     ''416 Requested Range Not Satisfiable'',
     ''500 Internal Server Error'', ''501 Not Implemented'', ''502 Bad Gateway'', ''503 Service Temporarily Unavailable'',
     ''504 Gateway Time-out'', [], [], ''507 Insufficient Storage'']"

definition ngx_http_server_string :: string where
  "ngx_http_server_string = ''Server: nginx'' @ [CR, LF]"

definition ngx_http_server_full_string :: string where
  "ngx_http_server_full_string = ''Server: nginx/1.4.1'' @ [CR, LF]"

record out_elt =
  o_hash :: nat
  o_key :: string
  o_value :: string

record ngx_http_headers_out =
  ho_headers :: "out_elt list"
  ho_status :: nat
  ho_status_line :: string
  ho_server :: "nat option"
  ho_date :: "nat option"
  ho_content_length :: "nat option"
  ho_last_modified :: "nat option"
  ho_location :: "nat option"
  ho_content_type_len :: nat
  ho_content_type :: string
  ho_charset :: string
  ho_content_length_n :: int
  ho_last_modified_time :: int

record out_request =
  or_method :: nat
  or_http_version :: nat
  or_header_sent :: bool
  or_main :: bool
  or_header_only :: bool
  or_keepalive :: bool
  or_chunked :: bool
  or_gzip_vary :: bool
  or_in_server :: string
  or_header_size :: nat
  headers_out :: ngx_http_headers_out

datatype local_sockaddr = Sock_inet nat | Sock_inet6 nat | Sock_unix

record header_env =
  cached_http_time :: string
  server_tokens :: bool
  server_name_in_redirect :: bool
  env_server_name :: string
  port_in_redirect :: bool
  keepalive_header :: int
  conf_gzip_vary :: bool
  conn_ssl :: bool
  conn_sockaddr :: local_sockaddr
  conn_local_text :: "string option"
  temp_buf :: bool

text \<open>What the filter returns: a code at once, or what \<open>ngx_http_write_filter\<close> makes of the buffer and its \<open>last_buf\<close>.\<close>

datatype header_result = HF_return int | HF_write string bool

definition drop_last_modified :: "ngx_http_headers_out \<Rightarrow> ngx_http_headers_out" where
  "drop_last_modified ho =
     (if ho_last_modified_time ho \<noteq> -1 \<and> ho_status ho \<noteq> 200 \<and> ho_status ho \<noteq> 206 \<and> ho_status ho \<noteq> 304
      then ho\<lparr>ho_last_modified_time := -1, ho_last_modified := None\<rparr> else ho)"

definition status_index :: "nat \<Rightarrow> nat option" where
  "status_index s =
     (if s \<ge> 200 \<and> s < 207 then Some (s - 200)
      else if s \<ge> 301 \<and> s < 308 then Some (s - 301 + 7)
      else if s \<ge> 400 \<and> s < 417 then Some (s - 400 + 14)
      else if s \<ge> 500 \<and> s < 508 then Some (s - 500 + 31)
      else None)"

text \<open>The status line, \<open>None\<close> for \<open>NULL\<close>, and the changes of the request for the statuses 204 and 304.\<close>

definition status_of :: "ngx_http_headers_out \<Rightarrow> string option" where
  "status_of ho =
     (if ho_status_line ho \<noteq> [] then Some (ho_status_line ho) else map_option ((!) ngx_http_status_lines) (status_index (ho_status ho)))"

definition adjust_to_status :: "out_request \<Rightarrow> out_request" where
  "adjust_to_status r =
     (let ho = headers_out r in
      if ho_status_line ho \<noteq> [] then r
      else if ho_status ho = 204 then
        r\<lparr>or_header_only := True, headers_out := ho\<lparr>ho_content_type := [], ho_last_modified_time := -1, ho_last_modified := None,
          ho_content_length := None, ho_content_length_n := -1\<rparr>\<rparr>
      else if ho_status ho = 304 then r\<lparr>or_header_only := True\<rparr>
      else r)"

text \<open>A location that starts with a slash is completed: index of the element and its value.\<close>

definition relative_location :: "ngx_http_headers_out \<Rightarrow> (nat \<times> string) option c_result" where
  "relative_location ho =
     (case ho_location ho of
        None \<Rightarrow> Inr None
      | Some i \<Rightarrow>
          if i < length (ho_headers ho) then
            (let v = o_value (ho_headers ho ! i) in Inr (if v \<noteq> [] \<and> v ! 0 = CHR ''/'' then Some (i, v) else None))
          else Inl NullDeref)"

definition redirect_host :: "header_env \<Rightarrow> out_request \<Rightarrow> string option" where
  "redirect_host env r =
     (if server_name_in_redirect env then Some (env_server_name env)
      else if or_in_server r \<noteq> [] then Some (or_in_server r)
      else conn_local_text env)"

definition redirect_port :: "header_env \<Rightarrow> nat" where
  "redirect_port env =
     (let port = (case conn_sockaddr env of Sock_inet6 p \<Rightarrow> p | Sock_unix \<Rightarrow> 0 | Sock_inet p \<Rightarrow> p) in
      if port_in_redirect env then
        (if conn_ssl env then (if port = 443 then 0 else port) else (if port = 80 then 0 else port))
      else 0)"

definition with_charset :: "ngx_http_headers_out \<Rightarrow> bool" where
  "with_charset ho \<longleftrightarrow> ho_content_type_len ho = length (ho_content_type ho) \<and> ho_charset ho \<noteq> []"

text \<open>The count; \<open>target\<close> is host and value of a location that is completed.\<close>

abbreviation (input) NGX_INT_T_LEN :: nat where "NGX_INT_T_LEN \<equiv> 20"
abbreviation (input) NGX_OFF_T_LEN :: nat where "NGX_OFF_T_LEN \<equiv> 20"
abbreviation (input) NGX_TIME_T_LEN :: nat where "NGX_TIME_T_LEN \<equiv> 20"

definition header_len :: "header_env \<Rightarrow> out_request \<Rightarrow> string option \<Rightarrow> (string \<times> string) option \<Rightarrow> nat" where
  "header_len env r line target =
     (let ho = headers_out r in
      length ''HTTP/1.x '' + 2 + 2
      + (case line of Some l \<Rightarrow> length l | None \<Rightarrow> NGX_INT_T_LEN)
      + (if ho_server ho = None then length (if server_tokens env then ngx_http_server_full_string else ngx_http_server_string) else 0)
      + (if ho_date ho = None then length ''Date: Mon, 28 Sep 1970 06:00:00 GMT'' + 2 else 0)
      + (if ho_content_type ho \<noteq> [] then length ''Content-Type: '' + length (ho_content_type ho) + 2
           + (if with_charset ho then length ''; charset='' + length (ho_charset ho) else 0) else 0)
      + (if ho_content_length ho = None \<and> ho_content_length_n ho \<ge> 0 then length ''Content-Length: '' + NGX_OFF_T_LEN + 2 else 0)
      + (if ho_last_modified ho = None \<and> ho_last_modified_time ho \<noteq> -1 then length ''Last-Modified: Mon, 28 Sep 1970 06:00:00 GMT'' + 2 else 0)
      + (case target of None \<Rightarrow> 0 | Some (host, v) \<Rightarrow> length ''Location: https://'' + length host + length v + 2
           + (if redirect_port env \<noteq> 0 then length '':65535'' else 0))
      + (if or_chunked r then length ''Transfer-Encoding: chunked'' + 2 else 0)
      + (if ho_status ho = 101 then length ''Connection: upgrade'' + 2
         else if or_keepalive r then length ''Connection: keep-alive'' + 2
           + (if keepalive_header env \<noteq> 0 then length ''Keep-Alive: timeout='' + NGX_TIME_T_LEN + 2 else 0)
         else length ''Connection: close'' + 2)
      + (if or_gzip_vary r then length ''Vary: Accept-Encoding'' + 2 else 0)
      + (\<Sum>h\<leftarrow>ho_headers ho. if o_hash h = 0 then 0 else length (o_key h) + 2 + length (o_value h) + 2))"

fun write_all :: "string c_result list \<Rightarrow> string c_result" where
  "write_all [] = Inr []"
| "write_all (x # xs) = bindr x (\<lambda>s. bindr (write_all xs) (\<lambda>t. Inr (s @ t)))"

text \<open>The completed location, without its name.\<close>

definition location_text :: "header_env \<Rightarrow> string \<times> string \<Rightarrow> string c_result" where
  "location_text env target =
     write_all [Inr ''http'', Inr (if conn_ssl env then ''s'' else []), Inr ''://'', Inr (fst target),
       if redirect_port env \<noteq> 0 then ngx_sprintf '':%ui'' [Va_int (int (redirect_port env))] else Inr [], Inr (snd target)]"

definition content_type_text :: "ngx_http_headers_out \<Rightarrow> string" where
  "content_type_text ho = ho_content_type ho @ (if with_charset ho then ''; charset='' @ ho_charset ho else [])"

definition header_text :: "header_env \<Rightarrow> out_request \<Rightarrow> string option \<Rightarrow> (string \<times> string) option \<Rightarrow> string c_result" where
  "header_text env r line target =
     (let ho = headers_out r in
      write_all
       [Inr ''HTTP/1.1 '',
        (case line of Some l \<Rightarrow> Inr l | None \<Rightarrow> ngx_sprintf ''%03ui'' [Va_int (int (ho_status ho))]), Inr [CR, LF],
        Inr (if ho_server ho = None then (if server_tokens env then ngx_http_server_full_string else ngx_http_server_string) else []),
        Inr (if ho_date ho = None then ''Date: '' @ cached_http_time env @ [CR, LF] else []),
        Inr (if ho_content_type ho \<noteq> [] then ''Content-Type: '' @ content_type_text ho @ [CR, LF] else []),
        (if ho_content_length ho = None \<and> ho_content_length_n ho \<ge> 0
         then ngx_sprintf (''Content-Length: %O'' @ [CR, LF]) [Va_int (ho_content_length_n ho)] else Inr []),
        (if ho_last_modified ho = None \<and> ho_last_modified_time ho \<noteq> -1
         then write_all [Inr ''Last-Modified: '', ngx_http_time (ho_last_modified_time ho), Inr [CR, LF]] else Inr []),
        (case target of None \<Rightarrow> Inr [] | Some t \<Rightarrow> write_all [Inr ''Location: '', location_text env t, Inr [CR, LF]]),
        Inr (if or_chunked r then ''Transfer-Encoding: chunked'' @ [CR, LF] else []),
        (if ho_status ho = 101 then Inr (''Connection: upgrade'' @ [CR, LF])
         else if or_keepalive r then
           write_all [Inr (''Connection: keep-alive'' @ [CR, LF]),
             if keepalive_header env \<noteq> 0 then ngx_sprintf (''Keep-Alive: timeout=%T'' @ [CR, LF]) [Va_int (keepalive_header env)] else Inr []]
         else Inr (''Connection: close'' @ [CR, LF])),
        Inr (if or_gzip_vary r then ''Vary: Accept-Encoding'' @ [CR, LF] else []),
        Inr (concat (map (\<lambda>h. if o_hash h = 0 then [] else o_key h @ '': '' @ o_value h @ [CR, LF]) (ho_headers ho))),
        Inr [CR, LF]])"

text \<open>What the filter notes of the text it has written, for the log.\<close>

definition note_written :: "header_env \<Rightarrow> (nat \<times> string \<times> string) option \<Rightarrow> string \<Rightarrow> out_request \<Rightarrow> out_request c_result" where
  "note_written env target text r =
     bindr (case target of None \<Rightarrow> Inr (ho_headers (headers_out r))
       | Some (i, t) \<Rightarrow> bindr (location_text env t) (\<lambda>v.
           Inr ((ho_headers (headers_out r))[i := (ho_headers (headers_out r) ! i)\<lparr>o_key := ''Location'', o_value := v\<rparr>])))
       (\<lambda>hs. Inr (r\<lparr>or_header_size := length text,
         headers_out := (headers_out r)\<lparr>ho_headers := hs, ho_content_type :=
           (if ho_content_type (headers_out r) = [] then [] else content_type_text (headers_out r))\<rparr>\<rparr>))"

text \<open>The changes of the request before the head is counted.\<close>

definition prepare_head :: "out_request \<Rightarrow> out_request" where
  "prepare_head r =
     (let r = (if or_method r = NGX_HTTP_HEAD then r\<lparr>or_header_only := True\<rparr> else r);
          r = r\<lparr>headers_out := drop_last_modified (headers_out r)\<rparr>
      in adjust_to_status r)"

definition hide_location :: "(nat \<times> string) option \<Rightarrow> out_request \<Rightarrow> out_request" where
  "hide_location rel r =
     (case rel of None \<Rightarrow> r
      | Some (i, v) \<Rightarrow> r\<lparr>headers_out := (headers_out r)\<lparr>ho_headers :=
          (ho_headers (headers_out r))[i := (ho_headers (headers_out r) ! i)\<lparr>o_hash := 0\<rparr>]\<rparr>\<rparr>)"

definition settle_vary :: "header_env \<Rightarrow> out_request \<Rightarrow> out_request" where
  "settle_vary env r = (if or_gzip_vary r \<and> \<not> conf_gzip_vary env then r\<lparr>or_gzip_vary := False\<rparr> else r)"

definition ngx_http_header_filter :: "header_env \<Rightarrow> out_request \<Rightarrow> (header_result \<times> out_request) c_result" where
  "ngx_http_header_filter env r =
     (if or_header_sent r then Inr (HF_return NGX_OK, r)
      else
        let r = r\<lparr>or_header_sent := True\<rparr> in
        if \<not> or_main r then Inr (HF_return NGX_OK, r)
        else if or_http_version r < 1000 then Inr (HF_return NGX_OK, r)
        else
          let r = prepare_head r; line = status_of (headers_out r) in
          bindr (relative_location (headers_out r)) (\<lambda>rel.
            let r = hide_location rel r in
            if rel \<noteq> None \<and> redirect_host env r = None then Inr (HF_return NGX_ERROR, r)
            else
              let target = map_option (\<lambda>(i, v). (the (redirect_host env r), v)) rel;
                  r = settle_vary env r in
              if \<not> temp_buf env then Inr (HF_return NGX_ERROR, r)
              else bindr (header_text env r line target) (\<lambda>text.
                if length text > header_len env r line target then Inl BufferOverflow
                else bindr (note_written env (map_option (\<lambda>(i, v). (i, the (redirect_host env r), v)) rel) text r) (\<lambda>r.
                  Inr (HF_write text (or_header_only r), r)))))"

text \<open>\<open>ngx_http_send_header\<close> of \<^verbatim>\<open>ngx_http_core_module.c\<close>; \<open>first\<close> is the first header filter.\<close>

definition ngx_http_send_header :: "(out_request \<Rightarrow> 'a) \<Rightarrow> nat \<Rightarrow> out_request \<Rightarrow> 'a" where
  "ngx_http_send_header first err_status r =
     first (if err_status \<noteq> 0 then r\<lparr>headers_out := (headers_out r)\<lparr>ho_status := err_status, ho_status_line := []\<rparr>\<rparr> else r)"

section \<open>Reading a status line\<close>

datatype status_state =
    ss_start | ss_H | ss_HT | ss_HTT | ss_HTTP | ss_first_major_digit | ss_major_digit | ss_first_minor_digit | ss_minor_digit
  | ss_status | ss_space_after_status | ss_status_text | ss_almost_done

record ngx_http_status =
  st_state :: status_state
  st_major :: nat
  st_minor :: nat
  st_http_version :: nat
  st_code :: nat
  st_count :: nat
  st_start :: "nat option"
  st_end :: "nat option"

definition ngx_uint :: "nat \<Rightarrow> nat" where
  "ngx_uint n = n mod 18446744073709551616"

text \<open>Where the loop is left: \<open>True\<close> for \<open>goto done\<close>, \<open>False\<close> for the return of \<open>NGX_ERROR\<close>.\<close>

definition step_status_version :: "char \<Rightarrow> ngx_http_status \<Rightarrow> (ngx_http_status, bool) ctl" where
  "step_status_version ch s =
     (case st_state s of
        ss_start \<Rightarrow> if ch = CHR ''H'' then Next (s\<lparr>st_state := ss_H\<rparr>) else Stop False s
      | ss_H \<Rightarrow> if ch = CHR ''T'' then Next (s\<lparr>st_state := ss_HT\<rparr>) else Stop False s
      | ss_HT \<Rightarrow> if ch = CHR ''T'' then Next (s\<lparr>st_state := ss_HTT\<rparr>) else Stop False s
      | ss_HTT \<Rightarrow> if ch = CHR ''P'' then Next (s\<lparr>st_state := ss_HTTP\<rparr>) else Stop False s
      | ss_HTTP \<Rightarrow> if ch = CHR ''/'' then Next (s\<lparr>st_state := ss_first_major_digit\<rparr>) else Stop False s
      | ss_first_major_digit \<Rightarrow>
          if ch < CHR ''1'' \<or> ch > CHR ''9'' then Stop False s
          else Next (s\<lparr>st_major := digit_nat ch, st_state := ss_major_digit\<rparr>)
      | ss_major_digit \<Rightarrow>
          if ch = CHR ''.'' then Next (s\<lparr>st_state := ss_first_minor_digit\<rparr>)
          else if \<not> is_digit ch then Stop False s
          else Next (s\<lparr>st_major := (st_major s * 10 + digit_nat ch) mod 65536\<rparr>)
      | ss_first_minor_digit \<Rightarrow>
          if \<not> is_digit ch then Stop False s
          else Next (s\<lparr>st_minor := digit_nat ch, st_state := ss_minor_digit\<rparr>)
      | _ \<Rightarrow>
          if ch = CHR '' '' then Next (s\<lparr>st_state := ss_status\<rparr>)
          else if \<not> is_digit ch then Stop False s
          else Next (s\<lparr>st_minor := (st_minor s * 10 + digit_nat ch) mod 65536\<rparr>))"

definition step_status_code :: "char \<Rightarrow> nat \<Rightarrow> ngx_http_status \<Rightarrow> (ngx_http_status, bool) ctl" where
  "step_status_code ch p s =
     (if ch = CHR '' '' then Next s
      else if \<not> is_digit ch then Stop False s
      else
        let s = s\<lparr>st_code := ngx_uint (st_code s * 10 + digit_nat ch), st_count := ngx_uint (st_count s + 1)\<rparr> in
        if st_count s = 3 then Next (s\<lparr>st_state := ss_space_after_status, st_start := Some (p - 2)\<rparr>) else Next s)"

definition status_line_step :: "string \<Rightarrow> nat \<Rightarrow> ngx_http_status \<Rightarrow> (ngx_http_status, bool) ctl" where
  "status_line_step b p s =
     (let ch = b ! p in
      case st_state s of
        ss_status \<Rightarrow> step_status_code ch p s
      | ss_space_after_status \<Rightarrow>
          if ch = CHR '' '' \<or> ch = CHR ''.'' then Next (s\<lparr>st_state := ss_status_text\<rparr>)
          else if ch = CR then Next (s\<lparr>st_state := ss_almost_done\<rparr>)
          else if ch = LF then Stop True s
          else Stop False s
      | ss_status_text \<Rightarrow>
          if ch = CR then Next (s\<lparr>st_state := ss_almost_done\<rparr>)
          else if ch = LF then Stop True s
          else Next s
      | ss_almost_done \<Rightarrow> (let s = s\<lparr>st_end := Some (p - 1)\<rparr> in if ch = LF then Stop True s else Stop False s)
      | _ \<Rightarrow> step_status_version ch s)"

text \<open>The state is a local of the function: an error leaves the one of the request as it was, and \<open>b->pos\<close> too.\<close>

definition ngx_http_parse_status_line :: "string \<Rightarrow> nat \<Rightarrow> ngx_http_status \<Rightarrow> int \<times> nat \<times> ngx_http_status" where
  "ngx_http_parse_status_line b pos s0 =
     (case run_steps status_line_step b pos s0 of
        (p, s, None) \<Rightarrow> (NGX_AGAIN, p, s)
      | (p, s, Some True) \<Rightarrow>
          (NGX_OK, p + 1, s\<lparr>st_end := (if st_end s = None then Some p else st_end s),
             st_http_version := st_major s * 1000 + st_minor s, st_state := ss_start\<rparr>)
      | (p, s, Some False) \<Rightarrow> (NGX_ERROR, pos, s\<lparr>st_state := st_state s0\<rparr>))"

interpretation status_line: resumable status_line_step
  by unfold_locales (simp add: status_line_step_def nth_append)

definition fresh_status :: ngx_http_status where
  "fresh_status = \<lparr>st_state = ss_start, st_major = 0, st_minor = 0, st_http_version = 0, st_code = 0, st_count = 0, st_start = None, st_end = None\<rparr>"

section \<open>The text of the head\<close>

lemma not_digits [simp]:
  "is_digit CHR ''3''" "\<not> is_digit CHR ''u''" "\<not> is_digit CHR ''i''" "\<not> is_digit CHR ''O''" "\<not> is_digit CHR ''T''" "\<not> is_digit CR" "\<not> is_digit LF"
  by (simp_all add: is_digit_def less_eq_char_def)

lemma sprintf_port: "n < 18446744073709551616 \<Longrightarrow> ngx_sprintf '':%ui'' [Va_int (int n)] = Inr ('':'' @ nat_dec n)"
  by (simp add: printf_eval u64_of_def sprintf_num_dec Let_def and_then_def)

lemma sprintf_status: "n < 18446744073709551616 \<Longrightarrow> ngx_sprintf ''%03ui'' [Va_int (int n)] = Inr (pad0 3 (nat_dec n))"
  by (simp add: printf_eval u64_of_def sprintf_num_dec Let_def and_then_def pad0_def)

lemma sprintf_content_length:
  "0 \<le> n \<Longrightarrow> n < 9223372036854775808 \<Longrightarrow>
   ngx_sprintf (''Content-Length: %O'' @ [CR, LF]) [Va_int n] = Inr (''Content-Length: '' @ nat_dec (nat n) @ [CR, LF])"
  by (simp add: printf_eval u64_of_def sprintf_num_dec Let_def and_then_def wrap64_id is_int64_def)

lemma sprintf_keepalive:
  "0 \<le> n \<Longrightarrow> n < 9223372036854775808 \<Longrightarrow>
   ngx_sprintf (''Keep-Alive: timeout=%T'' @ [CR, LF]) [Va_int n] = Inr (''Keep-Alive: timeout='' @ nat_dec (nat n) @ [CR, LF])"
  by (simp add: printf_eval u64_of_def sprintf_num_dec Let_def and_then_def wrap64_id is_int64_def)

definition location_value :: "header_env \<Rightarrow> string \<times> string \<Rightarrow> string" where
  "location_value env t = ''http'' @ (if conn_ssl env then ''s'' else []) @ ''://'' @ fst t @
     (if redirect_port env \<noteq> 0 then '':'' @ nat_dec (redirect_port env) else []) @ snd t"

text \<open>The fields of the head, in their order.\<close>

definition connection_fields :: "header_env \<Rightarrow> out_request \<Rightarrow> (string \<times> string) list" where
  "connection_fields env r =
     (if ho_status (headers_out r) = 101 then [(''Connection'', ''upgrade'')]
      else if or_keepalive r then (''Connection'', ''keep-alive'') #
        (if keepalive_header env \<noteq> 0 then [(''Keep-Alive'', ''timeout='' @ nat_dec (nat (keepalive_header env)))] else [])
      else [(''Connection'', ''close'')])"

definition list_fields :: "out_elt list \<Rightarrow> (string \<times> string) list" where
  "list_fields hs = map (\<lambda>h. (o_key h, o_value h)) (filter (\<lambda>h. o_hash h \<noteq> 0) hs)"

definition reply_fields :: "header_env \<Rightarrow> out_request \<Rightarrow> (string \<times> string) option \<Rightarrow> (string \<times> string) list" where
  "reply_fields env r target =
     (let ho = headers_out r in
      (if ho_server ho = None then [(''Server'', if server_tokens env then ''nginx/1.4.1'' else ''nginx'')] else []) @
      (if ho_date ho = None then [(''Date'', cached_http_time env)] else []) @
      (if ho_content_type ho \<noteq> [] then [(''Content-Type'', content_type_text ho)] else []) @
      (if ho_content_length ho = None \<and> ho_content_length_n ho \<ge> 0 then [(''Content-Length'', nat_dec (nat (ho_content_length_n ho)))] else []) @
      (if ho_last_modified ho = None \<and> ho_last_modified_time ho \<noteq> -1 then [(''Last-Modified'', projr (ngx_http_time (ho_last_modified_time ho)))] else []) @
      (case target of None \<Rightarrow> [] | Some t \<Rightarrow> [(''Location'', location_value env t)]) @
      (if or_chunked r then [(''Transfer-Encoding'', ''chunked'')] else []) @
      connection_fields env r @
      (if or_gzip_vary r then [(''Vary'', ''Accept-Encoding'')] else []) @
      list_fields (ho_headers ho))"

definition status_text :: "ngx_http_headers_out \<Rightarrow> string" where
  "status_text ho = (case status_of ho of Some l \<Rightarrow> l | None \<Rightarrow> pad0 3 (nat_dec (ho_status ho)))"

definition time_ok :: "int \<Rightarrow> bool" where
  "time_ok t \<longleftrightarrow> t = -1 \<or> 0 \<le> t \<and> t < 253402300800"

definition numbers_ok :: "header_env \<Rightarrow> out_request \<Rightarrow> bool" where
  "numbers_ok env r \<longleftrightarrow> length (cached_http_time env) = 29 \<and> redirect_port env \<le> 65535 \<and> 0 \<le> keepalive_header env \<and>
     keepalive_header env < 9223372036854775808 \<and> ho_status (headers_out r) < 18446744073709551616 \<and>
     ho_content_length_n (headers_out r) < 9223372036854775808 \<and> time_ok (ho_last_modified_time (headers_out r))"

lemma list_fields_text: "concat (map (\<lambda>h. if o_hash h = 0 then [] else o_key h @ '': '' @ o_value h @ [CR, LF]) hs) = concat (map field_line (list_fields hs))"
  by (induction hs) (simp_all add: list_fields_def)

lemma location_text_eq: "redirect_port env \<le> 65535 \<Longrightarrow> location_text env t = Inr (location_value env t)"
  by (simp add: location_text_def location_value_def sprintf_port)

lemma printed_time: "time_ok t \<Longrightarrow> t \<noteq> -1 \<Longrightarrow> ngx_http_time t = Inr (projr (ngx_http_time t)) \<and> length (projr (ngx_http_time t)) = 29"
  unfolding time_ok_def by (metis http_time_bytes sum.sel(2))

lemma header_text_eq:
  assumes "numbers_ok env r"
  shows "header_text env r (status_of (headers_out r)) target =
    Inr (''HTTP/1.1 '' @ status_text (headers_out r) @ [CR, LF] @ header_block (reply_fields env r target))"
proof -
  have n: "redirect_port env \<le> 65535" "0 \<le> keepalive_header env" "keepalive_header env < 9223372036854775808" "ho_status (headers_out r) < 18446744073709551616"
    "ho_content_length_n (headers_out r) < 9223372036854775808" "time_ok (ho_last_modified_time (headers_out r))"
    using assms by (simp_all add: numbers_ok_def)
  obtain m where lm: "ho_last_modified_time (headers_out r) \<noteq> -1 \<Longrightarrow> ngx_http_time (ho_last_modified_time (headers_out r)) = Inr m"
    using printed_time [OF n(6)] by blast
  have line: "(case status_of (headers_out r) of Some l \<Rightarrow> Inr l | None \<Rightarrow> ngx_sprintf ''%03ui'' [Va_int (int (ho_status (headers_out r)))]) = Inr (status_text (headers_out r))"
    using n(4) by (simp add: status_text_def sprintf_status split: option.split)
  have cl: "(if b \<and> ho_content_length_n (headers_out r) \<ge> 0 then ngx_sprintf (''Content-Length: %O'' @ [CR, LF]) [Va_int (ho_content_length_n (headers_out r))] else Inr []) =
      Inr (concat (map field_line (if b \<and> ho_content_length_n (headers_out r) \<ge> 0 then [(''Content-Length'', nat_dec (nat (ho_content_length_n (headers_out r))))] else [])))" for b
    using sprintf_content_length n(5) by simp
  have ml: "(if b \<and> ho_last_modified_time (headers_out r) \<noteq> -1 then write_all [Inr ''Last-Modified: '', ngx_http_time (ho_last_modified_time (headers_out r)), Inr [CR, LF]] else Inr []) =
      Inr (concat (map field_line (if b \<and> ho_last_modified_time (headers_out r) \<noteq> -1 then [(''Last-Modified'', projr (ngx_http_time (ho_last_modified_time (headers_out r))))] else [])))" for b
    using lm by simp
  have tg: "(case target of None \<Rightarrow> Inr [] | Some t \<Rightarrow> write_all [Inr ''Location: '', location_text env t, Inr [CR, LF]]) =
      Inr (concat (map field_line (case target of None \<Rightarrow> [] | Some t \<Rightarrow> [(''Location'', location_value env t)])))"
    using n(1) by (simp add: location_text_eq split: option.split)
  have cn: "(if ho_status (headers_out r) = 101 then Inr (''Connection: upgrade'' @ [CR, LF])
         else if or_keepalive r then
           write_all [Inr (''Connection: keep-alive'' @ [CR, LF]),
             if keepalive_header env \<noteq> 0 then ngx_sprintf (''Keep-Alive: timeout=%T'' @ [CR, LF]) [Va_int (keepalive_header env)] else Inr []]
         else Inr (''Connection: close'' @ [CR, LF])) = Inr (concat (map field_line (connection_fields env r)))"
    using n(2,3) sprintf_keepalive by (simp add: connection_fields_def)
  show ?thesis
    unfolding header_text_def Let_def line cl ml tg cn list_fields_text
    by (simp add: header_block_def reply_fields_def Let_def ngx_http_server_string_def ngx_http_server_full_string_def)
qed

section \<open>The head fits its buffer\<close>

lemma dec_length_20: "n < 18446744073709551616 \<Longrightarrow> length (nat_dec n) \<le> 20"
  using nat_dec_length [of n 20] by simp

lemma block_length: "length (header_block fs) = (\<Sum>f\<leftarrow>fs. length (fst f) + length (snd f) + 4) + 2"
proof -
  have "length (concat (map field_line fs)) = (\<Sum>f\<leftarrow>fs. length (fst f) + length (snd f) + 4)"
    by (induction fs) (auto simp: algebra_simps)
  then show ?thesis by (simp add: header_block_def)
qed

lemma list_fields_length:
  "(\<Sum>f\<leftarrow>list_fields hs. length (fst f) + length (snd f) + 4) = (\<Sum>h\<leftarrow>hs. if o_hash h = 0 then 0 else length (o_key h) + 2 + length (o_value h) + 2)"
  by (induction hs) (simp_all add: list_fields_def)

lemma header_fits:
  assumes "numbers_ok env r"
  shows "length (''HTTP/1.1 '' @ status_text (headers_out r) @ [CR, LF] @ header_block (reply_fields env r target)) \<le>
    header_len env r (status_of (headers_out r)) target"
proof -
  let ?ho = "headers_out r"
  have n: "length (cached_http_time env) = 29" "redirect_port env \<le> 65535" "ho_status ?ho < 18446744073709551616" using assms by (simp_all add: numbers_ok_def)
  have kl: "length (nat_dec (nat (keepalive_header env))) \<le> 20" "length (nat_dec (nat (ho_content_length_n ?ho))) \<le> 20"
    using assms by (auto intro!: dec_length_20 simp: numbers_ok_def nat_less_iff)
  have st: "length (status_text ?ho) \<le> (case status_of ?ho of Some l \<Rightarrow> length l | None \<Rightarrow> NGX_INT_T_LEN)"
    using dec_length_20 [OF n(3)] by (simp add: status_text_def pad0_length split: option.split)
  have lm: "ho_last_modified_time ?ho \<noteq> -1 \<Longrightarrow> length (projr (ngx_http_time (ho_last_modified_time ?ho))) = 29"
    using printed_time [of "ho_last_modified_time ?ho"] assms by (simp add: numbers_ok_def)
  have lc: "length (location_value env t) \<le> 8 + length (fst t) + length (snd t) + (if redirect_port env \<noteq> 0 then 6 else 0)" for t
    using nat_dec_length [of "redirect_port env" 5] n(2) by (simp add: location_value_def)
  have tg: "(\<Sum>f\<leftarrow>(case target of None \<Rightarrow> [] | Some t \<Rightarrow> [(''Location'', location_value env t)]). length (fst f) + length (snd f) + 4) \<le>
      (case target of None \<Rightarrow> 0 | Some (host, v) \<Rightarrow> length ''Location: https://'' + length host + length v + 2
           + (if redirect_port env \<noteq> 0 then length '':65535'' else 0))"
    using lc [of "the target"] by (cases target) (auto split: if_splits)
  have cn: "(\<Sum>f\<leftarrow>connection_fields env r. length (fst f) + length (snd f) + 4) \<le>
      (if ho_status ?ho = 101 then length ''Connection: upgrade'' + 2
         else if or_keepalive r then length ''Connection: keep-alive'' + 2
           + (if keepalive_header env \<noteq> 0 then length ''Keep-Alive: timeout='' + NGX_TIME_T_LEN + 2 else 0)
         else length ''Connection: close'' + 2)"
    using kl(1) by (simp add: connection_fields_def)
  let ?n = "\<lambda>fs. \<Sum>f\<leftarrow>fs. length (fst f) + length (snd f) + 4"
  have sv: "?n (if ho_server ?ho = None then [(''Server'', if server_tokens env then ''nginx/1.4.1'' else ''nginx'')] else []) =
      (if ho_server ?ho = None then length (if server_tokens env then ngx_http_server_full_string else ngx_http_server_string) else 0)"
    by (simp add: ngx_http_server_string_def ngx_http_server_full_string_def)
  have dt: "?n (if ho_date ?ho = None then [(''Date'', cached_http_time env)] else []) = (if ho_date ?ho = None then length ''Date: Mon, 28 Sep 1970 06:00:00 GMT'' + 2 else 0)"
    using n(1) by simp
  have ct: "?n (if ho_content_type ?ho \<noteq> [] then [(''Content-Type'', content_type_text ?ho)] else []) =
      (if ho_content_type ?ho \<noteq> [] then length ''Content-Type: '' + length (ho_content_type ?ho) + 2
           + (if with_charset ?ho then length ''; charset='' + length (ho_charset ?ho) else 0) else 0)"
    by (simp add: content_type_text_def)
  have cl: "?n (if ho_content_length ?ho = None \<and> ho_content_length_n ?ho \<ge> 0 then [(''Content-Length'', nat_dec (nat (ho_content_length_n ?ho)))] else []) \<le>
      (if ho_content_length ?ho = None \<and> ho_content_length_n ?ho \<ge> 0 then length ''Content-Length: '' + NGX_OFF_T_LEN + 2 else 0)"
    using kl(2) by simp
  have ml: "?n (if ho_last_modified ?ho = None \<and> ho_last_modified_time ?ho \<noteq> -1 then [(''Last-Modified'', projr (ngx_http_time (ho_last_modified_time ?ho)))] else []) =
      (if ho_last_modified ?ho = None \<and> ho_last_modified_time ?ho \<noteq> -1 then length ''Last-Modified: Mon, 28 Sep 1970 06:00:00 GMT'' + 2 else 0)"
    using lm by simp
  have te: "?n (if or_chunked r then [(''Transfer-Encoding'', ''chunked'')] else []) = (if or_chunked r then length ''Transfer-Encoding: chunked'' + 2 else 0)"
    "?n (if or_gzip_vary r then [(''Vary'', ''Accept-Encoding'')] else []) = (if or_gzip_vary r then length ''Vary: Accept-Encoding'' + 2 else 0)"
    "length ''HTTP/1.1 '' = length ''HTTP/1.x ''" "length [CR, LF] = 2"
    by simp_all
  show ?thesis
    unfolding reply_fields_def Let_def length_append block_length map_append sum_list_append list_fields_length header_len_def sv dt ct ml te
    using st tg cn cl by linarith
qed

definition location_ok :: "ngx_http_headers_out \<Rightarrow> bool" where
  "location_ok ho \<longleftrightarrow> (\<forall>i. ho_location ho = Some i \<longrightarrow> i < length (ho_headers ho))"

text \<open>The request as it is when the head is written, and the location that is completed.\<close>

definition completed :: "out_request \<Rightarrow> (nat \<times> string) option" where
  "completed r = projr (relative_location (headers_out (prepare_head (r\<lparr>or_header_sent := True\<rparr>))))"

definition written_request :: "header_env \<Rightarrow> out_request \<Rightarrow> out_request" where
  "written_request env r = settle_vary env (hide_location (completed r) (prepare_head (r\<lparr>or_header_sent := True\<rparr>)))"

definition written_target :: "header_env \<Rightarrow> out_request \<Rightarrow> (string \<times> string) option" where
  "written_target env r = map_option (\<lambda>(i, v). (the (redirect_host env r), v)) (completed r)"

definition head_bytes :: "header_env \<Rightarrow> out_request \<Rightarrow> string" where
  "head_bytes env r = ''HTTP/1.1 '' @ status_text (headers_out (written_request env r)) @ [CR, LF] @
     header_block (reply_fields env (written_request env r) (written_target env r))"

definition writes_head :: "header_env \<Rightarrow> out_request \<Rightarrow> bool" where
  "writes_head env r \<longleftrightarrow> \<not> or_header_sent r \<and> or_main r \<and> 1000 \<le> or_http_version r \<and> temp_buf env \<and>
     (completed r \<noteq> None \<longrightarrow> redirect_host env r \<noteq> None)"

lemma prepare_numbers: "numbers_ok env r \<Longrightarrow> numbers_ok env (prepare_head (r\<lparr>or_header_sent := True\<rparr>))"
  by (simp add: numbers_ok_def prepare_head_def adjust_to_status_def drop_last_modified_def time_ok_def Let_def)

lemma prepare_location: "location_ok (headers_out (prepare_head (r\<lparr>or_header_sent := True\<rparr>))) \<longleftrightarrow> location_ok (headers_out r)"
  by (simp add: location_ok_def prepare_head_def adjust_to_status_def drop_last_modified_def Let_def)

lemma relative_location_ok: "location_ok ho \<Longrightarrow> relative_location ho = Inr (projr (relative_location ho))"
  by (auto simp: relative_location_def location_ok_def Let_def split: option.split)

lemma hide_location_simps [simp]:
  "numbers_ok env (hide_location rel r) \<longleftrightarrow> numbers_ok env r" "or_header_only (hide_location rel r) = or_header_only r"
  "status_of (headers_out (hide_location rel r)) = status_of (headers_out r)" "redirect_host env (hide_location rel r) = redirect_host env r"
  by (auto simp: hide_location_def numbers_ok_def status_of_def redirect_host_def split: option.split)

lemma settle_vary_simps [simp]:
  "numbers_ok env (settle_vary env r) \<longleftrightarrow> numbers_ok env r" "or_header_only (settle_vary env r) = or_header_only r"
  "headers_out (settle_vary env r) = headers_out r" "redirect_host env (settle_vary env r) = redirect_host env r"
  by (simp_all add: settle_vary_def numbers_ok_def redirect_host_def)

lemma prepare_host [simp]: "redirect_host env (prepare_head (r\<lparr>or_header_sent := True\<rparr>)) = redirect_host env r"
  by (simp add: prepare_head_def adjust_to_status_def redirect_host_def Let_def)

lemma note_written_ok: "numbers_ok env r \<Longrightarrow> \<exists>r'. note_written env target s r = Inr r' \<and> or_header_only r' = or_header_only r"
  by (auto simp: note_written_def numbers_ok_def location_text_eq split: option.split)

lemma prepare_passes [simp]: "or_main (prepare_head r) = or_main r" "or_http_version (prepare_head r) = or_http_version r"
  by (simp_all add: prepare_head_def adjust_to_status_def Let_def)

lemma written_numbers: "numbers_ok env r \<Longrightarrow> numbers_ok env (written_request env r)"
  using prepare_numbers [of env r] by (simp add: written_request_def)

lemma header_filter_writes:
  assumes "numbers_ok env r" "location_ok (headers_out r)" "writes_head env r"
  shows "\<exists>r'. ngx_http_header_filter env r = Inr (HF_write (head_bytes env r) (or_header_only (written_request env r)), r')"
proof -
  let ?w = "written_request env r"
  note n = written_numbers [OF assms(1)]
  have rel: "relative_location (headers_out (prepare_head (r\<lparr>or_header_sent := True\<rparr>))) = Inr (completed r)"
    unfolding completed_def using assms(2) by (intro relative_location_ok) (simp add: prepare_location)
  have line: "status_of (headers_out (prepare_head (r\<lparr>or_header_sent := True\<rparr>))) = status_of (headers_out ?w)" by (simp add: written_request_def)
  have w: "settle_vary env (hide_location (completed r) (prepare_head (r\<lparr>or_header_sent := True\<rparr>))) = ?w" by (simp add: written_request_def)
  have t: "map_option (\<lambda>(i, v). (the (redirect_host env r), v)) (completed r) = written_target env r" by (simp add: written_target_def)
  have head: "header_text env ?w (status_of (headers_out ?w)) (written_target env r) = Inr (head_bytes env r)"
    using header_text_eq [OF n] by (simp add: head_bytes_def)
  have fits: "\<not> header_len env ?w (status_of (headers_out ?w)) (written_target env r) < length (head_bytes env r)"
    using header_fits [OF n, of "written_target env r"] by (simp add: head_bytes_def)
  obtain r' where noted: "note_written env (map_option (\<lambda>(i, v). (i, the (redirect_host env r), v)) (completed r)) (head_bytes env r) ?w = Inr r'"
      "or_header_only r' = or_header_only ?w"
    using note_written_ok [OF n] by blast
  have h: "redirect_host env ?w = redirect_host env r" by (simp add: written_request_def)
  have g: "\<not> or_header_sent r" "or_main r" "\<not> or_http_version r < 1000" "temp_buf env" "\<not> (completed r \<noteq> None \<and> redirect_host env r = None)"
    using assms(3) by (auto simp: writes_head_def)
  have "ngx_http_header_filter env r = Inr (HF_write (head_bytes env r) (or_header_only ?w), r')"
    unfolding ngx_http_header_filter_def Let_def
    by (simp only: g rel line bindr_simps hide_location_simps prepare_host w h t head fits noted if_False if_True not_True_eq_False not_False_eq_True) (simp add: g)
  then show ?thesis by blast
qed

section \<open>Properties\<close>

lemma header_filter_no_fault:
  assumes "numbers_ok env r" "location_ok (headers_out r)"
  shows "\<exists>x. ngx_http_header_filter env r = Inr x"
proof (cases "writes_head env r")
  case True
  from header_filter_writes [OF assms this] show ?thesis by blast
next
  case False
  have "relative_location (headers_out (prepare_head (r\<lparr>or_header_sent := True\<rparr>))) = Inr (completed r)"
    unfolding completed_def using assms(2) by (intro relative_location_ok) (simp add: prepare_location)
  then show ?thesis using False by (auto simp: ngx_http_header_filter_def Let_def writes_head_def)
qed

text \<open>
  C17. The head of a reply fits the buffer whose size was counted before: for every reply, redirects, chunked
  replies and unknown statuses included, whose last modification is a time between 1970 and the end of year 9999 and whose
  numbers are in the range of their types, \<open>ngx_http_header_filter\<close> does not write behind the buffer.
\<close>
theorem header_filter_fits:
  assumes "numbers_ok env r" "location_ok (headers_out r)"
  shows "\<exists>x. ngx_http_header_filter env r = Inr x"
  using assms by (rule header_filter_no_fault)

definition demo_env :: header_env where
  "demo_env = \<lparr>cached_http_time = ''Mon, 28 Sep 1970 06:00:00 GMT'', server_tokens = True, server_name_in_redirect = False, env_server_name = [],
     port_in_redirect = True, keepalive_header = 0, conf_gzip_vary = False, conn_ssl = False, conn_sockaddr = Sock_inet 8080,
     conn_local_text = None, temp_buf = True\<rparr>"

definition demo_out :: ngx_http_headers_out where
  "demo_out = \<lparr>ho_headers = [], ho_status = 200, ho_status_line = [], ho_server = None, ho_date = None, ho_content_length = None,
     ho_last_modified = None, ho_location = None, ho_content_type_len = 0, ho_content_type = ''text/html'', ho_charset = [],
     ho_content_length_n = -1, ho_last_modified_time = -1\<rparr>"

definition demo_reply :: out_request where
  "demo_reply = \<lparr>or_method = NGX_HTTP_GET, or_http_version = 1001, or_header_sent = False, or_main = True, or_header_only = False,
     or_keepalive = True, or_chunked = True, or_gzip_vary = False, or_in_server = ''a.b'', or_header_size = 0, headers_out = demo_out\<rparr>"

lemma demo_numbers_ok: "numbers_ok demo_env demo_reply" "location_ok (headers_out demo_reply)" "writes_head demo_env demo_reply"
  by (simp_all add: numbers_ok_def location_ok_def writes_head_def demo_env_def demo_reply_def demo_out_def redirect_port_def time_ok_def
      completed_def prepare_head_def adjust_to_status_def drop_last_modified_def relative_location_def Let_def)

theorem header_filter_fits_witness: "\<exists>x. ngx_http_header_filter demo_env demo_reply = Inr x"
  using header_filter_fits demo_numbers_ok by blast

lemma far_times:
  "ngx_gmtime (- 2) = \<lparr>tm_sec = 14, tm_min = 0, tm_hour = 7, tm_mday = 9, tm_mon = 11, tm_year = 438498967, tm_wday = 4\<rparr>"
  "ngx_gmtime 253402300800 = \<lparr>tm_sec = 0, tm_min = 0, tm_hour = 0, tm_mday = 1, tm_mon = 1, tm_year = 10000, tm_wday = 6\<rparr>"
  by code_simp+

lemma far_dates:
  "ngx_http_time (- 2) = Inr ''Thu, 09 Nov 438498967 07:00:14 GMT''" "ngx_http_time 253402300800 = Inr ''Sat, 01 Jan 10000 00:00:00 GMT''"
  unfolding ngx_http_time_def far_times
  by (simp add: printf_eval week_def months_def c_str_def wrap32_def u64_of_def sprintf_num_dec nat_dec.simps digit_char_def Let_def and_then_def, code_simp)+

lemmas demo_head = ngx_http_header_filter_def prepare_head_def adjust_to_status_def drop_last_modified_def relative_location_def hide_location_def
  settle_vary_def status_of_def status_index_def ngx_http_status_lines_def demo_env_def demo_reply_def demo_out_def header_text_def header_len_def
  content_type_text_def with_charset_def ngx_http_server_full_string_def

text \<open>
  A time of modification before 1970 or after year 9999, which a file can have, is printed with a longer year: the head of a
  chunked reply with such a time is written behind its buffer.
\<close>
theorem old_file_overruns_head:
  "ngx_http_header_filter demo_env (demo_reply\<lparr>headers_out := demo_out\<lparr>ho_last_modified_time := -2\<rparr>\<rparr>) = Inl BufferOverflow \<and>
   ngx_http_header_filter demo_env (demo_reply\<lparr>headers_out := demo_out\<lparr>ho_last_modified_time := 253402300800\<rparr>\<rparr>) = Inl BufferOverflow"
  by (simp add: demo_head far_dates)

section \<open>Reading the head back\<close>

lemmas status_line_simps = status_line_step_def step_status_version_def step_status_code_def Let_def

lemma version_digits: "is_digit CHR ''1''" "\<not> CHR ''1'' < CHR ''1''" "\<not> CHR ''9'' < CHR ''1''"
  by (simp_all add: is_digit_def less_eq_char_def less_char_def)

lemma run_status_code:
  assumes "is_digit d1" "is_digit d2" "is_digit d3"
  shows "run_steps status_line_step (''HTTP/1.1 '' @ [d1, d2, d3] @ t) 0 fresh_status =
    run_steps status_line_step (''HTTP/1.1 '' @ [d1, d2, d3] @ t) 12 (fresh_status\<lparr>st_state := ss_space_after_status, st_major := 1, st_minor := 1,
      st_code := digit_nat d1 * 100 + digit_nat d2 * 10 + digit_nat d3, st_count := 3, st_start := Some 9\<rparr>)"
proof -
  have d: "digit_nat d \<le> 9" "d \<noteq> CHR '' ''" if "is_digit d" for d using that by (auto simp: is_digit_def less_eq_char_def)
  have u: "ngx_uint n = n" if "n \<le> 1000" for n using that by (simp add: ngx_uint_def)
  have le: "digit_nat d1 * 10 + digit_nat d2 \<le> 1000" "100 * digit_nat d1 + digit_nat d2 * 10 + digit_nat d3 \<le> 1000" "digit_nat d1 \<le> 1000"
    using d(1) [OF assms(1)] d(1) [OF assms(2)] d(1) [OF assms(3)] by simp_all
  have twelve: "12 = Suc (Suc (Suc (Suc (Suc (Suc (Suc (Suc (Suc (Suc (Suc (Suc 0)))))))))))" by simp
  show ?thesis unfolding twelve
    by (simp add: run_steps_Next status_line_simps fresh_status_def assms d(2) version_digits u le del: One_nat_def) (simp add: mult.commute)
qed

definition reason :: "string \<Rightarrow> bool" where
  "reason w \<longleftrightarrow> CR \<notin> set w \<and> LF \<notin> set w \<and> (w \<noteq> [] \<longrightarrow> w ! 0 = CHR '' '')"

lemma parse_status_text:
  assumes "is_digit d1" "is_digit d2" "is_digit d3" "reason w"
  shows "\<exists>s. ngx_http_parse_status_line (''HTTP/1.1 '' @ [d1, d2, d3] @ w @ [CR, LF] @ t) 0 fresh_status = (NGX_OK, 14 + length w, s) \<and>
    st_code s = digit_nat d1 * 100 + digit_nat d2 * 10 + digit_nat d3 \<and> st_http_version s = 1001"
proof -
  let ?a = "''HTTP/1.1 '' @ [d1, d2, d3]" let ?b = "?a @ w @ [CR, LF] @ t" let ?step = status_line_step
  define s where "s = fresh_status\<lparr>st_state := ss_space_after_status, st_major := 1, st_minor := 1,
      st_code := digit_nat d1 * 100 + digit_nat d2 * 10 + digit_nat d3, st_count := 3, st_start := Some 9\<rparr>"
  have start: "run_steps ?step ?b 0 fresh_status = run_steps ?step ?b 12 s"
    using run_status_code [OF assms(1-3), of "w @ [CR, LF] @ t"] by (simp add: s_def)
  have at: "?b ! (12 + q) = w ! q" if "q < length w" for q using that nth_append [of ?a "w @ [CR, LF] @ t" "12 + q"] by (simp add: nth_append)
  have cr: "?b ! (12 + length w) = CR" "?b ! (13 + length w) = LF" using nth_append [of ?a "w @ [CR, LF] @ t"] by (simp_all add: nth_append)
  have len: "length ?b = 14 + length w + length t" by simp
  obtain s' where run: "run_steps ?step ?b 12 s = run_steps ?step ?b (12 + length w) s'" "s' = s \<and> w = [] \<or> s' = s\<lparr>st_state := ss_status_text\<rparr>"
  proof (cases w)
    case Nil
    then show ?thesis using that [of s] by simp
  next
    case (Cons c v)
    let ?s = "s\<lparr>st_state := ss_status_text\<rparr>"
    have "?step ?b 12 s = Next ?s" using assms(4) at [of 0] Cons by (simp add: status_line_step_def s_def reason_def)
    then have "run_steps ?step ?b 12 s = run_steps ?step ?b 13 ?s" using len run_steps_Next [of 12 ?b ?step s ?s] by simp
    moreover have "run_steps ?step ?b 13 ?s = run_steps ?step ?b (13 + length v) ?s"
    proof (rule run_steps_stay)
      fix q assume q: "13 \<le> q" "q < 13 + length v"
      then have "?b ! q = w ! (q - 12)" "q - 12 < length w" using at [of "q - 12"] Cons by simp_all
      then show "?step ?b q ?s = Next ?s" using assms(4) by (auto simp: status_line_step_def reason_def Let_def dest: nth_mem)
    qed (use len Cons in simp)
    ultimately show ?thesis using that [of ?s] Cons by simp
  qed
  have "?step ?b (12 + length w) s' = Next (s'\<lparr>st_state := ss_almost_done\<rparr>)" using run(2) cr(1) by (auto simp: status_line_step_def s_def Let_def)
  then have "run_steps ?step ?b (12 + length w) s' = run_steps ?step ?b (13 + length w) (s'\<lparr>st_state := ss_almost_done\<rparr>)"
    using len run_steps_Next [of "12 + length w" ?b] by simp
  also have "\<dots> = (13 + length w, s'\<lparr>st_state := ss_almost_done, st_end := Some (12 + length w)\<rparr>, Some True)"
    using len cr(2) by (intro run_steps_Stop) (simp_all add: status_line_step_def Let_def)
  finally have "ngx_http_parse_status_line ?b 0 fresh_status = (NGX_OK, 14 + length w,
      s'\<lparr>st_state := ss_start, st_end := Some (12 + length w), st_http_version := st_major s' * 1000 + st_minor s'\<rparr>)"
    unfolding ngx_http_parse_status_line_def start run(1) by simp
  then show ?thesis using run(2) by (auto simp: s_def)
qed

text \<open>The three digits of a status.\<close>

definition dec3 :: "nat \<Rightarrow> string" where
  "dec3 s = [digit_char (s div 100), digit_char (s div 10 mod 10), digit_char (s mod 10)]"

lemma nat_dec_3: "100 \<le> s \<Longrightarrow> s < 1000 \<Longrightarrow> nat_dec s = dec3 s"
proof -
  assume s: "100 \<le> s" "s < 1000"
  then have "s div 100 < 10" "10 \<le> s div 10" by (simp_all add: less_mult_imp_div_less)
  then show ?thesis using s
    by (simp add: nat_dec.simps [of s] nat_dec.simps [of "s div 10"] nat_dec.simps [of "s div 100"] dec3_def div_mult2_eq [symmetric])
qed

lemma digit_chars:
  "digit_char 0 = CHR ''0''" "digit_char 1 = CHR ''1''" "digit_char 2 = CHR ''2''" "digit_char 3 = CHR ''3''" "digit_char 4 = CHR ''4''"
  "digit_char 5 = CHR ''5''" "digit_char 6 = CHR ''6''" "digit_char 7 = CHR ''7''" "digit_char 8 = CHR ''8''" "digit_char 9 = CHR ''9''"
  by code_simp+

definition known_statuses :: "nat list" where
  "known_statuses = [200, 201, 202, 203, 204, 205, 206, 301, 302, 303, 304, 305, 306, 307, 400, 401, 402, 403, 404, 405, 406, 407, 408, 409, 410,
     411, 412, 413, 414, 415, 416, 500, 501, 502, 503, 504, 505, 506, 507]"

lemma known_statuses_alt: "known_statuses = [200..<207] @ [301..<308] @ [400..<417] @ [500..<508]"
  by (simp add: known_statuses_def upt_rec_numeral)

lemma known_lines:
  assumes "status_index s = Some i" "ngx_http_status_lines ! i \<noteq> []"
  shows "\<exists>w. ngx_http_status_lines ! i = dec3 s @ w \<and> reason w"
proof -
  have "list_all2 (\<lambda>s l. l \<noteq> [] \<longrightarrow> take 3 l = dec3 s \<and> reason (drop 3 l)) known_statuses ngx_http_status_lines"
    by (simp add: known_statuses_def ngx_http_status_lines_def dec3_def digit_chars digit_chars(2) [unfolded One_nat_def] reason_def)
  moreover have "i < length known_statuses" "known_statuses ! i = s"
    using assms(1) unfolding known_statuses_alt by (auto simp: status_index_def nth_append simp del: upt_rec_numeral split: if_splits)
  ultimately have "take 3 (ngx_http_status_lines ! i) = dec3 s" "reason (drop 3 (ngx_http_status_lines ! i))"
    using assms(2) by (auto simp: list_all2_conv_all_nth)
  then show ?thesis by (metis append_take_drop_id)
qed

definition good_status :: "ngx_http_headers_out \<Rightarrow> bool" where
  "good_status ho \<longleftrightarrow> ho_status_line ho = [] \<and> 100 \<le> ho_status ho \<and> ho_status ho < 1000 \<and> status_of ho \<noteq> Some []"

lemma status_text_parts:
  assumes "good_status ho"
  shows "\<exists>w. status_text ho = dec3 (ho_status ho) @ w \<and> reason w"
proof (cases "status_index (ho_status ho)")
  case None
  then show ?thesis using assms nat_dec_3 [of "ho_status ho"]
    by (intro exI [of _ "[]"]) (simp add: good_status_def status_text_def status_of_def reason_def pad0_def dec3_def)
next
  case (Some i)
  then have "ho_status_line ho = []" "ngx_http_status_lines ! i \<noteq> []" using assms by (auto simp: good_status_def status_of_def)
  then show ?thesis using known_lines [OF Some] Some by (simp add: status_text_def status_of_def)
qed

lemma dec3_digits: "s < 1000 \<Longrightarrow> is_digit (digit_char (s div 100)) \<and> is_digit (digit_char (s div 10 mod 10)) \<and> is_digit (digit_char (s mod 10)) \<and>
    digit_nat (digit_char (s div 100)) * 100 + digit_nat (digit_char (s div 10 mod 10)) * 10 + digit_nat (digit_char (s mod 10)) = s"
proof -
  assume s: "s < 1000"
  have "s div 100 = s div 10 div 10" using div_mult2_eq [of s 10 10] by simp
  moreover have "s = s div 10 * 10 + s mod 10" "s div 10 = s div 10 div 10 * 10 + s div 10 mod 10" by simp_all
  ultimately have "s div 100 * 100 + s div 10 mod 10 * 10 + s mod 10 = s" by linarith
  then show ?thesis using s by (simp add: digit_char_is_digit of_char_digit_char less_mult_imp_div_less)
qed

lemma status_kept [simp]:
  "ho_status (drop_last_modified ho) = ho_status ho" "ho_status_line (drop_last_modified ho) = ho_status_line ho"
  "ho_status (headers_out (adjust_to_status r)) = ho_status (headers_out r)" "ho_status_line (headers_out (adjust_to_status r)) = ho_status_line (headers_out r)"
  "ho_status (headers_out (hide_location rel r)) = ho_status (headers_out r)" "ho_status_line (headers_out (hide_location rel r)) = ho_status_line (headers_out r)"
  by (simp_all add: drop_last_modified_def adjust_to_status_def hide_location_def Let_def split: option.split)

lemma written_status: "status_text (headers_out (written_request env r)) = status_text (headers_out r)"
proof -
  have "ho_status (headers_out (written_request env r)) = ho_status (headers_out r)" "ho_status_line (headers_out (written_request env r)) = ho_status_line (headers_out r)"
    by (simp_all add: written_request_def prepare_head_def Let_def)
  then show ?thesis by (simp only: status_text_def status_of_def)
qed

lemma read_status:
  assumes "good_status (headers_out r)"
  shows "\<exists>s w. status_text (headers_out r) = dec3 (ho_status (headers_out r)) @ w \<and>
    ngx_http_parse_status_line (head_bytes env r @ t) 0 fresh_status = (NGX_OK, 14 + length w, s) \<and>
    st_code s = ho_status (headers_out r) \<and> st_http_version s = 1001"
proof -
  let ?s = "ho_status (headers_out r)"
  obtain w where w: "status_text (headers_out r) = dec3 ?s @ w" "reason w" using status_text_parts [OF assms] by blast
  have s: "?s < 1000" using assms by (simp add: good_status_def)
  let ?f = "header_block (reply_fields env (written_request env r) (written_target env r)) @ t"
  have b: "head_bytes env r @ t = ''HTTP/1.1 '' @ dec3 ?s @ w @ [CR, LF] @ ?f" by (simp only: head_bytes_def written_status w append_assoc)
  have d: "is_digit (digit_char (?s div 100))" "is_digit (digit_char (?s div 10 mod 10))" "is_digit (digit_char (?s mod 10))" using dec3_digits [OF s] by simp_all
  have c: "digit_nat (digit_char (?s div 100)) * 100 + digit_nat (digit_char (?s div 10 mod 10)) * 10 + digit_nat (digit_char (?s mod 10)) = ?s"
    using dec3_digits [OF s] by blast
  have "\<exists>s. ngx_http_parse_status_line (''HTTP/1.1 '' @ dec3 ?s @ w @ [CR, LF] @ ?f) 0 fresh_status = (NGX_OK, 14 + length w, s) \<and>
      st_code s = ?s \<and> st_http_version s = 1001"
    using parse_status_text [OF d w(2), of ?f] unfolding c dec3_def .
  then show ?thesis unfolding b using w(1) by blast
qed

text \<open>What the texts of a head may hold, so that they are read back.\<close>

definition contents_ok :: "header_env \<Rightarrow> out_request \<Rightarrow> bool" where
  "contents_ok env r \<longleftrightarrow> header_value (cached_http_time env) \<and> header_value (content_type_text (headers_out r)) \<and>
     list_all (\<lambda>h. o_hash h \<noteq> 0 \<longrightarrow> field_wf (o_key h, o_value h)) (ho_headers (headers_out r)) \<and>
     (\<forall>t. written_target env r = Some t \<longrightarrow> header_value (location_value env t))"

lemma field_names:
  "header_name ''Server''" "header_name ''Date''" "header_name ''Content-Type''" "header_name ''Content-Length''" "header_name ''Last-Modified''"
  "header_name ''Location''" "header_name ''Transfer-Encoding''" "header_name ''Connection''" "header_name ''Keep-Alive''" "header_name ''Vary''"
  by code_simp+

lemma field_texts:
  "header_value ''nginx''" "header_value ''nginx/1.4.1''" "header_value ''chunked''" "header_value ''upgrade''" "header_value ''keep-alive''"
  "header_value ''close''" "header_value ''Accept-Encoding''"
  by code_simp+

lemma plain_value: "\<forall>c\<in>set v. CHR '' '' \<le> c \<Longrightarrow> (v \<noteq> [] \<Longrightarrow> hd v \<noteq> CHR '' '' \<and> last v \<noteq> CHR '' '') \<Longrightarrow> header_value v"
  by (auto simp: header_value_def less_eq_char_def)

lemma dec_value: "v = [] \<or> hd v \<noteq> CHR '' '' \<Longrightarrow> \<forall>c\<in>set v. CHR '' '' \<le> c \<Longrightarrow> header_value (v @ nat_dec n)"
proof (rule plain_value)
  have d: "CHR '' '' \<le> c" "c \<noteq> CHR '' ''" if "c \<in> set (nat_dec n)" for c
    using nat_dec_digits [OF that] by (auto simp: is_digit_def less_eq_char_def)
  assume v: "v = [] \<or> hd v \<noteq> CHR '' ''" "\<forall>c\<in>set v. CHR '' '' \<le> c"
  then show "\<forall>c\<in>set (v @ nat_dec n). CHR '' '' \<le> c" using d(1) by auto
  show "hd (v @ nat_dec n) \<noteq> CHR '' '' \<and> last (v @ nat_dec n) \<noteq> CHR '' ''"
    using v(1) d(2) nat_dec_nonempty [of n] by (auto simp: hd_append)
qed

lemma time_value: "time_ok t \<Longrightarrow> t \<noteq> -1 \<Longrightarrow> header_value (projr (ngx_http_time t))"
  unfolding time_ok_def by (metis http_time_bytes plain_value sum.sel(2))

lemma connection_fields_wf: "list_all field_wf (connection_fields env r)"
  using dec_value [of "''timeout=''"] by (simp add: connection_fields_def field_names field_texts)

lemma list_fields_wf: "list_all field_wf (list_fields hs) \<longleftrightarrow> list_all (\<lambda>h. o_hash h \<noteq> 0 \<longrightarrow> field_wf (o_key h, o_value h)) hs"
  by (induction hs) (simp_all add: list_fields_def)

lemma reply_fields_wf:
  assumes "header_value (cached_http_time env)" "ho_content_type (headers_out r) \<noteq> [] \<Longrightarrow> header_value (content_type_text (headers_out r))"
    "list_all (\<lambda>h. o_hash h \<noteq> 0 \<longrightarrow> field_wf (o_key h, o_value h)) (ho_headers (headers_out r))"
    "\<And>t. target = Some t \<Longrightarrow> header_value (location_value env t)" "time_ok (ho_last_modified_time (headers_out r))"
  shows "list_all field_wf (reply_fields env r target)"
  using assms(1-4) time_value [OF assms(5)] connection_fields_wf list_fields_wf dec_value [of "[]"]
  by (simp add: reply_fields_def field_names field_texts Let_def split: option.split)

lemma prepare_contents:
  "ho_content_type (headers_out (prepare_head r)) = [] \<or> content_type_text (headers_out (prepare_head r)) = content_type_text (headers_out r)"
  "ho_headers (headers_out (prepare_head r)) = ho_headers (headers_out r)"
proof -
  have d: "content_type_text (drop_last_modified ho) = content_type_text ho" "ho_headers (drop_last_modified ho) = ho_headers ho" for ho
    by (simp_all add: drop_last_modified_def content_type_text_def with_charset_def)
  have a: "ho_content_type (headers_out (adjust_to_status r)) = [] \<or> headers_out (adjust_to_status r) = headers_out r"
    "ho_headers (headers_out (adjust_to_status r)) = ho_headers (headers_out r)" for r
    by (simp_all add: adjust_to_status_def Let_def)
  show "ho_content_type (headers_out (prepare_head r)) = [] \<or> content_type_text (headers_out (prepare_head r)) = content_type_text (headers_out r)"
    using a(1) [of "(if or_method r = NGX_HTTP_HEAD then r\<lparr>or_header_only := True\<rparr> else r)\<lparr>headers_out := drop_last_modified (headers_out r)\<rparr>"]
    by (auto simp: prepare_head_def Let_def d split: if_splits)
  show "ho_headers (headers_out (prepare_head r)) = ho_headers (headers_out r)" by (simp add: prepare_head_def Let_def a(2) d)
qed

lemma written_fields_wf:
  assumes "numbers_ok env r" "contents_ok env r"
  shows "list_all field_wf (reply_fields env (written_request env r) (written_target env r))"
proof (rule reply_fields_wf)
  let ?p = "prepare_head (r\<lparr>or_header_sent := True\<rparr>)"
  have c: "ho_content_type (headers_out (written_request env r)) = ho_content_type (headers_out ?p)"
      "content_type_text (headers_out (written_request env r)) = content_type_text (headers_out ?p)"
    by (simp_all add: written_request_def hide_location_def content_type_text_def with_charset_def split: option.split)
  have p: "ho_content_type (headers_out ?p) = [] \<or> content_type_text (headers_out ?p) = content_type_text (headers_out r)"
      "ho_headers (headers_out ?p) = ho_headers (headers_out r)"
    using prepare_contents [of "r\<lparr>or_header_sent := True\<rparr>"] by simp_all
  show "header_value (content_type_text (headers_out (written_request env r)))" if "ho_content_type (headers_out (written_request env r)) \<noteq> []"
    using that c p(1) assms(2) by (simp add: contents_ok_def)
  let ?hs = "ho_headers (headers_out r)"
  have "list_all (\<lambda>h. o_hash h \<noteq> 0 \<longrightarrow> field_wf (o_key h, o_value h)) (?hs[i := (?hs ! i)\<lparr>o_hash := 0\<rparr>])" for i
    using assms(2) by (cases "i < length ?hs") (auto simp: contents_ok_def list_all_length nth_list_update)
  then show "list_all (\<lambda>h. o_hash h \<noteq> 0 \<longrightarrow> field_wf (o_key h, o_value h)) (ho_headers (headers_out (written_request env r)))"
    using assms(2) p(2) by (simp add: written_request_def hide_location_def contents_ok_def split: option.split)
  show "time_ok (ho_last_modified_time (headers_out (written_request env r)))"
    using written_numbers [OF assms(1)] unfolding numbers_ok_def by blast
qed (use assms(2) in \<open>simp_all add: contents_ok_def\<close>)

definition head_reader :: "(unit, unit) headers_conf" where
  "head_reader = \<lparr>underscores_in_headers = (\<lambda>s. False), ignore_invalid_headers = (\<lambda>s. True), headers_in_hash = [None],
     handler = (\<lambda>hh h s. Inr (Inr s)), push_alloc = (\<lambda>n. True), name_alloc = (\<lambda>n. True)\<rparr>"

lemma head_reader_handlers: "call_handlers head_reader hs () = Inr (Inr ())"
  by (induction hs) (simp_all add: call_handler_def head_reader_def ngx_hash_find_def)

lemma reply_head_reads:
  assumes "numbers_ok env r" "location_ok (headers_out r)" "writes_head env r" "contents_ok env r" "good_status (headers_out r)"
  shows "\<exists>head only r' n s hs. ngx_http_header_filter env r = Inr (HF_write head only, r') \<and>
    ngx_http_parse_status_line (head @ body) 0 fresh_status = (NGX_OK, n, s) \<and>
    st_code s = ho_status (headers_out r) \<and> st_http_version s = 1001 \<and>
    ngx_http_process_request_headers head_reader (head @ body) n fresh_header [] () = Inr (Headers_done (length head), hs, ()) \<and>
    map (\<lambda>h. (h_key h, h_value h)) hs = reply_fields env (written_request env r) (written_target env r)"
proof -
  let ?fs = "reply_fields env (written_request env r) (written_target env r)"
  obtain r' where f: "ngx_http_header_filter env r = Inr (HF_write (head_bytes env r) (or_header_only (written_request env r)), r')"
    using header_filter_writes [OF assms(1-3)] by blast
  obtain s w where s: "status_text (headers_out r) = dec3 (ho_status (headers_out r)) @ w"
      "ngx_http_parse_status_line (head_bytes env r @ body) 0 fresh_status = (NGX_OK, 14 + length w, s)"
      "st_code s = ho_status (headers_out r)" "st_http_version s = 1001"
    using read_status [OF assms(5)] by blast
  let ?a = "''HTTP/1.1 '' @ status_text (headers_out r) @ [CR, LF]"
  have b: "head_bytes env r = ?a @ header_block ?fs" by (simp add: head_bytes_def written_status)
  have a: "length ?a = 14 + length w" by (simp add: s(1) dec3_def)
  have "ngx_http_process_request_headers head_reader (?a @ header_block ?fs @ body) (length ?a) fresh_header [] () =
      Inr (Headers_done (length (?a @ header_block ?fs)), map field_of ?fs, ())"
    using process_header_block(1) [OF _ written_fields_wf [OF assms(1,4)], of head_reader fresh_header "()" "()" ?a body "[]"] head_reader_handlers
    by (simp add: memory_ok_def head_reader_def fresh_header_def)
  then have "ngx_http_process_request_headers head_reader (head_bytes env r @ body) (14 + length w) fresh_header [] () =
      Inr (Headers_done (length (head_bytes env r)), map field_of ?fs, ())"
    unfolding a [symmetric] b by (simp only: append_assoc)
  moreover have "map (\<lambda>h. (h_key h, h_value h)) (map field_of ?fs) = ?fs" by (simp add: field_of_def comp_def)
  ultimately show ?thesis using f s(2-4) by blast
qed

text \<open>
  C16. The head of a reply is read back: the bytes that \<open>ngx_http_header_filter\<close> passes on, with any body behind them, are
  accepted by \<open>ngx_http_parse_status_line\<close>, with the status of the reply and version 1.1, and from there the parser of header
  lines reads exactly the fields of the reply in their order (the generated ones, the completed location, then those of the
  list that are not hidden) and stops right before the body. The status has three digits and is not one of those that the
  table has no text for; the texts hold no line ends.
\<close>
theorem reply_head_round_trip:
  assumes "numbers_ok env r" "location_ok (headers_out r)" "writes_head env r" "contents_ok env r" "good_status (headers_out r)"
  shows "\<exists>head only r' n s hs. ngx_http_header_filter env r = Inr (HF_write head only, r') \<and>
    ngx_http_parse_status_line (head @ body) 0 fresh_status = (NGX_OK, n, s) \<and>
    st_code s = ho_status (headers_out r) \<and> st_http_version s = 1001 \<and>
    ngx_http_process_request_headers head_reader (head @ body) n fresh_header [] () = Inr (Headers_done (length head), hs, ()) \<and>
    map (\<lambda>h. (h_key h, h_value h)) hs = reply_fields env (written_request env r) (written_target env r)"
  using assms by (rule reply_head_reads)

text \<open>
  Where the table of status lines has an empty entry (203, 205, 305, 306, 407, 414, 505 and 506), the head starts with a
  status line without a status, which \<open>ngx_http_parse_status_line\<close> refuses.
\<close>
theorem null_status_unreadable:
  assumes "numbers_ok env r" "location_ok (headers_out r)" "writes_head env r" "ho_status_line (headers_out r) = []"
    "ho_status (headers_out r) \<in> {203, 205, 305, 306, 407, 414, 505, 506}"
  shows "\<exists>head only r'. ngx_http_header_filter env r = Inr (HF_write head only, r') \<and>
    fst (ngx_http_parse_status_line (head @ body) 0 fresh_status) = NGX_ERROR"
proof -
  let ?t = "LF # header_block (reply_fields env (written_request env r) (written_target env r)) @ body"
  obtain r' where f: "ngx_http_header_filter env r = Inr (HF_write (head_bytes env r) (or_header_only (written_request env r)), r')"
    using header_filter_writes [OF assms(1-3)] by blast
  have "status_index (ho_status (headers_out r)) \<in> {Some 3, Some 5, Some 11, Some 12, Some 21, Some 28, Some 36, Some 37}"
    using assms(5) by (elim insertE emptyE; simp add: status_index_def)
  then have "status_of (headers_out r) = Some []"
    using assms(4) by (elim insertE emptyE; simp add: status_of_def ngx_http_status_lines_def)
  then have "status_text (headers_out r) = []" by (simp add: status_text_def)
  then have "head_bytes env r @ body = ''HTTP/1.1 '' @ CR # ?t" by (simp add: head_bytes_def written_status)
  moreover have "fst (ngx_http_parse_status_line (''HTTP/1.1 '' @ CR # t) 0 fresh_status) = NGX_ERROR" for t
    by (simp add: ngx_http_parse_status_line_def run_steps_Next run_steps_Stop [where r = False] status_line_simps fresh_status_def version_digits)
  ultimately have "fst (ngx_http_parse_status_line (head_bytes env r @ body) 0 fresh_status) = NGX_ERROR" by (simp only:)
  with f show ?thesis by blast
qed

lemma demo_contents: "contents_ok demo_env demo_reply" "good_status (headers_out demo_reply)"
proof -
  have "completed demo_reply = None"
    by (simp add: completed_def demo_reply_def demo_out_def prepare_head_def adjust_to_status_def drop_last_modified_def relative_location_def Let_def)
  moreover have "header_value (cached_http_time demo_env)" "header_value (content_type_text demo_out)" by code_simp+
  ultimately show "contents_ok demo_env demo_reply"
    by (simp add: contents_ok_def written_target_def) (simp add: demo_reply_def demo_out_def)
  show "good_status (headers_out demo_reply)"
    by (simp add: good_status_def demo_reply_def demo_out_def status_of_def status_index_def ngx_http_status_lines_def)
qed

theorem reply_head_round_trip_witness:
  "\<exists>head only r' n s. ngx_http_header_filter demo_env demo_reply = Inr (HF_write head only, r') \<and>
    ngx_http_parse_status_line (head @ ''body'') 0 fresh_status = (NGX_OK, n, s) \<and> st_code s = 200"
proof -
  have "ho_status (headers_out demo_reply) = 200" by (simp add: demo_reply_def demo_out_def)
  then show ?thesis using reply_head_round_trip [OF demo_numbers_ok demo_contents, of "''body''"] by force
qed

theorem null_status_unreadable_witness:
  "\<exists>head only r'. ngx_http_header_filter demo_env (demo_reply\<lparr>headers_out := demo_out\<lparr>ho_status := 203\<rparr>\<rparr>) = Inr (HF_write head only, r') \<and>
    fst (ngx_http_parse_status_line (head @ []) 0 fresh_status) = NGX_ERROR"
  by (rule null_status_unreadable)
     (simp_all add: numbers_ok_def location_ok_def writes_head_def demo_env_def demo_reply_def demo_out_def redirect_port_def time_ok_def
      completed_def prepare_head_def adjust_to_status_def drop_last_modified_def relative_location_def Let_def)

end
