(* ===== verification/Ngx_Http_Range.thy ===== *)
theory Ngx_Http_Range
  imports Ngx_Times
begin

text \<open>
  Byte ranges: the header filter and the body filter of \<^verbatim>\<open>src/nginx/src/http/modules/ngx_http_range_filter_module.c\<close>. Which
  ranges are accepted, and what is sent for one range and for several.

  The value of the header is a string behind which a NUL stands, so the end of the list is that NUL. \<open>off_t\<close> has 64 bits and wraps
  around. A buffer stands for the bytes it has in memory or in a file; both pairs of pointers are moved alike.
\<close>

section \<open>Reading the ranges\<close>

definition skip_spaces :: "string \<Rightarrow> string" where
  "skip_spaces p = dropWhile (\<lambda>c. c = CHR '' '') p"

fun range_number :: "int \<Rightarrow> string \<Rightarrow> int \<times> string" where
  "range_number n [] = (n, [])"
| "range_number n (c # p) = (if is_digit c then range_number (wrap64 (wrap64 (n * 10) + digit_val c)) p else (n, c # p))"

definition at_digit :: "string \<Rightarrow> bool" where
  "at_digit p \<longleftrightarrow> p \<noteq> [] \<and> is_digit (p ! 0)"

definition at_byte :: "char \<Rightarrow> string \<Rightarrow> bool" where
  "at_byte c p \<longleftrightarrow> p \<noteq> [] \<and> p ! 0 = c"

text \<open>From the number behind the dash on; \<open>None\<close> is \<open>NGX_HTTP_RANGE_NOT_SATISFIABLE\<close>.\<close>

definition range_end :: "int \<Rightarrow> bool \<Rightarrow> int \<Rightarrow> string \<Rightarrow> ((int \<times> int) \<times> string) option" where
  "range_end content_length suffix start p =
     (if \<not> at_digit p then None
      else
        let (fin, p) = range_number 0 p; p = skip_spaces p in
        if p \<noteq> [] \<and> \<not> at_byte (CHR '','') p then None
        else
          let (start, fin) = (if suffix then (wrap64 (content_length - fin), wrap64 (content_length - 1)) else (start, fin)) in
          Some ((start, if fin \<ge> content_length then content_length else fin + 1), p))"

definition range_one :: "int \<Rightarrow> string \<Rightarrow> ((int \<times> int) \<times> string) option" where
  "range_one content_length p =
     (let p = skip_spaces p in
      if at_byte (CHR ''-'') p then range_end content_length True 0 (drop 1 p)
      else if \<not> at_digit p then None
      else
        let (start, p) = range_number 0 p; p = skip_spaces p in
        if \<not> at_byte (CHR ''-'') p then None
        else
          let p = skip_spaces (drop 1 p) in
          if at_byte (CHR '','') p \<or> p = [] then Some ((start, content_length), p)
          else range_end content_length False start p)"

datatype range_result = Range_ok "(int \<times> int) list" | Range_declined | Range_not_satisfiable | Range_error

lemma skip_spaces_length: "length (skip_spaces p) \<le> length p"
  by (simp add: skip_spaces_def length_dropWhile_le)

lemma range_number_length: "length (snd (range_number n p)) \<le> length p"
  by (induction n p rule: range_number.induct) (simp_all add: le_SucI)

lemma range_end_length:
  assumes "range_end cl b s p = Some (se, q)"
  shows "length q \<le> length p"
proof -
  obtain l p' where n: "range_number 0 p = (l, p')" by (cases "range_number 0 p")
  then have "q = skip_spaces p'" using assms by (auto simp: range_end_def Let_def split: if_splits)
  then show ?thesis using range_number_length [of 0 p] skip_spaces_length [of p'] n by simp
qed

lemma range_one_length:
  assumes "range_one cl p = Some (se, q)"
  shows "length q \<le> length p"
proof -
  obtain l p' where n: "range_number 0 (skip_spaces p) = (l, p')" by (cases "range_number 0 (skip_spaces p)")
  have a: "length (skip_spaces (drop 1 (skip_spaces p'))) \<le> length p"
    using skip_spaces_length [of "drop 1 (skip_spaces p')"] skip_spaces_length [of p'] range_number_length [of 0 "skip_spaces p"] n skip_spaces_length [of p] by simp
  have b: "length (drop 1 (skip_spaces p)) \<le> length p" using skip_spaces_length [of p] by simp
  show ?thesis using assms a b unfolding range_one_def n Let_def prod.case
    by (auto split: if_splits dest!: range_end_length)
qed

lemma behind_byte: "at_byte c q \<Longrightarrow> length q \<le> n \<Longrightarrow> length q - Suc 0 < n"
  by (cases q) (simp_all add: at_byte_def)

text \<open>\<open>push n\<close> tells whether the n-th element can be added to the array; \<open>ranges\<close> is the configured maximum.\<close>

function range_loop :: "(nat \<Rightarrow> bool) \<Rightarrow> int \<Rightarrow> nat \<Rightarrow> int \<Rightarrow> (int \<times> int) list \<Rightarrow> string \<Rightarrow> range_result" where
  "range_loop push content_length ranges sz rs p =
     (case range_one content_length p of
        None \<Rightarrow> Range_not_satisfiable
      | Some ((start, fin), q) \<Rightarrow>
          if start < fin \<and> \<not> push (length rs) then Range_error
          else if start < fin \<and> ranges = 0 then Range_declined
          else
            let rs = (if start < fin then rs @ [(start, fin)] else rs);
                sz = (if start < fin then wrap64 (sz + wrap64 (fin - start)) else sz);
                ranges = (if start < fin then ranges - 1 else ranges) in
            if at_byte (CHR '','') q then range_loop push content_length ranges sz rs (drop 1 q)
            else if rs = [] then Range_not_satisfiable
            else if sz > content_length then Range_declined
            else Range_ok rs)"
  by pat_completeness auto
termination
  by (relation "measure (\<lambda>(push, cl, ranges, sz, rs, p). length p)") (auto dest: range_one_length intro: behind_byte)

declare range_loop.simps [simp del]

definition ngx_http_range_parse :: "(nat \<Rightarrow> bool) \<Rightarrow> int \<Rightarrow> nat \<Rightarrow> string \<Rightarrow> range_result" where
  "ngx_http_range_parse push content_length_n ranges v = range_loop push content_length_n ranges 0 [] (drop 6 v)"

section \<open>Sending a range\<close>

abbreviation (input) NGX_OFF_T_LEN :: nat where "NGX_OFF_T_LEN \<equiv> 20"

text \<open>The value of \<open>Content-Range\<close> and the new \<open>content_length_n\<close>.\<close>

definition ngx_http_range_singlepart_header :: "int \<Rightarrow> int \<times> int \<Rightarrow> (string \<times> int) c_result" where
  "ngx_http_range_singlepart_header content_length_n rg =
     bindr (ngx_sprintf ''bytes %O-%O/%O'' [Va_int (fst rg), Va_int (wrap64 (snd rg - 1)), Va_int content_length_n]) (\<lambda>s.
       if length s > length ''bytes -/'' + 3 * NGX_OFF_T_LEN then Inl BufferOverflow
       else Inr (s, wrap64 (snd rg - fst rg)))"

record range_buf =
  rb_bytes :: string
  rb_special :: bool
  rb_last :: bool

text \<open>\<open>ngx_buf_size\<close>; the result is the chain that is passed on and the new \<open>ctx->offset\<close>.\<close>

definition rb_size :: "range_buf \<Rightarrow> int" where
  "rb_size b = int (length (rb_bytes b))"

fun ngx_http_range_singlepart_body :: "int \<times> int \<Rightarrow> int \<Rightarrow> range_buf list \<Rightarrow> range_buf list \<times> int" where
  "ngx_http_range_singlepart_body rg offset [] = ([], offset)"
| "ngx_http_range_singlepart_body rg offset (buf # cl) =
     (let start = offset; fin = wrap64 (offset + rb_size buf) in
      if rb_special buf then
        (let (out, off) = ngx_http_range_singlepart_body rg fin cl in (buf # out, off))
      else if snd rg \<le> start \<or> fst rg \<ge> fin then ngx_http_range_singlepart_body rg fin cl
      else
        let buf1 = (if fst rg > start then buf\<lparr>rb_bytes := drop (nat (fst rg - start)) (rb_bytes buf)\<rparr> else buf) in
        if snd rg \<le> fin then
          ([buf1\<lparr>rb_bytes := take (length (rb_bytes buf1) - nat (fin - snd rg)) (rb_bytes buf1), rb_last := True\<rparr>], fin)
        else
          (let (out, off) = ngx_http_range_singlepart_body rg fin cl in (buf1 # out, off)))"

definition ngx_http_range_test_overlapped :: "(int \<times> int) list \<Rightarrow> int \<Rightarrow> range_buf \<Rightarrow> int \<times> int" where
  "ngx_http_range_test_overlapped rs offset buf =
     (let fin = wrap64 (offset + rb_size buf) in
      if offset \<noteq> 0 then (NGX_ERROR, offset)
      else if \<not> rb_last buf \<and> (\<exists>r\<in>set rs. offset > fst r \<or> fin < snd r) then (NGX_ERROR, offset)
      else (NGX_OK, rb_size buf))"

text \<open>
  More than one range: the header in front of each, the text behind it, the length announced. \<open>boundary\<close> is what
  \<open>ngx_next_temp_number\<close> returns. \<open>put_text\<close> is a write into \<open>n\<close> bytes of the pool.
\<close>

abbreviation (input) NGX_ATOMIC_T_LEN :: nat where "NGX_ATOMIC_T_LEN \<equiv> 20"

definition put_text :: "nat \<Rightarrow> string c_result \<Rightarrow> string c_result" where
  "put_text n m = bindr m (\<lambda>s. if length s > n then Inl BufferOverflow else Inr s)"

definition boundary_header :: "string \<Rightarrow> string \<Rightarrow> int \<Rightarrow> string c_result" where
  "boundary_header content_type charset boundary =
     put_text (4 + NGX_ATOMIC_T_LEN + length ''..Content-Type: '' + length content_type + length ''..Content-Range: bytes ''
         + (if charset \<noteq> [] then length ''; charset='' + length charset else 0))
       (if charset \<noteq> [] then
          ngx_sprintf ([CR, LF] @ ''--%0muA'' @ [CR, LF] @ ''Content-Type: %V; charset=%V'' @ [CR, LF] @ ''Content-Range: bytes '')
            [Va_int boundary, Va_str content_type, Va_str charset]
        else if content_type \<noteq> [] then
          ngx_sprintf ([CR, LF] @ ''--%0muA'' @ [CR, LF] @ ''Content-Type: %V'' @ [CR, LF] @ ''Content-Range: bytes '')
            [Va_int boundary, Va_str content_type]
        else
          ngx_sprintf ([CR, LF] @ ''--%0muA'' @ [CR, LF] @ ''Content-Range: bytes '') [Va_int boundary])"

definition range_text :: "int \<Rightarrow> int \<times> int \<Rightarrow> string c_result" where
  "range_text content_length_n rg =
     put_text (3 * NGX_OFF_T_LEN + 2 + 4)
       (ngx_sprintf (''%O-%O/%O'' @ [CR, LF, CR, LF]) [Va_int (fst rg), Va_int (wrap64 (snd rg - 1)), Va_int content_length_n])"

fun range_texts :: "int \<Rightarrow> (int \<times> int) list \<Rightarrow> string list c_result" where
  "range_texts n [] = Inr []"
| "range_texts n (r # rs) = bindr (range_text n r) (\<lambda>t. bindr (range_texts n rs) (\<lambda>ts. Inr (t # ts)))"

text \<open>The size of the last boundary, then each part; \<open>size_t\<close> wraps around.\<close>

fun multipart_len :: "nat \<Rightarrow> string list \<Rightarrow> (int \<times> int) list \<Rightarrow> nat \<Rightarrow> nat" where
  "multipart_len bl (t # ts) (r # rs) len = multipart_len bl ts rs (u64_of (int (len + bl + length t) + (snd r - fst r)))"
| "multipart_len bl _ _ len = len"

text \<open>Header and texts are kept in the context; content type and length go into the head of the reply.\<close>

definition ngx_http_range_multipart_header ::
    "string \<Rightarrow> string \<Rightarrow> int \<Rightarrow> int \<Rightarrow> (int \<times> int) list \<Rightarrow> (string \<times> string list \<times> string \<times> int) c_result" where
  "ngx_http_range_multipart_header content_type charset boundary content_length_n rs =
     bindr (boundary_header content_type charset boundary) (\<lambda>bh.
       bindr (put_text (length ''Content-Type: multipart/byteranges; boundary='' + NGX_ATOMIC_T_LEN)
           (ngx_sprintf ''multipart/byteranges; boundary=%0muA'' [Va_int boundary])) (\<lambda>ct.
         bindr (range_texts content_length_n rs) (\<lambda>ts.
           Inr (bh, ts, ct, wrap64 (int (multipart_len (length bh) ts rs (4 + NGX_ATOMIC_T_LEN + 4)))))))"

text \<open>
  The parts of the body. The data of a part are the bytes of the one buffer between \<open>start\<close> and \<open>end\<close>; pointers outside of
  the buffer are a fault.
\<close>

definition part_data :: "range_buf \<Rightarrow> int \<times> int \<Rightarrow> string c_result" where
  "part_data buf rg =
     (if 0 \<le> fst rg \<and> fst rg \<le> snd rg \<and> snd rg \<le> rb_size buf
      then Inr (take (nat (snd rg - fst rg)) (drop (nat (fst rg)) (rb_bytes buf))) else Inl BufferOverflow)"

fun multipart_parts :: "string \<Rightarrow> string list \<Rightarrow> range_buf \<Rightarrow> (int \<times> int) list \<Rightarrow> string list c_result" where
  "multipart_parts bh (t # ts) buf (r # rs) =
     bindr (part_data buf r) (\<lambda>d. bindr (multipart_parts bh ts buf rs) (\<lambda>ps. Inr (bh # t # d # ps)))"
| "multipart_parts bh _ buf _ = Inr []"

definition ngx_http_range_multipart_body :: "string \<Rightarrow> string list \<Rightarrow> (int \<times> int) list \<Rightarrow> range_buf \<Rightarrow> string list c_result" where
  "ngx_http_range_multipart_body bh ts rs buf =
     bindr (multipart_parts bh ts buf rs) (\<lambda>ps. Inr (ps @ [take (4 + NGX_ATOMIC_T_LEN) bh @ ''--'' @ [CR, LF]]))"

section \<open>The filters\<close>

record range_request =
  rr_http_version :: nat
  rr_status :: nat
  rr_main :: bool
  rr_content_length_n :: int
  rr_allow_ranges :: bool
  rr_max_ranges :: nat
  rr_range :: "string option"
  rr_if_range :: "string option"
  rr_etag :: "string option"
  rr_last_modified_time :: int
  rr_content_type :: string
  rr_charset :: string

text \<open>
  What the header filter does: pass the reply on, pass it on with \<open>Accept-Ranges\<close>, or change it to a partial reply with its
  \<open>Content-Range\<close> or content type and the length, or to status 416. That memory can be had is the argument \<open>memory\<close>.
\<close>

datatype range_action =
    RA_next | RA_accept_ranges | RA_single "int \<times> int" string int | RA_multi "(int \<times> int) list" string "string list" string int
  | RA_not_satisfiable string | RA_error

definition ngx_http_range_not_satisfiable :: "int \<Rightarrow> range_action c_result" where
  "ngx_http_range_not_satisfiable content_length_n =
     bindr (put_text (length ''bytes */'' + NGX_OFF_T_LEN) (ngx_sprintf ''bytes */%O'' [Va_int content_length_n])) (\<lambda>s. Inr (RA_not_satisfiable s))"

definition if_range_holds :: "range_request \<Rightarrow> bool c_result" where
  "if_range_holds r =
     (case rr_if_range r of
        None \<Rightarrow> Inr True
      | Some v \<Rightarrow>
          if length v \<ge> 2 \<and> v ! (length v - 1) = CHR 0x22 then
            Inr (case rr_etag r of None \<Rightarrow> False | Some e \<Rightarrow> length v = length e \<and> ngx_strncmp v e (length e) = 0)
          else if rr_last_modified_time r = -1 then Inr False
          else bindr (ngx_http_parse_time v) (\<lambda>t. Inr (t = rr_last_modified_time r)))"

definition ngx_http_range_header_filter :: "bool \<Rightarrow> (nat \<Rightarrow> bool) \<Rightarrow> int \<Rightarrow> range_request \<Rightarrow> range_action c_result" where
  "ngx_http_range_header_filter memory push boundary r =
     (let accept = Inr (if memory then RA_accept_ranges else RA_error); cl = rr_content_length_n r in
      if rr_http_version r < 1000 \<or> rr_status r \<noteq> 200 \<or> \<not> rr_main r \<or> cl = -1 \<or> \<not> rr_allow_ranges r then Inr RA_next
      else if rr_max_ranges r = 0 then Inr RA_next
      else
        case rr_range r of
          None \<Rightarrow> accept
        | Some v \<Rightarrow>
            if length v < 7 \<or> ngx_strncasecmp v ''bytes='' 6 \<noteq> 0 then accept
            else bindr (if_range_holds r) (\<lambda>go.
              if \<not> go then accept
              else if \<not> memory then Inr RA_error
              else
                case ngx_http_range_parse push cl (rr_max_ranges r) v of
                  Range_ok rs \<Rightarrow>
                    if length rs = 1 then
                      bindr (ngx_http_range_singlepart_header cl (rs ! 0)) (\<lambda>(value, n). Inr (RA_single (rs ! 0) value n))
                    else
                      bindr (ngx_http_range_multipart_header (rr_content_type r) (rr_charset r) boundary cl rs) (\<lambda>(bh, ts, ct, n).
                        Inr (RA_multi rs bh ts ct n))
                | Range_not_satisfiable \<Rightarrow> ngx_http_range_not_satisfiable cl
                | Range_error \<Rightarrow> Inr RA_error
                | Range_declined \<Rightarrow> accept))"

text \<open>The body filter on a chain that is not empty: the bytes it passes on, \<open>Inr None\<close> for \<open>NGX_ERROR\<close>, and the offset.\<close>

definition ngx_http_range_body_filter :: "range_action \<Rightarrow> int \<Rightarrow> range_buf list \<Rightarrow> (string option \<times> int) c_result" where
  "ngx_http_range_body_filter act offset chain =
     (case act of
        RA_single rg value n \<Rightarrow> (case ngx_http_range_singlepart_body rg offset chain of (out, off) \<Rightarrow> Inr (Some (concat (map rb_bytes out)), off))
      | RA_multi rs bh ts ct n \<Rightarrow>
          (case chain of
             [] \<Rightarrow> Inr (Some [], offset)
           | buf # _ \<Rightarrow>
               if rb_special buf then Inr (Some (concat (map rb_bytes chain)), offset)
               else
                 case ngx_http_range_test_overlapped rs offset buf of (rc, off) \<Rightarrow>
                   if rc \<noteq> NGX_OK then Inr (None, off)
                   else bindr (ngx_http_range_multipart_body bh ts rs buf) (\<lambda>ps. Inr (Some (concat ps), off)))
      | _ \<Rightarrow> Inr (Some (concat (map rb_bytes chain)), offset))"

section \<open>Accepted ranges lie inside\<close>

fun short_runs :: "nat \<Rightarrow> nat \<Rightarrow> string \<Rightarrow> bool" where
  "short_runs k n [] = True"
| "short_runs k n (c # p) = (if is_digit c then n < k \<and> short_runs k (n + 1) p else short_runs k 0 p)"

lemma short_runs_mono: "short_runs k n p \<Longrightarrow> m \<le> n \<Longrightarrow> short_runs k m p"
  by (induction p arbitrary: n m) (auto intro: le_less_trans split: if_splits)

lemma short_runs_suffix: "short_runs k n (a @ b) \<Longrightarrow> short_runs k 0 b"
  by (induction a arbitrary: n) (auto intro: short_runs_mono split: if_splits)

lemma short_runs_length: "short_runs k n p \<Longrightarrow> n + length (takeWhile is_digit p) \<le> max n k"
  by (induction p arbitrary: n) (fastforce split: if_splits)+

lemma range_number_eq: "range_number (wrap64 v) p = (wrap64 (dec_from v (takeWhile is_digit p)), dropWhile is_digit p)"
proof (induction p arbitrary: v)
  case (Cons c p)
  from Cons.IH [of "v * 10 + digit_val c"] show ?case by simp
qed simp

lemma range_number_0: "range_number 0 p = (wrap64 (dec_val (takeWhile is_digit p)), dropWhile is_digit p)"
  using range_number_eq [of 0 p] by simp

lemma range_number_short:
  assumes "short_runs k 0 p" "k \<le> 18"
  shows "range_number 0 p = (dec_val (takeWhile is_digit p), dropWhile is_digit p)" "0 \<le> dec_val (takeWhile is_digit p)"
    "dec_val (takeWhile is_digit p) < 10 ^ k"
proof -
  let ?d = "takeWhile is_digit p"
  have b: "0 \<le> dec_val ?d" "dec_val ?d < 10 ^ length ?d" using dec_val_bounds [of ?d] by (auto dest: set_takeWhileD)
  have "length ?d \<le> k" using short_runs_length [OF assms(1)] by simp
  then have "(10 :: int) ^ length ?d \<le> 10 ^ k" "(10 :: int) ^ k \<le> 10 ^ 18" using assms(2) power_increasing [of k 18 "10 :: int"] by (auto intro: power_increasing)
  then have lt: "dec_val ?d < 10 ^ k" using b(2) by (meson less_le_trans)
  show "0 \<le> dec_val ?d" "dec_val ?d < 10 ^ k" by (rule b(1), rule lt)
  with b(1) lt have "wrap64 (dec_val ?d) = dec_val ?d" using \<open>(10 :: int) ^ k \<le> 10 ^ 18\<close> by (intro wrap64_id) (simp add: is_int64_def)
  then show "range_number 0 p = (dec_val ?d, dropWhile is_digit p)" by (simp add: range_number_0)
qed

definition range_ok :: "int \<Rightarrow> int \<times> int \<Rightarrow> bool" where
  "range_ok cl r \<longleftrightarrow> fst r < snd r \<and> snd r \<le> cl \<and> (fst r < 0 \<longrightarrow> snd r = cl)"

lemma suffix_parts: "\<exists>a. p = a @ skip_spaces p" "\<exists>a. p = a @ dropWhile is_digit p" "\<exists>a. p = a @ drop 1 p"
  unfolding skip_spaces_def by (metis takeWhile_dropWhile_id append_take_drop_id)+

lemma short_runs_parts:
  assumes "short_runs k 0 p"
  shows "short_runs k 0 (skip_spaces p)" "short_runs k 0 (dropWhile is_digit p)" "short_runs k 0 (drop 1 p)"
  using suffix_parts [of p] assms short_runs_suffix by metis+

lemma range_end_bounds:
  assumes "range_end cl b s p = Some ((start, fin), q)" "short_runs k 0 p" "k \<le> 18" "0 \<le> cl" "cl < 10 ^ 18" "\<not> b \<Longrightarrow> 0 \<le> s \<and> s < 10 ^ k"
  shows "fin \<le> cl \<and> (start < 0 \<longrightarrow> fin = cl) \<and> fin - start \<le> cl + 10 ^ k \<and> short_runs k 0 q"
proof -
  note n = range_number_short [OF assms(2,3)]
  let ?n = "dec_val (takeWhile is_digit p)"
  have k: "(10 :: int) ^ k \<le> 10 ^ 18" using assms(3) by (intro power_increasing) simp_all
  have w: "wrap64 (cl - ?n) = cl - ?n" "wrap64 (cl - 1) = cl - 1"
    using n(2,3) k assms(4,5) by (auto intro!: wrap64_id simp: is_int64_def)
  have "q = skip_spaces (dropWhile is_digit p)" using assms(1) n(1) by (auto simp: range_end_def Let_def split: if_splits)
  then have q: "short_runs k 0 q" using short_runs_parts assms(2) by simp
  show ?thesis
  proof (cases b)
    case True
    then have "start = cl - ?n" "fin = cl" using assms(1) n(1) w by (auto simp: range_end_def Let_def split: if_splits)
    then show ?thesis using n(2,3) q assms(4) by simp
  next
    case False
    then have "start = s" "fin = (if ?n \<ge> cl then cl else ?n + 1)" using assms(1) n(1) by (auto simp: range_end_def Let_def split: if_splits)
    then show ?thesis using False assms(4,6) n(2,3) q by (simp split: if_splits)
  qed
qed

lemma range_one_bounds:
  assumes "range_one cl p = Some ((start, fin), q)" "short_runs k 0 p" "k \<le> 18" "0 \<le> cl" "cl < 10 ^ 18"
  shows "fin \<le> cl \<and> (start < 0 \<longrightarrow> fin = cl) \<and> fin - start \<le> cl + 10 ^ k \<and> short_runs k 0 q"
proof -
  let ?p = "skip_spaces p" let ?n = "dec_val (takeWhile is_digit ?p)"
  let ?q = "skip_spaces (drop 1 (skip_spaces (dropWhile is_digit ?p)))"
  have p: "short_runs k 0 ?p" using short_runs_parts assms(2) by simp
  note n = range_number_short [OF p assms(3)]
  have q: "short_runs k 0 ?q" using short_runs_parts p by simp
  have d: "short_runs k 0 (drop 1 ?p)" using short_runs_parts p by simp
  have one: "range_one cl p =
      (if at_byte (CHR ''-'') ?p then range_end cl True 0 (drop 1 ?p)
       else if \<not> at_digit ?p then None
       else if \<not> at_byte (CHR ''-'') (skip_spaces (dropWhile is_digit ?p)) then None
       else if at_byte (CHR '','') ?q \<or> ?q = [] then Some ((?n, cl), ?q)
       else range_end cl False ?n ?q)"
    unfolding range_one_def Let_def n(1) prod.case ..
  consider "range_end cl True 0 (drop 1 ?p) = Some ((start, fin), q)" | "start = ?n" "fin = cl" "q = ?q"
    | "range_end cl False ?n ?q = Some ((start, fin), q)"
    using assms(1) unfolding one by (auto split: if_split_asm simp del: drop_Suc)
  then show ?thesis
  proof cases
    case 1
    then show ?thesis using range_end_bounds [OF 1 d assms(3-5)] by simp
  next
    case 2
    then show ?thesis using n(2,3) q assms(4) by simp
  next
    case 3
    then show ?thesis using range_end_bounds [OF 3 q assms(3-5)] n(2,3) by simp
  qed
qed

definition range_sum :: "(int \<times> int) list \<Rightarrow> int" where
  "range_sum rs = (\<Sum>r\<leftarrow>rs. snd r - fst r)"

lemma range_sum_simps [simp]: "range_sum [] = 0" "range_sum (rs @ [r]) = range_sum rs + (snd r - fst r)"
  by (simp_all add: range_sum_def)

lemma range_sum_nonneg: "list_all (range_ok cl) rs \<Longrightarrow> 0 \<le> range_sum rs \<and> (\<forall>r\<in>set rs. snd r - fst r \<le> range_sum rs)"
  by (induction rs rule: rev_induct) (auto simp: range_ok_def)

lemma wrap64_add_right: "wrap64 (a + wrap64 c) = wrap64 (a + c)"
  using wrap64_add [of c a] by (simp add: add.commute)

lemma range_loop_inside:
  assumes "k \<le> 18" "0 \<le> cl" "cl < 10 ^ 18" "short_runs k 0 p" "list_all (range_ok cl) rs"
    "range_sum rs + (int (length p) + 1) * (cl + 10 ^ k) < 2 ^ 63" "range_loop push cl ranges (range_sum rs) rs p = Range_ok rs'"
  shows "list_all (range_ok cl) rs' \<and> range_sum rs' \<le> cl \<and> rs' \<noteq> []"
  using assms(4-7)
proof (induction "length p" arbitrary: p rs ranges rule: less_induct)
  case less
  obtain start fin q where one: "range_one cl p = Some ((start, fin), q)"
    using less.prems(4) by (subst (asm) range_loop.simps) (auto split: option.splits)
  note b = range_one_bounds [OF one less.prems(1) assms(1-3)]
  have len: "length q \<le> length p" by (rule range_one_length [OF one])
  define rs1 where "rs1 = (if start < fin then rs @ [(start, fin)] else rs)"
  have ok: "list_all (range_ok cl) rs1" using less.prems(2) b by (simp add: rs1_def range_ok_def)
  have pos: "0 < cl + 10 ^ k" using assms(2) by (simp add: add_nonneg_pos)
  have sum: "range_sum rs1 \<le> range_sum rs + (cl + 10 ^ k)" using b pos by (simp add: rs1_def)
  have mul: "(int (length p) + 1) * (cl + 10 ^ k) = int (length p) * (cl + 10 ^ k) + (cl + 10 ^ k)" by (simp add: algebra_simps)
  moreover have "0 \<le> int (length p) * (cl + 10 ^ k)" using pos by simp
  ultimately have "range_sum rs1 < 2 ^ 63" using sum less.prems(3) by linarith
  moreover have "0 \<le> range_sum rs1" using range_sum_nonneg [OF ok] by simp
  ultimately have w: "wrap64 (range_sum rs1) = range_sum rs1" by (intro wrap64_id) (simp add: is_int64_def)
  define ranges1 where "ranges1 = (if start < fin then ranges - 1 else ranges)"
  have eq: "(if at_byte (CHR '','') q then range_loop push cl ranges1 (range_sum rs1) rs1 (drop 1 q)
      else if rs1 = [] then Range_not_satisfiable else if range_sum rs1 > cl then Range_declined else Range_ok rs1) = Range_ok rs'"
    using less.prems(4) w unfolding range_loop.simps [of push cl ranges "range_sum rs" rs p] one
    by (auto simp: rs1_def ranges1_def Let_def wrap64_add_right split: if_splits)
  show ?case
  proof (cases "at_byte (CHR '','') q")
    case True
    then have l: "length (drop 1 q) < length p" using behind_byte [OF True len] by simp
    have "int (length (drop 1 q)) + 1 \<le> int (length p)" using l by simp
    then have "(int (length (drop 1 q)) + 1) * (cl + 10 ^ k) \<le> int (length p) * (cl + 10 ^ k)" using pos by (intro mult_right_mono) simp_all
    then have "range_sum rs1 + (int (length (drop 1 q)) + 1) * (cl + 10 ^ k) < 2 ^ 63" using sum less.prems(3) mul by linarith
    moreover have "short_runs k 0 (drop 1 q)" using b short_runs_parts(3) by blast
    ultimately show ?thesis using less.hyps [OF l _ ok] eq True by simp
  next
    case False
    then show ?thesis using eq ok by (simp split: if_splits)
  qed
qed

section \<open>What is sent\<close>

definition sent_bytes :: "range_buf list \<Rightarrow> string" where
  "sent_bytes bs = concat (map rb_bytes bs)"

lemma sent_bytes_simps [simp]: "sent_bytes [] = []" "sent_bytes (b # bs) = rb_bytes b @ sent_bytes bs" "sent_bytes (a @ bs) = sent_bytes a @ sent_bytes bs"
  by (simp_all add: sent_bytes_def)

text \<open>The bytes of a range in a text that starts at \<open>off\<close>.\<close>

definition clip :: "int \<times> int \<Rightarrow> int \<Rightarrow> string \<Rightarrow> string" where
  "clip rg off x = drop (nat (fst rg - off)) (take (nat (snd rg - off)) x)"

lemma clip_append: "clip rg off (x @ y) = clip rg off x @ clip rg (off + int (length x)) y"
proof -
  have n: "nat (z - off) - length x = nat (z - (off + int (length x)))" for z by linarith
  show ?thesis
  proof (cases "length x \<le> nat (snd rg - off)")
    case True
    then show ?thesis by (simp add: clip_def n [symmetric])
  next
    case False
    then show ?thesis by (simp add: clip_def n [symmetric])
  qed
qed

lemma clip_outside: "snd rg \<le> off \<or> fst rg \<ge> off + int (length x) \<Longrightarrow> clip rg off x = []"
  by (auto simp: clip_def)

lemma singlepart_body_bytes:
  assumes "0 \<le> off" "off + int (length (sent_bytes bs)) < 2 ^ 63" "fst rg < snd rg" "list_all (\<lambda>b. rb_special b \<longrightarrow> rb_bytes b = []) bs"
    "ngx_http_range_singlepart_body rg off bs = (out, off')"
  shows "sent_bytes out = clip rg off (sent_bytes bs) \<and> (off' = off + int (length (sent_bytes bs)) \<or> snd rg \<le> off' \<and> off' \<le> off + int (length (sent_bytes bs)))"
  using assms
proof (induction bs arbitrary: off out off')
  case Nil
  then show ?case by (simp add: clip_def)
next
  case (Cons b bs)
  let ?n = "int (length (rb_bytes b))" let ?f = "off + ?n"
  have f: "wrap64 (off + rb_size b) = ?f" using Cons.prems(1,2) by (simp add: rb_size_def wrap64_id is_int64_def)
  obtain o1 f1 where rec: "ngx_http_range_singlepart_body rg ?f bs = (o1, f1)" by (cases "ngx_http_range_singlepart_body rg ?f bs")
  have IH: "sent_bytes o1 = clip rg ?f (sent_bytes bs) \<and> (f1 = ?f + int (length (sent_bytes bs)) \<or> snd rg \<le> f1 \<and> f1 \<le> ?f + int (length (sent_bytes bs)))"
    using Cons.prems by (intro Cons.IH [OF _ _ _ _ rec]) simp_all
  have clip: "clip rg off (sent_bytes (b # bs)) = clip rg off (rb_bytes b) @ clip rg ?f (sent_bytes bs)" using clip_append by simp
  consider "rb_special b" | "\<not> rb_special b" "snd rg \<le> off \<or> fst rg \<ge> ?f" | "\<not> rb_special b" "\<not> (snd rg \<le> off \<or> fst rg \<ge> ?f)" by blast
  then show ?case
  proof cases
    case 1
    then have "rb_bytes b = []" "out = b # o1" "off' = f1" using Cons.prems(4,5) rec by (auto simp: f)
    then show ?thesis using IH by simp
  next
    case 2
    then show ?thesis using Cons.prems(5) rec IH clip clip_outside [of rg off "rb_bytes b"] by (auto simp: f)
  next
    case 3
    show ?thesis
    proof (cases "snd rg \<le> ?f")
      case True
      then have "out = [(if fst rg > off then b\<lparr>rb_bytes := drop (nat (fst rg - off)) (rb_bytes b)\<rparr> else b)\<lparr>rb_bytes :=
          take (length (rb_bytes b) - nat (fst rg - off) - nat (?f - snd rg)) (drop (nat (fst rg - off)) (rb_bytes b)), rb_last := True\<rparr>]" "off' = ?f"
        using Cons.prems(5) 3 by (auto simp: f Let_def)
      moreover have "nat (snd rg - off) - nat (fst rg - off) = length (rb_bytes b) - nat (fst rg - off) - nat (?f - snd rg)" using True 3 by linarith
      then have cut: "clip rg off (rb_bytes b) = take (length (rb_bytes b) - nat (fst rg - off) - nat (?f - snd rg)) (drop (nat (fst rg - off)) (rb_bytes b))"
        by (simp only: clip_def drop_take)
      moreover have "clip rg ?f (sent_bytes bs) = []" using True by (intro clip_outside) simp
      ultimately show ?thesis using True clip cut by simp
    next
      case False
      then have "out = (if fst rg > off then b\<lparr>rb_bytes := drop (nat (fst rg - off)) (rb_bytes b)\<rparr> else b) # o1" "off' = f1"
        using Cons.prems(5) 3 rec by (auto simp: f Let_def)
      moreover have "clip rg off (rb_bytes b) = drop (nat (fst rg - off)) (rb_bytes b)" using False by (simp add: clip_def)
      ultimately show ?thesis using clip IH by auto
    qed
  qed
qed

text \<open>The body filter is called for every chain of the body; \<open>ctx->offset\<close> is kept between the calls.\<close>

fun send_chains :: "int \<times> int \<Rightarrow> int \<Rightarrow> range_buf list list \<Rightarrow> range_buf list" where
  "send_chains rg off [] = []"
| "send_chains rg off (c # cs) = (let (out, off') = ngx_http_range_singlepart_body rg off c in out @ send_chains rg off' cs)"

definition special_empty :: "range_buf list list \<Rightarrow> bool" where
  "special_empty cs \<longleftrightarrow> list_all (list_all (\<lambda>b. rb_special b \<longrightarrow> rb_bytes b = [])) cs"

lemma send_chains_bytes:
  assumes "0 \<le> off" "off + int (length (concat (map sent_bytes cs))) < 2 ^ 63" "0 \<le> fst rg" "fst rg < snd rg" "special_empty cs"
  shows "sent_bytes (send_chains rg off cs) = clip rg off (concat (map sent_bytes cs))"
  using assms
proof (induction cs arbitrary: off)
  case Nil
  then show ?case by (simp add: clip_def)
next
  case (Cons c cs)
  let ?rest = "concat (map sent_bytes cs)" let ?n = "int (length (sent_bytes c))"
  obtain out off' where b: "ngx_http_range_singlepart_body rg off c = (out, off')" by (cases "ngx_http_range_singlepart_body rg off c")
  have s: "sent_bytes out = clip rg off (sent_bytes c)" "off' = off + ?n \<or> snd rg \<le> off' \<and> off' \<le> off + ?n"
    using singlepart_body_bytes [OF Cons.prems(1) _ Cons.prems(4) _ b] Cons.prems(2,5) by (simp_all add: special_empty_def)
  then have "0 \<le> off'" "off' \<le> off + ?n" using Cons.prems(1,3,4) by linarith+
  then have "sent_bytes (send_chains rg off' cs) = clip rg off' ?rest"
    using Cons.prems by (intro Cons.IH) (simp_all add: special_empty_def)
  also have "\<dots> = clip rg (off + ?n) ?rest" using s(2) clip_outside [of rg off' ?rest] clip_outside [of rg "off + ?n" ?rest] by auto
  finally show ?case using s(1) b clip_append [of rg off "sent_bytes c" ?rest] by simp
qed

section \<open>A request for one range\<close>

lemma number_ends:
  assumes "q = [] \<or> \<not> is_digit (hd q)"
  shows "takeWhile is_digit (nat_dec n @ q) = nat_dec n" "dropWhile is_digit (nat_dec n @ q) = q"
proof -
  have "\<forall>c\<in>set (nat_dec n). is_digit c" by (auto dest: nat_dec_digits)
  moreover have "takeWhile is_digit q = []" "dropWhile is_digit q = q" using assms by (cases q; simp)+
  ultimately show "takeWhile is_digit (nat_dec n @ q) = nat_dec n" "dropWhile is_digit (nat_dec n @ q) = q"
    by (simp_all add: takeWhile_append2 dropWhile_append2)
qed

lemma number_read: "q = [] \<or> \<not> is_digit (hd q) \<Longrightarrow> int n < 2 ^ 63 \<Longrightarrow> range_number 0 (nat_dec n @ q) = (int n, q)"
  using number_ends [of q n] by (simp add: range_number_0 dec_val_nat_dec wrap64_id is_int64_def)

lemma number_start: "at_digit (nat_dec n @ q)" "skip_spaces (nat_dec n @ q) = nat_dec n @ q" "\<not> at_byte (CHR ''-'') (nat_dec n @ q)" "\<not> at_byte (CHR '','') (nat_dec n @ q)"
proof -
  obtain c d where n: "nat_dec n = c # d" using nat_dec_nonempty [of n] by (cases "nat_dec n") auto
  have "is_digit c" using nat_dec_digits [of c n] n by simp
  moreover from this have "c \<noteq> CHR '' ''" "c \<noteq> CHR ''-''" "c \<noteq> CHR '',''" by (auto simp: is_digit_def less_eq_char_def)
  ultimately show "at_digit (nat_dec n @ q)" "skip_spaces (nat_dec n @ q) = nat_dec n @ q" "\<not> at_byte (CHR ''-'') (nat_dec n @ q)" "\<not> at_byte (CHR '','') (nat_dec n @ q)"
    by (simp_all add: n at_digit_def skip_spaces_def at_byte_def)
qed

lemma range_one_request:
  assumes "int a < 2 ^ 63" "int b < 2 ^ 63"
  shows "range_one cl (nat_dec a @ ''-'' @ nat_dec b) = Some ((int a, if int b \<ge> cl then cl else int b + 1), [])"
proof -
  have m: "\<not> is_digit CHR ''-''" by (simp add: is_digit_def less_eq_char_def)
  have ra: "range_number 0 (nat_dec a @ ''-'' @ nat_dec b) = (int a, ''-'' @ nat_dec b)" using m assms(1) by (intro number_read) simp_all
  have rb: "range_number 0 (nat_dec b) = (int b, [])" using number_read [of "[]" b] assms(2) by simp
  have "range_end cl False (int a) (nat_dec b) = Some ((int a, if int b \<ge> cl then cl else int b + 1), [])"
    using number_start(1) [of b "[]"] by (simp add: range_end_def rb skip_spaces_def)
  moreover have "skip_spaces (''-'' @ nat_dec b) = ''-'' @ nat_dec b" "at_byte (CHR ''-'') (''-'' @ nat_dec b)" by (simp_all add: skip_spaces_def at_byte_def)
  ultimately show ?thesis
    using number_start [of b "[]"] nat_dec_nonempty [of b] by (simp add: range_one_def number_start ra Let_def del: append_Cons)
qed

lemma not_digit_O: "\<not> is_digit CHR ''O''" "\<not> is_digit CHR ''/''" "\<not> is_digit CHR ''-''"
  by (simp_all add: is_digit_def less_eq_char_def)

lemma singlepart_header_text:
  assumes "0 \<le> s" "s < e" "e \<le> cl" "cl < 9223372036854775808"
  shows "ngx_http_range_singlepart_header cl (s, e) =
    Inr (''bytes '' @ nat_dec (nat s) @ ''-'' @ nat_dec (nat (e - 1)) @ ''/'' @ nat_dec (nat cl), e - s)"
proof -
  have w: "wrap64 x = x" if "0 \<le> x" "x < 9223372036854775808" for x using that by (simp add: wrap64_id is_int64_def)
  have l: "length (nat_dec (nat x)) \<le> 19" if "0 \<le> x" "x < 9223372036854775808" for x
    using that nat_dec_length [of "nat x" 19] by (simp add: nat_less_iff)
  have "ngx_sprintf ''bytes %O-%O/%O'' [Va_int s, Va_int (e - 1), Va_int cl] = Inr (''bytes '' @ nat_dec (nat s) @ ''-'' @ nat_dec (nat (e - 1)) @ ''/'' @ nat_dec (nat cl))"
    using assms by (simp add: printf_eval u64_of_def sprintf_num_dec Let_def and_then_def w not_digit_O)
  then show ?thesis using assms l [of s] l [of "e - 1"] l [of cl] by (simp add: ngx_http_range_singlepart_header_def w)
qed

section \<open>More than one range\<close>

definition delimiter :: "int \<Rightarrow> string" where
  "delimiter b = [CR, LF] @ ''--'' @ pad0 20 (nat_dec (nat b))"

definition boundary_text :: "string \<Rightarrow> string \<Rightarrow> int \<Rightarrow> string" where
  "boundary_text ct cs b = delimiter b @ [CR, LF] @
     (if cs \<noteq> [] then ''Content-Type: '' @ ct @ ''; charset='' @ cs @ [CR, LF]
      else if ct \<noteq> [] then ''Content-Type: '' @ ct @ [CR, LF] else []) @ ''Content-Range: bytes ''"

definition part_text :: "int \<Rightarrow> int \<times> int \<Rightarrow> string" where
  "part_text n rg = nat_dec (nat (fst rg)) @ ''-'' @ nat_dec (nat (snd rg - 1)) @ ''/'' @ nat_dec (nat n) @ [CR, LF, CR, LF]"

lemma printf_letters: "\<not> is_digit CHR ''m''" "\<not> is_digit CHR ''V''" "\<not> is_digit CHR ''u''" "\<not> is_digit CHR ''A''"
  by (simp_all add: is_digit_def less_eq_char_def)

lemma delimiter_length [simp]: "0 \<le> b \<Longrightarrow> b < 18446744073709551616 \<Longrightarrow> length (delimiter b) = 24"
  using nat_dec_length [of "nat b" 20] by (simp add: delimiter_def pad0_length nat_less_iff)

lemma boundary_header_eq:
  assumes "0 \<le> b" "b < 18446744073709551616"
  shows "boundary_header ct cs b = Inr (boundary_text ct cs b)"
proof -
  have l: "length (pad0 20 (nat_dec (nat b))) = 20" using delimiter_length [OF assms] by (simp add: delimiter_def)
  have n: "ngx_sprintf_num None (u64_of (int (u64_of b))) (CHR ''0'') Decimal 20 = Inr (pad0 20 (nat_dec (nat b)))"
    using assms by (simp add: u64_of_def sprintf_num_dec pad0_def nat_less_iff)
  have f: "fit None x = x" for x by simp
  show ?thesis
    using l by (simp add: boundary_header_def put_text_def boundary_text_def delimiter_def printf_eval printf_letters n f Let_def and_then_def)
qed

lemma range_text_eq:
  assumes "0 \<le> fst rg" "fst rg < snd rg" "snd rg \<le> n" "n < 9223372036854775808"
  shows "range_text n rg = Inr (part_text n rg)"
proof -
  have w: "wrap64 x = x" if "0 \<le> x" "x < 9223372036854775808" for x using that by (simp add: wrap64_id is_int64_def)
  have l: "length (nat_dec (nat x)) \<le> 19" if "0 \<le> x" "x < 9223372036854775808" for x
    using that nat_dec_length [of "nat x" 19] by (simp add: nat_less_iff)
  have "ngx_sprintf (''%O-%O/%O'' @ [CR, LF, CR, LF]) [Va_int (fst rg), Va_int (snd rg - 1), Va_int n] = Inr (part_text n rg)"
    using assms by (simp add: printf_eval u64_of_def sprintf_num_dec Let_def and_then_def w not_digit_O part_text_def)
  moreover have "length (part_text n rg) \<le> 66" using assms l [of "fst rg"] l [of "snd rg - 1"] l [of n] by (simp add: part_text_def)
  ultimately show ?thesis using assms by (simp add: range_text_def put_text_def w)
qed

definition range_inside :: "int \<Rightarrow> int \<times> int \<Rightarrow> bool" where
  "range_inside n rg \<longleftrightarrow> 0 \<le> fst rg \<and> fst rg < snd rg \<and> snd rg \<le> n"

lemma range_texts_eq: "list_all (range_inside n) rs \<Longrightarrow> n < 9223372036854775808 \<Longrightarrow> range_texts n rs = Inr (map (part_text n) rs)"
  by (induction rs) (simp_all add: range_inside_def range_text_eq)

definition doc_part :: "string \<Rightarrow> int \<times> int \<Rightarrow> string" where
  "doc_part doc rg = take (nat (snd rg - fst rg)) (drop (nat (fst rg)) doc)"

lemma doc_part_length: "range_inside (int (length doc)) rg \<Longrightarrow> length (doc_part doc rg) = nat (snd rg - fst rg)"
  by (simp add: doc_part_def range_inside_def min_def) linarith

lemma multipart_parts_eq:
  "list_all (range_inside (int (length (rb_bytes buf)))) rs \<Longrightarrow>
   multipart_parts bh (map f rs) buf rs = Inr (concat (map (\<lambda>r. [bh, f r, doc_part (rb_bytes buf) r]) rs))"
  by (induction rs) (simp_all add: range_inside_def part_data_def rb_size_def doc_part_def)

lemma multipart_len_eq:
  assumes "list_all (range_inside (int (length doc))) rs"
    "len + length (concat (map (\<lambda>r. bh @ f r @ doc_part doc r) rs)) < 18446744073709551616"
  shows "multipart_len (length bh) (map f rs) rs len = len + length (concat (map (\<lambda>r. bh @ f r @ doc_part doc r) rs))"
  using assms
proof (induction rs arbitrary: len)
  case (Cons r rs)
  have d: "int (length (doc_part doc r)) = snd r - fst r" using Cons.prems(1) doc_part_length [of doc r] by (simp add: range_inside_def)
  let ?l = "len + length bh + length (f r) + length (doc_part doc r)"
  have "?l < 18446744073709551616" using Cons.prems(2) by simp
  then have "u64_of (int (len + length bh + length (f r)) + (snd r - fst r)) = ?l" unfolding d [symmetric] u64_of_def by (simp flip: of_nat_add)
  then show ?case using Cons.IH [of ?l] Cons.prems by (simp add: add.assoc)
qed simp

text \<open>What is sent for several ranges of a document.\<close>

definition multipart_text :: "string \<Rightarrow> string \<Rightarrow> int \<Rightarrow> string \<Rightarrow> (int \<times> int) list \<Rightarrow> string" where
  "multipart_text ct cs b doc rs =
     concat (map (\<lambda>r. boundary_text ct cs b @ part_text (int (length doc)) r @ doc_part doc r) rs) @ delimiter b @ ''--'' @ [CR, LF]"

lemma boundary_type_eq:
  assumes "0 \<le> b" "b < 18446744073709551616"
  shows "put_text (length ''Content-Type: multipart/byteranges; boundary='' + 20) (ngx_sprintf ''multipart/byteranges; boundary=%0muA'' [Va_int b]) =
    Inr (''multipart/byteranges; boundary='' @ pad0 20 (nat_dec (nat b)))"
proof -
  have l: "length (pad0 20 (nat_dec (nat b))) = 20" using delimiter_length [OF assms] by (simp add: delimiter_def)
  have n: "ngx_sprintf_num None (u64_of (int (u64_of b))) (CHR ''0'') Decimal 20 = Inr (pad0 20 (nat_dec (nat b)))"
    using assms by (simp add: u64_of_def sprintf_num_dec pad0_def nat_less_iff)
  show ?thesis using l by (simp add: put_text_def printf_eval printf_letters n Let_def and_then_def)
qed

lemma boundary_text_start: "0 \<le> b \<Longrightarrow> b < 18446744073709551616 \<Longrightarrow> take 24 (boundary_text ct cs b) = delimiter b"
  by (simp add: boundary_text_def)

lemma concat_triples: "concat (concat (map (\<lambda>r. [x, f r, g r]) rs)) = concat (map (\<lambda>r. x @ f r @ g r) rs)"
  by (induction rs) simp_all

lemma multipart_sent:
  assumes "0 \<le> b" "b < 18446744073709551616" "list_all (range_inside (int (length (rb_bytes buf)))) rs"
    "length (multipart_text ct cs b (rb_bytes buf) rs) < 9223372036854775808" "length (rb_bytes buf) < 9223372036854775808"
  shows "\<exists>bh ts ps. ngx_http_range_multipart_header ct cs b (int (length (rb_bytes buf))) rs =
      Inr (bh, ts, ''multipart/byteranges; boundary='' @ pad0 20 (nat_dec (nat b)), int (length (concat ps))) \<and>
    ngx_http_range_multipart_body bh ts rs buf = Inr ps \<and> concat ps = multipart_text ct cs b (rb_bytes buf) rs"
proof -
  let ?doc = "rb_bytes buf" let ?n = "int (length ?doc)" let ?bh = "boundary_text ct cs b" let ?ts = "map (part_text ?n) rs"
  let ?ps = "concat (map (\<lambda>r. [?bh, part_text ?n r, doc_part ?doc r]) rs) @ [take 24 ?bh @ ''--'' @ [CR, LF]]"
  have ps: "concat ?ps = multipart_text ct cs b ?doc rs"
    using boundary_text_start [OF assms(1,2), of ct cs] by (simp add: multipart_text_def concat_triples)
  have body: "ngx_http_range_multipart_body ?bh ?ts rs buf = Inr ?ps"
    using multipart_parts_eq [OF assms(3), of ?bh "part_text ?n"] by (simp add: ngx_http_range_multipart_body_def)
  have c: "length (multipart_text ct cs b ?doc rs) = 28 + length (concat (map (\<lambda>r. ?bh @ part_text ?n r @ doc_part ?doc r) rs))"
    using delimiter_length [OF assms(1,2)] by (simp add: multipart_text_def)
  have "multipart_len (length ?bh) ?ts rs 28 = length (multipart_text ct cs b ?doc rs)"
    using multipart_len_eq [OF assms(3), of 28 ?bh "part_text ?n"] assms(4) unfolding c by simp
  moreover have "wrap64 (int (length (multipart_text ct cs b ?doc rs))) = int (length (multipart_text ct cs b ?doc rs))"
    using assms(4) by (intro wrap64_id) (simp add: is_int64_def)
  ultimately have "ngx_http_range_multipart_header ct cs b ?n rs =
      Inr (?bh, ?ts, ''multipart/byteranges; boundary='' @ pad0 20 (nat_dec (nat b)), int (length (concat ?ps)))"
    unfolding ps using range_texts_eq [OF assms(3)] assms(5) boundary_header_eq [OF assms(1,2)] boundary_type_eq [OF assms(1,2)]
    by (simp add: ngx_http_range_multipart_header_def del: length_append list.size)
  then show ?thesis using body ps by blast
qed

lemma range_served:
  assumes "a \<le> b" "b < 10 ^ 18" "a < length doc" "length doc < 10 ^ 18" "concat (map sent_bytes cs) = doc" "special_empty cs" "push 0" "0 < ranges"
  shows "\<exists>rg value n. ngx_http_range_parse push (int (length doc)) ranges (''bytes='' @ nat_dec a @ ''-'' @ nat_dec b) = Range_ok [rg] \<and>
    ngx_http_range_singlepart_header (int (length doc)) rg = Inr (value, n) \<and>
    value = ''bytes '' @ nat_dec a @ ''-'' @ nat_dec (min b (length doc - 1)) @ ''/'' @ nat_dec (length doc) \<and>
    sent_bytes (send_chains rg 0 cs) = take (min b (length doc - 1) - a + 1) (drop a doc) \<and>
    int (length (sent_bytes (send_chains rg 0 cs))) = n"
proof -
  let ?l = "int (length doc)" let ?e = "if int b \<ge> ?l then ?l else int b + 1" let ?m = "min b (length doc - 1)"
  have e: "?e = int ?m + 1" using assms(3) by (auto simp: min_def of_nat_diff)
  have le: "a \<le> ?m" "?m + 1 \<le> length doc" using assms(1,3) by auto
  have w: "wrap64 (wrap64 (?e - int a)) = ?e - int a" using le e assms(4) by (auto intro!: wrap64_id simp: is_int64_def)
  have "range_one ?l (nat_dec a @ ''-'' @ nat_dec b) = Some ((int a, ?e), [])" using assms(1,2) by (intro range_one_request) simp_all
  then have p: "ngx_http_range_parse push ?l ranges (''bytes='' @ nat_dec a @ ''-'' @ nat_dec b) = Range_ok [(int a, ?e)]"
    using w le assms(3,7,8) by (simp add: ngx_http_range_parse_def range_loop.simps [of push ?l ranges 0 "[]"] at_byte_def e)
  have h: "ngx_http_range_singlepart_header ?l (int a, ?e) =
      Inr (''bytes '' @ nat_dec a @ ''-'' @ nat_dec ?m @ ''/'' @ nat_dec (length doc), ?e - int a)"
    using singlepart_header_text [of "int a" ?e ?l] le assms(4) unfolding e by simp
  have "sent_bytes (send_chains (int a, ?e) 0 cs) = clip (int a, ?e) 0 doc"
    using send_chains_bytes [of 0 cs "(int a, ?e)"] assms(4-6) le unfolding e by simp
  also have "\<dots> = take (?m - a + 1) (drop a doc)" unfolding e using le by (simp add: clip_def drop_take Suc_diff_le nat_add_distrib)
  finally have s: "sent_bytes (send_chains (int a, ?e) 0 cs) = take (?m - a + 1) (drop a doc)" .
  have "length (take (m - a + 1) (drop a doc)) = m - a + 1" if "a \<le> m" "m + 1 \<le> length doc" for m using that by simp
  from this [OF le] have "int (length (sent_bytes (send_chains (int a, ?e) 0 cs))) = ?e - int a" unfolding s [unfolded e] e using le(1) by (simp only: of_nat_diff of_nat_add of_nat_1)
  with p h s show ?thesis by blast
qed

section \<open>Both filters for a request\<close>

text \<open>A reply whose range may be taken.\<close>

definition rangeable :: "range_request \<Rightarrow> bool" where
  "rangeable r \<longleftrightarrow> 1000 \<le> rr_http_version r \<and> rr_status r = 200 \<and> rr_main r \<and> rr_content_length_n r \<noteq> -1 \<and> rr_allow_ranges r \<and> 0 < rr_max_ranges r"

text \<open>The body filter on one chain after the other, as long as it does not return an error.\<close>

fun filter_chains :: "range_action \<Rightarrow> int \<Rightarrow> range_buf list list \<Rightarrow> string option c_result" where
  "filter_chains act off [] = Inr (Some [])"
| "filter_chains act off (c # cs) =
     bindr (ngx_http_range_body_filter act off c) (\<lambda>(out, off').
       case out of
         None \<Rightarrow> Inr None
       | Some o1 \<Rightarrow> bindr (filter_chains act off' cs) (\<lambda>rest. Inr (case rest of None \<Rightarrow> None | Some o2 \<Rightarrow> Some (o1 @ o2))))"

lemma filter_chains_single: "filter_chains (RA_single rg value n) off cs = Inr (Some (sent_bytes (send_chains rg off cs)))"
  by (induction cs arbitrary: off) (auto simp: ngx_http_range_body_filter_def sent_bytes_def split: prod.splits)

lemma bytes_unit: "\<not> length (''bytes='' @ x # y) < 7" "ngx_strncasecmp (''bytes='' @ y) ''bytes='' 6 = 0"
  using strncasecmp_eq [of 6 "''bytes='' @ y" "''bytes=''"] by simp_all

lemma header_filter_parses:
  assumes "rangeable r" "rr_range r = Some (''bytes='' @ v)" "v \<noteq> []" "if_range_holds r = Inr True"
    "ngx_http_range_parse push (rr_content_length_n r) (rr_max_ranges r) (''bytes='' @ v) = Range_ok rs"
  shows "ngx_http_range_header_filter True push boundary r =
    (if length rs = 1 then bindr (ngx_http_range_singlepart_header (rr_content_length_n r) (rs ! 0)) (\<lambda>(value, n). Inr (RA_single (rs ! 0) value n))
     else bindr (ngx_http_range_multipart_header (rr_content_type r) (rr_charset r) boundary (rr_content_length_n r) rs) (\<lambda>(bh, ts, ct, n).
       Inr (RA_multi rs bh ts ct n)))"
proof -
  have "\<not> length (''bytes='' @ v) < 7" using assms(3) bytes_unit(1) by (cases v) auto
  then show ?thesis using assms bytes_unit(2) [of v] unfolding ngx_http_range_header_filter_def
    by (simp add: rangeable_def del: append_Cons append_Nil ngx_strncasecmp.simps)
qed

lemma inside_not_overlapped:
  assumes "list_all (range_inside (int (length (rb_bytes buf)))) rs" "length (rb_bytes buf) < 2 ^ 63"
  shows "ngx_http_range_test_overlapped rs 0 buf = (NGX_OK, rb_size buf)"
proof -
  have "wrap64 (rb_size buf) = rb_size buf" using assms(2) by (intro wrap64_id) (simp add: is_int64_def rb_size_def)
  then show ?thesis using assms(1) by (auto simp: ngx_http_range_test_overlapped_def range_inside_def rb_size_def list_all_iff not_less)
qed

section \<open>Properties\<close>

text \<open>
  C20. Accepted ranges lie inside the document: where no number of the header has more than \<open>k\<close> digits, for some \<open>k\<close> up to
  18, and the sizes cannot add up to \<open>2 ^ 63\<close>, every range that \<open>ngx_http_range_parse\<close> accepts starts at a byte of the document, is not
  empty and ends inside, and together they are not longer than the document. In particular a suffix longer than the document, whose
  start the code computes as a negative number, is refused by the test of the sum.
\<close>

theorem ranges_inside:
  assumes "ngx_http_range_parse push cl ranges v = Range_ok rs" "short_runs k 0 v" "k \<le> 18" "0 \<le> cl" "cl < 10 ^ 18"
    "(int (length v) + 1) * (cl + 10 ^ k) < 2 ^ 63"
  shows "rs \<noteq> [] \<and> (\<forall>(start, fin)\<in>set rs. 0 \<le> start \<and> start < fin \<and> fin \<le> cl) \<and> (\<Sum>(start, fin)\<leftarrow>rs. fin - start) \<le> cl"
proof -
  have "short_runs k 0 (drop 6 v)" using short_runs_suffix [of k 0 "take 6 v" "drop 6 v"] assms(2) by simp
  moreover have "(int (length (drop 6 v)) + 1) * (cl + 10 ^ k) \<le> (int (length v) + 1) * (cl + 10 ^ k)"
    using assms(4) by (intro mult_right_mono) simp_all
  ultimately have r: "list_all (range_ok cl) rs" "range_sum rs \<le> cl" "rs \<noteq> []"
    using range_loop_inside [OF assms(3-5), of "drop 6 v" "[]" push ranges rs] assms(1,6) by (simp_all add: ngx_http_range_parse_def)
  have "0 \<le> fst x \<and> fst x < snd x \<and> snd x \<le> cl" if "x \<in> set rs" for x
    using r(1,2) that range_sum_nonneg [OF r(1)] by (fastforce simp: list_all_iff range_ok_def)
  moreover have "range_sum rs = (\<Sum>(start, fin)\<leftarrow>rs. fin - start)" unfolding range_sum_def by (rule arg_cong [where f = sum_list]) auto
  ultimately show ?thesis using r(2,3) by fastforce
qed

theorem ranges_inside_witness:
  "\<exists>rs. ngx_http_range_parse (\<lambda>n. True) 20 9 ''bytes=0-4,-5'' = Range_ok rs \<and> rs = [(0, 5), (15, 20)] \<and> (\<Sum>(start, fin)\<leftarrow>rs. fin - start) \<le> 20"
proof -
  have "ngx_http_range_parse (\<lambda>n. True) 20 9 ''bytes=0-4,-5'' = Range_ok [(0, 5), (15, 20)]" by code_simp
  moreover have "short_runs 2 0 ''bytes=0-4,-5''" by code_simp
  moreover have "(int (length ''bytes=0-4,-5'') + 1) * (20 + 10 ^ 2) < 2 ^ 63" by simp
  ultimately show ?thesis using ranges_inside [of "\<lambda>n. True" 20 9 "''bytes=0-4,-5''" "[(0, 5), (15, 20)]" 2] by simp
qed

text \<open>
  C18. A request for bytes \<open>a\<close> to \<open>b\<close> of a document is served: however the document is cut into buffers and chains, the body filter
  passes on exactly the bytes from \<open>a\<close> to the smaller of \<open>b\<close> and the last one, the \<open>Content-Range\<close> that the header filter set names
  them and the length of the document, and the length it announced is the number of bytes sent.
\<close>

theorem range_request_served:
  assumes "rangeable r" "if_range_holds r = Inr True" "rr_content_length_n r = int (length doc)"
    "rr_range r = Some (''bytes='' @ nat_dec a @ ''-'' @ nat_dec b)" "push 0"
    "a \<le> b" "b < 10 ^ 18" "a < length doc" "length doc < 10 ^ 18" "concat (map sent_bytes cs) = doc" "special_empty cs"
  shows "\<exists>act out rg value. ngx_http_range_header_filter True push boundary r = Inr act \<and> act = RA_single rg value (int (length out)) \<and>
    value = ''bytes '' @ nat_dec a @ ''-'' @ nat_dec (min b (length doc - 1)) @ ''/'' @ nat_dec (length doc) \<and>
    filter_chains act 0 cs = Inr (Some out) \<and> out = take (min b (length doc - 1) - a + 1) (drop a doc)"
proof -
  let ?v = "nat_dec a @ ''-'' @ nat_dec b" let ?m = "min b (length doc - 1)"
  have "0 < rr_max_ranges r" using assms(1) by (simp add: rangeable_def)
  then obtain rg w n where p: "ngx_http_range_parse push (int (length doc)) (rr_max_ranges r) (''bytes='' @ ?v) = Range_ok [rg]"
    and h: "ngx_http_range_singlepart_header (int (length doc)) rg = Inr (w, n)"
    and v: "w = ''bytes '' @ nat_dec a @ ''-'' @ nat_dec ?m @ ''/'' @ nat_dec (length doc)"
    and s: "sent_bytes (send_chains rg 0 cs) = take (?m - a + 1) (drop a doc)" "int (length (sent_bytes (send_chains rg 0 cs))) = n"
    using range_served [OF assms(6-11), of push "rr_max_ranges r"] assms(5) by blast
  have "ngx_http_range_header_filter True push boundary r = Inr (RA_single rg w n)"
    using header_filter_parses [OF assms(1,4) _ assms(2), of push "[rg]"] p h assms(3) by simp
  then show ?thesis using v s filter_chains_single [of rg w n 0 cs] by metis
qed

definition demo_range :: "string \<Rightarrow> range_request" where
  "demo_range v = \<lparr>rr_http_version = 1001, rr_status = 200, rr_main = True, rr_content_length_n = 6, rr_allow_ranges = True, rr_max_ranges = 9,
     rr_range = Some v, rr_if_range = None, rr_etag = None, rr_last_modified_time = -1, rr_content_type = ''text/plain'', rr_charset = []\<rparr>"

lemma demo_rangeable: "rangeable (demo_range v)" "if_range_holds (demo_range v) = Inr True" "rr_content_length_n (demo_range v) = 6"
    "rr_range (demo_range v) = Some v" "rr_max_ranges (demo_range v) = 9" "rr_content_type (demo_range v) = ''text/plain''" "rr_charset (demo_range v) = []"
  by (simp_all add: rangeable_def demo_range_def if_range_holds_def)

theorem range_request_served_witness:
  "\<exists>act. ngx_http_range_header_filter True (\<lambda>n. True) 7 (demo_range (''bytes='' @ nat_dec 1 @ ''-'' @ nat_dec 3)) = Inr act \<and>
    filter_chains act 0 [[\<lparr>rb_bytes = ''ab'', rb_special = False, rb_last = False\<rparr>], [\<lparr>rb_bytes = ''cdef'', rb_special = False, rb_last = True\<rparr>]] = Inr (Some ''bcd'')"
proof -
  let ?cs = "[[\<lparr>rb_bytes = ''ab'', rb_special = False, rb_last = False\<rparr>], [\<lparr>rb_bytes = ''cdef'', rb_special = False, rb_last = True\<rparr>]]"
  have c: "special_empty ?cs" "concat (map sent_bytes ?cs) = ''abcdef''" by (simp_all add: special_empty_def)
  have t: "take (min 3 (length ''abcdef'' - 1) - 1 + 1) (drop 1 ''abcdef'') = ''bcd''" by code_simp
  have l: "rr_content_length_n (demo_range v) = int (length ''abcdef'')" for v by (simp add: demo_rangeable)
  have n: "(1 :: nat) \<le> 3" "(3 :: nat) < 10 ^ 18" "1 < length ''abcdef''" "length ''abcdef'' < 10 ^ 18" by simp_all
  show ?thesis using range_request_served [OF demo_rangeable(1,2) l demo_rangeable(4) TrueI n c(2,1), of 7, unfolded t] by blast
qed

text \<open>
  C19. A request for several ranges is served: where the ranges that were read lie inside of a document that is in one buffer, the body
  that the body filter passes on is the parts in the order of the ranges, each behind the boundary, its content type and its
  \<open>Content-Range\<close>, and the closing boundary; the content type names the boundary, and the length announced before is the number of
  bytes sent.
\<close>

theorem multipart_served:
  assumes "rangeable r" "if_range_holds r = Inr True" "rr_content_length_n r = int (length (rb_bytes buf))" "\<not> rb_special buf"
    "rr_range r = Some (''bytes='' @ v)" "v \<noteq> []"
    "ngx_http_range_parse push (rr_content_length_n r) (rr_max_ranges r) (''bytes='' @ v) = Range_ok rs" "length rs \<noteq> 1"
    "list_all (range_inside (int (length (rb_bytes buf)))) rs" "0 \<le> b" "b < 2 ^ 64"
    "length (multipart_text (rr_content_type r) (rr_charset r) b (rb_bytes buf) rs) < 2 ^ 63" "length (rb_bytes buf) < 2 ^ 63"
  shows "\<exists>act bh ts out. ngx_http_range_header_filter True push b r = Inr act \<and>
    act = RA_multi rs bh ts (''multipart/byteranges; boundary='' @ pad0 20 (nat_dec (nat b))) (int (length out)) \<and>
    filter_chains act 0 [[buf]] = Inr (Some out) \<and> out = multipart_text (rr_content_type r) (rr_charset r) b (rb_bytes buf) rs"
proof -
  obtain bh ts ps where h: "ngx_http_range_multipart_header (rr_content_type r) (rr_charset r) b (int (length (rb_bytes buf))) rs =
      Inr (bh, ts, ''multipart/byteranges; boundary='' @ pad0 20 (nat_dec (nat b)), int (length (concat ps)))"
    and parts: "ngx_http_range_multipart_body bh ts rs buf = Inr ps" "concat ps = multipart_text (rr_content_type r) (rr_charset r) b (rb_bytes buf) rs"
    using multipart_sent [of b buf rs "rr_content_type r" "rr_charset r"] assms(9-13) by auto
  have "ngx_http_range_test_overlapped rs 0 buf = (NGX_OK, rb_size buf)" using assms(9,13) by (rule inside_not_overlapped)
  then have "filter_chains (RA_multi rs bh ts ct n) 0 [[buf]] = Inr (Some (concat ps))" for ct n
    using assms(4) parts(1) by (simp add: ngx_http_range_body_filter_def)
  moreover have "ngx_http_range_header_filter True push b r =
      Inr (RA_multi rs bh ts (''multipart/byteranges; boundary='' @ pad0 20 (nat_dec (nat b))) (int (length (concat ps))))"
    using header_filter_parses [OF assms(1,5,6,2,7)] assms(3,8) h by simp
  ultimately show ?thesis using parts(2) by metis
qed

theorem multipart_served_witness:
  "\<exists>act bh ts out. ngx_http_range_header_filter True (\<lambda>n. True) 7 (demo_range ''bytes=0-1,-2'') = Inr act \<and>
    act = RA_multi [(0, 2), (4, 6)] bh ts (''multipart/byteranges; boundary='' @ pad0 20 (nat_dec 7)) (int (length out)) \<and>
    filter_chains act 0 [[\<lparr>rb_bytes = ''abcdef'', rb_special = False, rb_last = True\<rparr>]] = Inr (Some out)"
proof -
  let ?buf = "\<lparr>rb_bytes = ''abcdef'', rb_special = False, rb_last = True\<rparr>"
  have "length (multipart_text ''text/plain'' [] 7 ''abcdef'' [(0, 2), (4, 6)]) < 1000"
    using delimiter_length [of 7] nat_dec_length [of 6 1] nat_dec_length [of 5 1] nat_dec_length [of 4 1] nat_dec_length [of 1 1] nat_dec_length [of 0 1]
    by (simp add: multipart_text_def boundary_text_def part_text_def doc_part_def)
  moreover have "ngx_http_range_parse (\<lambda>n. True) 6 9 ''bytes=0-1,-2'' = Range_ok [(0, 2), (4, 6)]" by code_simp
  ultimately show ?thesis
    using multipart_served [of "demo_range ''bytes=0-1,-2''" ?buf "''0-1,-2''" "\<lambda>n. True" "[(0, 2), (4, 6)]" 7]
    by (simp add: demo_rangeable range_inside_def) blast
qed



end
