(* ===== verification/Spec2Isabelle.thy ===== *)
theory Spec2Isabelle
  imports Nla_Lock Nla_Module Ngx_Codec Ngx_Http_Framing Ngx_Http_Chunked Ngx_Pool_Inv Ngx_Http_Reply Ngx_Http_Range
begin

text \<open>
  Verification of lookaround, an nginx module that keeps items with a position (an id, a status, a type,
  a latitude and a longitude) in memory shared by the worker processes and answers which items are around
  a point. The module is \<^verbatim>\<open>src/src/\<close>; the server it is linked into is the nginx of \<^verbatim>\<open>src/nginx/\<close>.

  \<^bold>\<open>The parts and how they interact.\<close> The configuration (directives of \<open>module.c\<close>) installs a content handler.
  A worker reads a request into memory of a pool (\<open>ngx_palloc.c\<close>), parses the request line, the URI and the header
  (\<open>ngx_http_parse.c\<close>), runs the handlers of the known header fields, found through a hash table (\<open>ngx_hash.c\<close>),
  chooses the virtual server, checks the header as a whole (\<open>ngx_http_request.c\<close>), and calls the handler
  (\<open>handler.c\<close>), which reads the arguments with \<open>ngx_http_arg\<close>, \<open>ngx_atoi\<close> and \<open>ngx_atofp\<close>
  (\<open>ngx_string.c\<close>). \<open>setitem\<close> enters an item into the id map (\<open>strmap.c\<close>) and into a quad tree over
  the world (\<open>handler.c\<close>, \<open>map.c\<close>), under a spin lock (\<open>ngx_spinlock.c\<close>) in shared memory;
  \<open>getitem\<close> looks an id up; \<open>lookaround\<close> walks the tree and prints the items of a window as JSON.

  \<^bold>\<open>The theories.\<close> Each opens with a note of what it holds.
  \<^item> \<open>Nla_Prelude\<close>: C integers (\<open>wrap32\<close>, \<open>wrap64\<close>), faults as values (\<open>c_result\<close>, \<open>bindr\<close>), the
    allocator MM as an oracle with the contract \<open>mm_contract\<close>, \<open>sprintf\<close> of numbers, and \<open>run_steps\<close>, the
    loop of a byte-driven parser, with the locale \<open>resumable\<close>.
  \<^item> \<open>Nla_Geo\<close>: \<open>map.c\<close>. Rectangles, the choice of a child rectangle, the window around a point, the
    text of an item. The four children partition their parent.
  \<^item> \<open>Nla_Strmap\<close>: \<open>strmap.c\<close>. Its buckets implement a partial map (\<open>strmap_abs\<close>).
  \<^item> \<open>Nla_Quadtree\<close>: the operations of \<open>handler.c\<close> on the tree, over a heap of nodes (\<open>map_heap\<close>,
    \<open>data_heap\<close>): \<open>adddatanode\<close>, \<open>create_child_mapnode\<close>, \<open>remove_datanode_from_map\<close>,
    \<open>get_around_data\<close>, \<open>getdatanode\<close>, \<open>setdataloc\<close>, and the start of the data.
  \<^item> \<open>Nla_Tree_Inv\<close>, \<open>Nla_Items\<close>: the invariant \<open>nla_wf\<close> (every leaf's list is a path, every item is in the
    leaf of its position, the id map and the nodes agree), that the operations keep it, and the refinement of
    the abstract map \<open>items\<close> from ids to items.
  \<^item> \<open>Nla_Search\<close>: the search prints exactly the matching items; \<open>Nla_Move\<close>: what happens to an item that
    changes its leaf; \<open>Nla_Lock\<close>: any number of workers, interleaved call by call.
  \<^item> \<open>Ngx_String\<close>, \<open>Ngx_Codec\<close>, \<open>Ngx_Printf\<close>: \<open>ngx_string.c\<close>; output with a limit is output cut at the limit.
    \<open>Ngx_Times\<close>: dates of \<open>ngx_times.c\<close> and \<open>ngx_http_parse_time.c\<close>, against the calendar counted day by day.
  \<^item> \<open>Ngx_Http_Parse\<close>: request line, URI, arguments.
    \<open>Ngx_Http_Header\<close>: header lines and fields. \<open>Ngx_Http_Chunked\<close>: chunked bodies, with a reference decoder.
  \<^item> \<open>Ngx_Pool\<close>, \<open>Ngx_Pool_Inv\<close>: memory pools, and their invariant over every history of operations.
    \<open>Ngx_Hash\<close>: building hash tables and looking names up, wildcards included.
  \<^item> \<open>Ngx_Http_Request\<close>: hosts, virtual servers, the handlers of the known fields, and the path of a request from
    its first byte to the end of its header. \<open>Ngx_Http_Framing\<close>: how the body of an accepted request is delimited, and
    which headers are accepted.
  \<^item> \<open>Ngx_Http_Reply\<close>: the head of a reply, counted, written (\<open>ngx_http_header_filter_module.c\<close>) and read back
    (\<open>ngx_http_parse_status_line\<close>).
  \<^item> \<open>Ngx_Http_Range\<close>: byte ranges (\<open>ngx_http_range_filter_module.c\<close>), the filters that stand between a reply and the client: which
    ranges of a request are accepted, and the head and the body that are sent for one range and for several.
  \<^item> \<open>Nla_Handler\<close>: the handler and its actions; \<open>Nla_Module\<close>: configuration, start and end.
  \<^item> This theory: the composition from the bytes of a request to the reply, and the bytes of the reply.

  \<^bold>\<open>State and faults.\<close> \<open>nla_state\<close> holds the two heaps, the number of calls of MM so far and
  \<open>g_pNLACoreData\<close>. An operation returns the new state or the fault it runs into: a null or dangling pointer,
  an overrun buffer, a division by zero, an undefined conversion, a lock that is taken, or no fuel left.
  Absence of faults is part of every theorem that says what an operation returns.

  \<^bold>\<open>Fuel.\<close> The walks along the tree and along the list of a leaf take fuel, since the code does not bound them.
  The theorems give the amount that is enough: more than \<open>nMapMaxLevel\<close> for the tree (the tree is never
  deeper) and more than the number of items for a list; \<open>round_trip_hangs_search\<close> shows that after a move no
  amount is enough. \<open>ngx_palloc\<close> and \<open>ngx_palloc_large\<close> call each other: one unit of fuel is enough in every pool with room
  for a node, and \<open>tiny_pool_never_returns\<close> shows that in others no amount is.

  \<^bold>\<open>Parameters.\<close> The MM library (\<open>mm_oracle\<close>: what the n-th call returns), the functions of the server the
  handler calls and the floating point unit (\<open>ngx_services\<close>), the clock, the process id and the file system
  of \<open>Nla_Module\<close>, \<open>malloc\<close> under the pools (\<open>sys_alloc\<close>), regular expressions of server names. Hypotheses on them are
  documented behaviour: MM and \<open>malloc\<close> return fresh, disjoint blocks.

  \<^bold>\<open>Not modelled.\<close> Reading the configuration file, large header buffers, SSL and the phases of the
  server between header and handler, event loop, sockets, log and timers, the other modules of nginx and its mail proxy: input and
  output, or code that a request to the module does not depend on. Of the nginx core, slabs and the other
  containers are left out. MM and \<open>libm\<close> are not part of the repository.
\<close>

unbundle bit_operations_syntax

section \<open>From the bytes of a request to the reply\<close>

text \<open>
  The server and the module for the bytes of one request: \<open>ngx_http_process_request_line\<close> with the header, and, where
  the request is ready, the handler of the module. A request that is not complete or is refused gets no reply of the module.
\<close>

definition serve ::
    "ngx_services \<Rightarrow> ('re, 'c) http_server \<Rightarrow> mm_oracle \<Rightarrow> nla_fuel \<Rightarrow> ngx_http_lookaround_loc_conf \<Rightarrow> nla_state \<Rightarrow> string \<Rightarrow>
     (nla_state \<times> nla_reply) option c_result" where
  "serve sv sc mm fu cf st bytes =
     bindr (ngx_http_process_request_line sc bytes) (\<lambda>outcome.
       case outcome of
         Read_ready rq r u q \<Rightarrow>
           bindr (ngx_http_lookaround_handler sv mm fu st
             \<lparr>req_method = r_method r, req_uri = r_uri u, req_args = r_args u, req_conf = Some cf\<rparr>) (\<lambda>x. Inr (Some x))
       | _ \<Rightarrow> Inr None)"

definition pair_value :: "(string \<times> string) list \<Rightarrow> string \<Rightarrow> string option" where
  "pair_value ps name = map_option snd (find (\<lambda>(k, v). map ngx_tolower k = map ngx_tolower name) ps)"

definition pair_int :: "(string \<times> string) list \<Rightarrow> string \<Rightarrow> int" where
  "pair_int ps name = (case pair_value ps name of None \<Rightarrow> 0 | Some v \<Rightarrow> wrap32 (ngx_atoi v))"

definition line_request :: "ngx_http_lookaround_loc_conf \<Rightarrow> string \<Rightarrow> string \<Rightarrow> nla_request" where
  "line_request cf path qs =
     \<lparr>req_method = NGX_HTTP_GET, req_uri = ''/'' @ path, req_args = qs, req_conf = Some cf\<rparr>"

text \<open>A request: the request line, the header, and whatever follows.\<close>

definition request_bytes :: "string \<Rightarrow> (string \<times> string) list \<Rightarrow> (string \<times> string) list \<Rightarrow> string \<Rightarrow> string" where
  "request_bytes path ps fs rest = get_line path (query_string ps) @ header_block fs @ rest"

definition server_ok :: "('re, 'c) http_server \<Rightarrow> bool" where
  "server_ok sc \<longleftrightarrow> single_server (sc_conf sc) \<and>
     (\<exists>cacheline\<in>{32, 64, 128}. ngx_http_init_headers_in_hash cacheline True = Inr (Some (sc_table sc)))"

lemma serve_request_bytes:
  assumes "list_all usual_char path" "list_all uri_byte (query_string ps)" "server_ok sc" "plain_header fs"
  shows "serve sv sc mm fu cf st (request_bytes path ps fs rest) =
    bindr (ngx_http_lookaround_handler sv mm fu st (line_request cf path (query_string ps))) (\<lambda>x. Inr (Some x))"
proof -
  let ?l = "get_line path (query_string ps)" and ?rq = "\<lparr>rq_in = fresh_headers_in, rq_srv_conf = sc_default sc\<rparr>"
  let ?r = "parsed_get path (query_string ps)"
  let ?u = "\<lparr>r_uri = ''/'' @ path, r_unparsed_uri = ''/'' @ path @ ''?'' @ query_string ps, r_exten = [],
      r_args = query_string ps, valid_unparsed_uri = True\<rparr>"
  obtain c where c: "c \<in> {32, 64, 128}" "ngx_http_init_headers_in_hash c True = Inr (Some (sc_table sc))" "single_server (sc_conf sc)"
    using assms(3) by (auto simp: server_ok_def)
  have "only_host ?rq" "r_method ?r AND NGX_HTTP_TRACE = 0"
    by (simp_all add: only_host_def fresh_headers_in_def parsed_get_def)
  from read_header_ready [OF c assms(4) this, of ?l rest ?u] obtain rq' where
    ready: "read_header sc (?l @ header_block fs @ rest) (length ?l) ?r ?u ?rq = Inr (Read_ready rq' ?r ?u (length (?l @ header_block fs)))"
    by blast
  have "request_line_server (sc_conf sc) b ?r rq = Inr (Inr rq)" for b rq
    by (simp add: request_line_server_def parsed_get_def fresh_request_def)
  moreover have "length ?l = 17 + length path + length (query_string ps)" "http_version ?r = 1001" by (simp_all add: get_line_def parsed_get_def)
  ultimately have "ngx_http_process_request_line sc (request_bytes path ps fs rest) = Inr (Read_ready rq' ?r ?u (length (?l @ header_block fs)))"
    using parse_get_line [OF assms(1,2), of "header_block fs @ rest"] ready
      process_get_line [of "sc_merge_slashes sc (sc_default sc)" path "query_string ps" "header_block fs @ rest"]
    by (simp add: ngx_http_process_request_line_def request_bytes_def)
  then show ?thesis by (simp add: serve_def line_request_def parsed_get_def)
qed

lemma query_arg: "good_pairs ps \<Longrightarrow> good_name name \<Longrightarrow> ngx_http_arg (query_string ps) name = pair_value ps name"
  using http_arg_eq [of name "query_string ps"] arg_scan_query [of name ps] by (auto simp: good_name_def pair_value_def)

lemma arg_names [simp]:
  "good_name ''id''" "good_name ''lat''" "good_name ''lon''" "good_name ''status''" "good_name ''type''"
  by (simp_all add: good_name_def)

lemma actions [simp]:
  "fn_i_get_action ''/setitem'' = ''setitem''" "fn_i_get_action ''/getitem'' = ''getitem''"
  "list_all usual_char ''setitem''" "list_all usual_char ''getitem''"
  by (code_simp, code_simp, simp_all add: usual_char_iff)

lemma line_request_simps [simp]:
  "req_method (line_request cf path qs) = NGX_HTTP_GET" "req_uri (line_request cf path qs) = CHR ''/'' # path"
  "req_args (line_request cf path qs) = qs" "req_conf (line_request cf path qs) = Some cf"
  by (simp_all add: line_request_def)

lemma request_loc_FormatDeg:
  assumes "0 \<le> la" "is_int32 la" "0 \<le> lo" "is_int32 lo"
  shows "request_loc (fn_v_FormatDeg la) (fn_v_FormatDeg lo) = \<lparr>lat = la, lon = lo\<rparr>"
  using assms by (simp add: request_loc_def atofp_FormatDeg wrap32_id)

lemma FormatDeg_uri:
  assumes "0 \<le> d"
  shows "list_all uri_byte (fn_v_FormatDeg d)" "CHR ''&'' \<notin> set (fn_v_FormatDeg d)"
proof -
  have "c = CHR ''.'' \<or> is_digit c" if "c \<in> set (fn_v_FormatDeg d)" for c
    using that by (auto simp: FormatDeg_nonneg [OF assms] pad0_def is_digit_def dest: nat_dec_digits)
  moreover have "\<not> is_digit c" if "c \<in> {NUL, LF, CR, CHR '' '', CHR ''#'', CHR ''&''}" for c
    using that by (auto simp: is_digit_def less_eq_char_def)
  ultimately show "list_all uri_byte (fn_v_FormatDeg d)" "CHR ''&'' \<notin> set (fn_v_FormatDeg d)"
    unfolding list_all_iff uri_byte_def by auto
qed

text \<open>
  C4. From bytes to bytes: the bytes of a request \<open>GET /setitem?...\<close> that carries a new id and a
  position, in any order and with any other pairs among them, with a valid host and any header fields that the server
  does not know, are answered \<open>OK\<close>, and the bytes of a
  later \<open>GET /getitem?id=...\<close> are answered with the JSON object of that id, that position, the status
  and the type of the first request, and its time. The coordinates are those printed by
  \<open>fn_v_FormatDeg\<close> for numbers that are not negative; the state stays well formed.
\<close>

theorem set_then_get:
  assumes wf: "nla_wf L mm st" and mm: "mm_contract mm" "\<not> mm_refuses mm (mm_calls st) (mm_demand st)"
    and cf: "is_int32 L" "nMapMaxLevel cf = L" "room L st (tree_fuel fu)"
    and sv: "healthy sv" "is_int64 (ngx_time sv)"
    and ps: "good_pairs ps" "list_all uri_byte (query_string ps)" "pair_value ps ''id'' = Some k"
      "pair_value ps ''lat'' = Some (fn_v_FormatDeg la)" "pair_value ps ''lon'' = Some (fn_v_FormatDeg lo)"
    and k: "k \<noteq> []" "length k < NLA_DATA_ID_MAX_LEN" "list_all uri_byte k" "CHR ''&'' \<notin> set k" "items st k = None"
    and loc: "0 \<le> la" "is_int32 la" "0 \<le> lo" "is_int32 lo"
    and header: "server_ok sc" "plain_header fs" "plain_header fs'"
  shows "\<exists>st'. serve sv sc mm fu cf st (request_bytes ''setitem'' ps fs rest) = Inr (Some (st', answer sv ''OK'' CT_TXT)) \<and>
    nla_wf L mm st' \<and>
    serve sv sc mm fu' cf st' (request_bytes ''getitem'' [(''id'', k)] fs' rest') =
      Inr (Some (st', answer sv (item_text
        (fresh_item k \<lparr>lat = la, lon = lo\<rparr> (pair_int ps ''status'') (pair_int ps ''type'') (ngx_time sv))) CT_JSON))"
proof -
  let ?r = "line_request cf ''setitem'' (query_string ps)" let ?g = "line_request cf ''getitem'' (query_string [(''id'', k)])"
  let ?it = "fresh_item k \<lparr>lat = la, lon = lo\<rparr> (pair_int ps ''status'') (pair_int ps ''type'') (ngx_time sv)"
  have nul: "NUL \<notin> set k" using k(3) by (auto simp: list_all_iff uri_byte_def)
  have int: "int_arg ?r name 0 = pair_int ps name" if "good_name name" for name
    using query_arg [OF ps(1) that] by (simp add: int_arg_def pair_int_def)
  have i32: "is_int32 (pair_int ps name)" for name
    by (cases "pair_value ps name") (simp_all add: pair_int_def, simp add: is_int32_def)
  obtain st' where st': "ngx_http_lookaround_setdataloc (tree_fuel fu) mm (ngx_time sv) (Some cf) st k \<lparr>lat = la, lon = lo\<rparr>
      (pair_int ps ''status'') (pair_int ps ''type'') = Inr st'" "nla_wf L mm st'" "items st' k = Some ?it"
    using setdataloc_refines_new [OF wf mm(1) cf k(2) nul i32 i32 sv(2) k(5) mm(2)] by blast
  have "ngx_http_lookaround_setitem sv mm fu st ?r = Inr (st', answer sv ''OK'' CT_TXT)"
    using setitem_complete [of ?r k "fn_v_FormatDeg la" "fn_v_FormatDeg lo" sv mm fu st] ps k(1,2) nul sv(1) st'(1) int
    by (simp add: query_arg request_loc_FormatDeg [OF loc])
  then have "serve sv sc mm fu cf st (request_bytes ''setitem'' ps fs rest) = Inr (Some (st', answer sv ''OK'' CT_TXT))"
    using serve_request_bytes [OF actions(3) ps(2) header(1,2)] handler_healthy(1) [OF sv(1), of ?r] by simp
  moreover have "printable ?it" using k(2) nul i32 sv(2) loc by (simp add: printable_def item_ok_def fresh_item_def)
  then have "ngx_http_lookaround_getitem sv st' ?g = Inr (answer sv (item_text ?it) CT_JSON)"
    using getitem_eq [OF st'(2) sv(1), of ?g k] query_arg [of "[(''id'', k)]" "''id''"] k nul st'(3)
    by (simp add: good_pairs_def pair_value_def)
  then have "serve sv sc mm fu' cf st' (request_bytes ''getitem'' [(''id'', k)] fs' rest') =
      Inr (Some (st', answer sv (item_text ?it) CT_JSON))"
    using serve_request_bytes [OF actions(4) _ header(1,3), of "[(''id'', k)]"] handler_healthy(2) [OF sv(1), of ?g] k(3)
    by (simp add: uri_byte_def)
  ultimately show ?thesis using st'(2) by blast
qed

definition demo_server :: "hi_handler ngx_hash_t \<Rightarrow> (unit, nat) http_server" where
  "demo_server t = \<lparr>sc_conf = demo_request_conf, sc_merge_slashes = (\<lambda>c. True), sc_underscores = (\<lambda>c. False),
     sc_ignore_invalid = (\<lambda>c. True), sc_table = t, sc_default = 0\<rparr>"

lemma demo_server_ok: "ngx_http_init_headers_in_hash 64 True = Inr (Some t) \<Longrightarrow> server_ok (demo_server t)"
  by (simp add: server_ok_def demo_server_def demo_request_conf_def single_server_def)

lemma demo_plain_header: "plain_header [(''Host'', ''a.b''), (''Accept'', [])]"
proof -
  have n: "map ngx_tolower ''Host'' = ''host''" "map ngx_tolower ''Accept'' = ''accept''" by code_simp+
  have a: "known_handler ''accept'' = None" by (simp add: known_handler_def ngx_http_headers_in_def ngx_tolower_def char_or_0x20_def less_eq_char_def)
  have v: "host_valid ''a.b''" by code_simp
  show ?thesis unfolding plain_header_def list.pred_inject plain_field_def fst_conv snd_conv named_def filter.simps n
    using demo_fields a v by simp
qed

theorem set_then_get_witness:
  "\<exists>t st0 st. ngx_http_init_headers_in_hash 64 True = Inr (Some t) \<and> fn_v_InitCoreData mm_segment boot_state boot_core 7 = Inr st0 \<and>
     serve demo_services (demo_server t) mm_segment demo_fuel demo_conf st0
       (request_bytes ''setitem'' [(''lon'', fn_v_FormatDeg 116407400), (''ID'', ''car7''), (''lat'', fn_v_FormatDeg 39904200)]
         [(''Host'', ''a.b''), (''Accept'', [])] []) =
       Inr (Some (st, answer demo_services ''OK'' CT_TXT)) \<and>
     serve demo_services (demo_server t) mm_segment demo_fuel demo_conf st
       (request_bytes ''getitem'' [(''id'', ''car7'')] [(''Host'', ''a.b''), (''Accept'', [])] []) =
       Inr (Some (st, answer demo_services (item_text (fresh_item ''car7'' \<lparr>lat = 39904200, lon = 116407400\<rparr> 0 0 1700000000)) CT_JSON))"
proof -
  let ?ps = "[(''lon'', fn_v_FormatDeg 116407400), (''ID'', ''car7''), (''lat'', fn_v_FormatDeg 39904200)]"
  obtain t where t: "ngx_http_init_headers_in_hash 64 True = Inr (Some t)" using headers_in_table [of 64] by auto
  obtain st0 where st: "fn_v_InitCoreData mm_segment boot_state boot_core 7 = Inr st0" "nla_wf 2 mm_segment st0"
    "items st0 = Map.empty" "mm_calls st0 = 5" "mm_demand st0 = 80" using boot_started by blast
  have ps: "pair_value ?ps ''id'' = Some ''car7''" "pair_value ?ps ''lat'' = Some (fn_v_FormatDeg 39904200)"
    "pair_value ?ps ''lon'' = Some (fn_v_FormatDeg 116407400)" "pair_value ?ps ''status'' = None" "pair_value ?ps ''type'' = None"
    by (simp_all add: pair_value_def ngx_tolower_def less_eq_char_def char_or_0x20_def)
  have good: "good_pairs ?ps" "list_all uri_byte (query_string ?ps)"
    by (simp_all add: good_pairs_def good_name_def uri_byte_def FormatDeg_uri)
  have "\<exists>st. serve demo_services (demo_server t) mm_segment demo_fuel demo_conf st0
       (request_bytes ''setitem'' ?ps [(''Host'', ''a.b''), (''Accept'', [])] []) = Inr (Some (st, answer demo_services ''OK'' CT_TXT)) \<and> nla_wf 2 mm_segment st \<and>
     serve demo_services (demo_server t) mm_segment demo_fuel demo_conf st
       (request_bytes ''getitem'' [(''id'', ''car7'')] [(''Host'', ''a.b''), (''Accept'', [])] []) =
       Inr (Some (st, answer demo_services (item_text (fresh_item ''car7'' \<lparr>lat = 39904200, lon = 116407400\<rparr>
         (pair_int ?ps ''status'') (pair_int ?ps ''type'') (ngx_time demo_services))) CT_JSON))"
  proof (rule set_then_get [OF st(2) mm_contract_segment _ _ _ _ demo_healthy _ good ps(1-3) _ _ _ _ _ _ _ _ _ demo_server_ok [OF t] demo_plain_header demo_plain_header])
    show "\<not> mm_refuses mm_segment (mm_calls st0) (mm_demand st0)" using st(4,5) mm_segment_serves by simp
    show "nMapMaxLevel demo_conf = 2" "room 2 st0 (tree_fuel demo_fuel)" using st(4) by (simp_all add: demo_conf_def room_def demo_fuel_def)
    show "is_int64 (ngx_time demo_services)" by (simp add: demo_services_def is_int64_def)
  qed (use st(3) in \<open>simp_all add: is_int32_def uri_byte_def\<close>)
  with t st(1) ps(4,5) show ?thesis by (auto simp: pair_int_def demo_services_def)
qed

section \<open>The reply on the wire\<close>

text \<open>
  The members of \<open>headers_out\<close> that the handler sets before it calls \<open>ngx_http_send_header\<close>. A request that no other module has
  touched; the filters before \<open>ngx_http_header_filter\<close> pass it on as it is.
\<close>

definition with_reply :: "headers_out \<Rightarrow> out_request \<Rightarrow> out_request" where
  "with_reply ho r = r\<lparr>headers_out := (headers_out r)\<lparr>ho_content_type := h_content_type ho, ho_status := nat (h_status ho),
     ho_content_length_n := h_content_length_n ho\<rparr>\<rparr>"

definition untouched :: "out_request \<Rightarrow> bool" where
  "untouched r \<longleftrightarrow> \<not> or_header_sent r \<and> or_main r \<and> 1000 \<le> or_http_version r \<and> \<not> or_chunked r \<and> \<not> or_gzip_vary r \<and>
     (let ho = headers_out r in ho_headers ho = [] \<and> ho_status_line ho = [] \<and> ho_server ho = None \<and> ho_date ho = None \<and>
      ho_content_length ho = None \<and> ho_last_modified ho = None \<and> ho_location ho = None \<and> ho_charset ho = [] \<and> ho_last_modified_time ho = -1)"

definition env_ok :: "header_env \<Rightarrow> bool" where
  "env_ok env \<longleftrightarrow> temp_buf env \<and> length (cached_http_time env) = 29 \<and> header_value (cached_http_time env) \<and> redirect_port env \<le> 65535 \<and>
     0 \<le> keepalive_header env \<and> keepalive_header env < 9223372036854775808"

lemma with_reply_ok:
  fixes bytes ctype :: string
  defines ho_def: "ho \<equiv> \<lparr>h_content_type = ctype, h_status = 200, h_content_length_n = int (length bytes)\<rparr>"
  assumes "untouched r" "env_ok env" "length bytes < 9223372036854775808" "header_value ctype" "ctype \<noteq> []"
  shows "numbers_ok env (with_reply ho r)" "location_ok (headers_out (with_reply ho r))" "writes_head env (with_reply ho r)"
    "contents_ok env (with_reply ho r)" "good_status (headers_out (with_reply ho r))"
    "reply_fields env (written_request env (with_reply ho r)) (written_target env (with_reply ho r)) =
      [(''Server'', if server_tokens env then ''nginx/1.4.1'' else ''nginx''), (''Date'', cached_http_time env), (''Content-Type'', ctype),
       (''Content-Length'', nat_dec (length bytes))] @ connection_fields env (with_reply ho r)"
proof -
  let ?r = "with_reply ho r"
  have u: "\<not> or_header_sent r" "or_main r" "1000 \<le> or_http_version r" "\<not> or_chunked r" "\<not> or_gzip_vary r" "ho_headers (headers_out r) = []"
    "ho_status_line (headers_out r) = []" "ho_server (headers_out r) = None" "ho_date (headers_out r) = None" "ho_content_length (headers_out r) = None"
    "ho_last_modified (headers_out r) = None" "ho_location (headers_out r) = None" "ho_charset (headers_out r) = []" "ho_last_modified_time (headers_out r) = -1"
    using assms(2) by (simp_all add: untouched_def Let_def)
  have prep: "prepare_head (?r\<lparr>or_header_sent := True\<rparr>) = (if or_method r = NGX_HTTP_HEAD then ?r\<lparr>or_header_sent := True, or_header_only := True\<rparr> else ?r\<lparr>or_header_sent := True\<rparr>)"
    by (simp add: prepare_head_def with_reply_def ho_def drop_last_modified_def adjust_to_status_def u Let_def)
  have loc: "completed ?r = None" unfolding completed_def prep by (simp add: relative_location_def with_reply_def u)
  show "numbers_ok env ?r" using assms(3,4) u(14) by (simp add: numbers_ok_def env_ok_def with_reply_def ho_def time_ok_def)
  show "location_ok (headers_out ?r)" by (simp add: location_ok_def with_reply_def u)
  show "writes_head env ?r" using assms(3) u loc by (simp add: writes_head_def env_ok_def) (simp add: with_reply_def)
  have ct: "content_type_text (headers_out ?r) = ctype" by (simp add: content_type_text_def with_charset_def with_reply_def ho_def u)
  show "contents_ok env ?r" using assms(3,5) u loc ct by (simp add: contents_ok_def env_ok_def written_target_def) (simp add: with_reply_def u)
  show "good_status (headers_out ?r)" by (simp add: good_status_def with_reply_def ho_def u status_of_def status_index_def ngx_http_status_lines_def)
  have w: "written_request env ?r = prepare_head (?r\<lparr>or_header_sent := True\<rparr>)"
    unfolding written_request_def loc hide_location_def prep by (simp add: settle_vary_def with_reply_def u)
  have same: "headers_out (written_request env ?r) = headers_out ?r" "\<not> or_chunked (written_request env ?r)" "\<not> or_gzip_vary (written_request env ?r)"
      "connection_fields env (written_request env ?r) = connection_fields env ?r"
    unfolding w prep by (simp_all add: connection_fields_def with_reply_def u)
  have sel: "ho_server (headers_out ?r) = None" "ho_date (headers_out ?r) = None" "ho_content_type (headers_out ?r) = ctype"
      "ho_content_length (headers_out ?r) = None" "ho_content_length_n (headers_out ?r) = int (length bytes)"
      "ho_last_modified_time (headers_out ?r) = -1" "ho_headers (headers_out ?r) = []"
    by (simp_all add: with_reply_def ho_def u)
  have "written_target env ?r = None" by (simp add: written_target_def loc)
  then show "reply_fields env (written_request env ?r) (written_target env ?r) =
      [(''Server'', if server_tokens env then ''nginx/1.4.1'' else ''nginx''), (''Date'', cached_http_time env), (''Content-Type'', ctype),
       (''Content-Length'', nat_dec (length bytes))] @ connection_fields env ?r"
    using assms(6) same(2,3) by (simp add: reply_fields_def same(1,4) sel ct list_fields_def)
qed

lemma content_types: "header_value CT_TXT" "header_value CT_JSON" "CT_TXT \<noteq> []" "CT_JSON \<noteq> []"
  by code_simp+

text \<open>
  C5. The reply of the module on the wire: where the handler answers with a text, \<open>ngx_http_send_header\<close> writes a head without
  leaving its buffer, and head and text together are read back as a reply of status 200 in version 1.1 whose fields are the
  server, the date, the content type of the answer, its length and the connection, and whose body is the text: the header
  ends where the text starts, and \<open>ngx_atoof\<close> reads the length of the text in \<open>Content-Length\<close>.
\<close>

theorem answer_on_the_wire:
  assumes "untouched r" "env_ok env" "length answer_text < 9223372036854775808" "ctype \<in> {CT_TXT, CT_JSON}"
  shows "\<exists>hdr head only r' n s hs. headers (answer sv answer_text ctype) = Some hdr \<and> body (answer sv answer_text ctype) = Some answer_text \<and>
    ngx_http_send_header (ngx_http_header_filter env) 0 (with_reply hdr r) = Inr (HF_write head only, r') \<and>
    ngx_http_parse_status_line (head @ answer_text) 0 fresh_status = (NGX_OK, n, s) \<and> st_code s = 200 \<and> st_http_version s = 1001 \<and>
    ngx_http_process_request_headers head_reader (head @ answer_text) n fresh_header [] () = Inr (Headers_done (length head), hs, ()) \<and>
    map (\<lambda>h. (h_key h, h_value h)) hs =
      [(''Server'', if server_tokens env then ''nginx/1.4.1'' else ''nginx''), (''Date'', cached_http_time env), (''Content-Type'', ctype),
       (''Content-Length'', nat_dec (length answer_text))] @ connection_fields env (with_reply hdr r) \<and>
    ngx_atoof (nat_dec (length answer_text)) = int (length answer_text)"
proof -
  let ?h = "\<lparr>h_content_type = ctype, h_status = 200, h_content_length_n = int (length answer_text)\<rparr>"
  have c: "header_value ctype" "ctype \<noteq> []" using assms(4) content_types by auto
  note ok = with_reply_ok [OF assms(1-3) c]
  have "ho_status (headers_out (with_reply ?h r)) = 200" by (simp add: with_reply_def)
  from reply_head_reads [OF ok(1-5), of answer_text, unfolded ok(6) this] obtain head only r' n s hs where
    h: "ngx_http_header_filter env (with_reply ?h r) = Inr (HF_write head only, r')"
      "ngx_http_parse_status_line (head @ answer_text) 0 fresh_status = (NGX_OK, n, s)" "st_code s = 200" "st_http_version s = 1001"
      "ngx_http_process_request_headers head_reader (head @ answer_text) n fresh_header [] () = Inr (Headers_done (length head), hs, ())"
      "map (\<lambda>h. (h_key h, h_value h)) hs =
        [(''Server'', if server_tokens env then ''nginx/1.4.1'' else ''nginx''), (''Date'', cached_http_time env), (''Content-Type'', ctype),
         (''Content-Length'', nat_dec (length answer_text))] @ connection_fields env (with_reply ?h r)"
    by blast
  have "wrap64 (int (length answer_text)) = int (length answer_text)" using assms(3) by (intro wrap64_id) (simp add: is_int64_def)
  then have "ngx_atoof (nat_dec (length answer_text)) = int (length answer_text)"
    using nat_dec_nonempty by (auto simp: atoof_eq dec_val_nat_dec list_all_iff dest: nat_dec_digits)
  then show ?thesis using h unfolding ngx_http_send_header_def answer_def by auto
qed

theorem answer_on_the_wire_witness:
  "\<exists>hdr head only r' n s. headers (answer demo_services ''OK'' CT_TXT) = Some hdr \<and>
    ngx_http_send_header (ngx_http_header_filter demo_env) 0 (with_reply hdr (demo_reply\<lparr>or_chunked := False\<rparr>)) = Inr (HF_write head only, r') \<and>
    ngx_http_parse_status_line (head @ ''OK'') 0 fresh_status = (NGX_OK, n, s) \<and> st_code s = 200"
proof -
  have "untouched (demo_reply\<lparr>or_chunked := False\<rparr>)" by (simp add: untouched_def demo_reply_def demo_out_def)
  moreover have "header_value (cached_http_time demo_env)" by code_simp
  then have "env_ok demo_env" by (simp add: env_ok_def) (simp add: demo_env_def redirect_port_def)
  ultimately show ?thesis using answer_on_the_wire [of "demo_reply\<lparr>or_chunked := False\<rparr>" demo_env "''OK''" CT_TXT demo_services] by force
qed

end
